(* ===== verification/Prelude.thy ===== *)
theory Prelude
  imports Main "HOL-Library.Monad_Syntax"
begin

text \<open>
  Shared ground of the development: the lemma collections, list and option facts, and the
  abstraction of pointer structures by HOL lists.

  A C pointer that may be NULL is an \<open>'a option\<close>: \<open>None\<close> is NULL.  A structure field reached
  through a pointer is a function from node identities to field values, so that
  \<open>node->flink = x\<close> is the update \<open>f(node := x)\<close>.  Dereferencing NULL is undefined in C;
  operations that may do so are written in the option monad and yield \<open>None\<close> on a NULL
  dereference (binding on the pointer itself), and the theorems about them show that the
  result is \<open>Some\<close>.

  \<open>path f x xs y\<close> says that following the link field \<open>f\<close> from \<open>x\<close> visits exactly the nodes
  \<open>xs\<close> and ends in \<open>y\<close>.
\<close>

named_theorems path_simps

section \<open>Lists\<close>

lemma distinct_split_unique:
  assumes "xs @ a # ys = us @ a # vs" "distinct (xs @ a # ys)"
  shows "xs = us \<and> ys = vs"
proof -
  have "a \<notin> set xs" "a \<notin> set us"
    using assms by (auto, metis distinct_append not_distinct_conv_prefix)
  then show ?thesis
    using assms(1) by (metis append_Cons_eq_iff assms(2) distinct.simps(2) distinct_append)
qed

lemma last_in_rev: "xs \<noteq> [] \<Longrightarrow> rev xs = last xs # rev (butlast xs)"
  by (metis append_butlast_last_id rev.simps(2) rev_rev_ident rev_append rev_singleton_conv
      append_Cons append_Nil)

lemma sorted_wrt_insert_mid:
  assumes "transp R" "sorted_wrt R (xs @ ys)"
    and "\<And>x. x \<in> set xs \<Longrightarrow> R x n" "\<And>y. y \<in> set ys \<Longrightarrow> R n y"
  shows "sorted_wrt R (xs @ n # ys)"
  using assms by (auto simp: sorted_wrt_append)

lemma sorted_wrt_remove_mid: "sorted_wrt R (xs @ n # ys) \<Longrightarrow> sorted_wrt R (xs @ ys)"
  by (auto simp: sorted_wrt_append)

section \<open>Paths along a link field\<close>

primrec path :: "('a \<Rightarrow> 'a option) \<Rightarrow> 'a option \<Rightarrow> 'a list \<Rightarrow> 'a option \<Rightarrow> bool" where
  "path f x [] y \<longleftrightarrow> x = y"
| "path f x (a # as) y \<longleftrightarrow> x = Some a \<and> path f (f a) as y"

lemma path_None [simp]: "path f None xs y \<longleftrightarrow> xs = [] \<and> y = None"
  by (cases xs) auto

lemma path_append [simp]: "path f x (as @ bs) y \<longleftrightarrow> (\<exists>z. path f x as z \<and> path f z bs y)"
  by (induction as arbitrary: x) auto

lemma path_unique_end: "path f x as y \<Longrightarrow> path f x as z \<Longrightarrow> y = z"
  by (induction as arbitrary: x) auto

lemma path_upd [simp]: "u \<notin> set as \<Longrightarrow> path (f(u := v)) x as y \<longleftrightarrow> path f x as y"
  by (induction as arbitrary: x) auto

lemma path_cong:
  assumes "\<And>a. a \<in> set as \<Longrightarrow> f a = g a"
  shows "path f x as y \<longleftrightarrow> path g x as y"
  using assms by (induction as arbitrary: x) auto

lemma path_Some_Nil_iff: "path f (Some a) as None \<Longrightarrow> as \<noteq> []"
  by (cases as) auto

text \<open>The pointer to the first and to the last node of a list of nodes, NULL when it is empty.\<close>

definition hd_opt :: "'a list \<Rightarrow> 'a option" where
  "hd_opt xs = (case xs of [] \<Rightarrow> None | x # _ \<Rightarrow> Some x)"

definition last_opt :: "'a list \<Rightarrow> 'a option" where
  "last_opt xs = (if xs = [] then None else Some (last xs))"

lemma hd_opt_simps [simp]: "hd_opt [] = None" "hd_opt (x # xs) = Some x"
  by (simp_all add: hd_opt_def)

lemma last_opt_simps [simp]:
  "last_opt [] = None" "last_opt [x] = Some x" "last_opt (x # y # ys) = last_opt (y # ys)"
  by (simp_all add: last_opt_def)

lemma last_opt_append [simp]: "last_opt (xs @ y # ys) = last_opt (y # ys)"
  by (simp add: last_opt_def)

lemma hd_opt_rev [simp]: "hd_opt (rev xs) = last_opt xs"
  by (cases xs rule: rev_cases) auto

lemma last_opt_rev [simp]: "last_opt (rev xs) = hd_opt xs"
  by (cases xs) auto

lemma hd_opt_None [simp]: "hd_opt xs = None \<longleftrightarrow> xs = []"
  by (cases xs) auto

lemma last_opt_None [simp]: "last_opt xs = None \<longleftrightarrow> xs = []"
  by (simp add: last_opt_def)

lemma hd_opt_in_set: "hd_opt xs = Some x \<Longrightarrow> x \<in> set xs"
  by (cases xs) auto

lemma last_opt_in_set: "last_opt xs = Some x \<Longrightarrow> x \<in> set xs"
  by (auto simp: last_opt_def split: if_splits)

lemma path_start: "path f x as None \<Longrightarrow> x = hd_opt as"
  by (cases as) auto

lemma path_to_Some: "path f x as (Some y) \<Longrightarrow> \<exists>a. x = Some a"
  by (cases x) auto

lemma path_unique: "path f x as None \<Longrightarrow> path f x bs None \<Longrightarrow> as = bs"
proof (induction as arbitrary: x bs)
  case Nil
  then show ?case by (cases bs) auto
next
  case (Cons a as)
  then show ?case by (cases bs) auto
qed

lemma path_hd_notin: "path f (f a) as None \<Longrightarrow> a \<notin> set as"
proof
  assume p: "path f (f a) as None" and "a \<in> set as"
  then obtain us vs where s: "as = us @ a # vs" by (auto simp: in_set_conv_decomp)
  with p have "path f (f a) vs None" by auto
  with p have "vs = as" by (metis path_unique)
  with s show False by simp
qed

lemma path_distinct: "path f x as None \<Longrightarrow> distinct as"
  by (induction as arbitrary: x) (auto dest: path_hd_notin)

text \<open>
  The two shapes of update every list operation is made of: a node spliced in behind \<open>p\<close>,
  and the node behind \<open>p\<close> taken out.
\<close>

lemma path_splice_in:
  assumes "path f x (xs @ p # ys) y" "n \<notin> set (xs @ p # ys)" "p \<notin> set xs" "p \<notin> set ys"
  shows "path (f(n := f p, p := Some n)) x (xs @ p # n # ys) y"
  using assms by auto

lemma path_splice_out:
  assumes "path f x (xs @ p # n # ys) y" "p \<notin> set xs" "p \<notin> set ys" "p \<noteq> n"
  shows "path (f(p := f n)) x (xs @ p # ys) y"
  using assms by auto

lemma path_snoc:
  assumes "path f x xs None" "n \<notin> set xs" "xs \<noteq> []"
  shows "path (f(n := None, last xs := Some n)) x (xs @ [n]) None"
proof -
  obtain us p where xs: "xs = us @ [p]" using assms(3) by (metis rev_exhaust)
  have "distinct xs" using assms(1) by (rule path_distinct)
  with assms xs show ?thesis by auto
qed

lemma path_next:
  assumes "path f x (xs @ a # ys) None"
  shows "f a = hd_opt ys"
  using assms by (auto dest: path_start)

end
