(* ===== verification/Queue.thy ===== *)
theory Queue
  imports Prelude
begin

text \<open>
  The singly and doubly linked queues of \<open>libs/libc/queue\<close> and \<open>include/queue.h\<close>, on which
  the task lists, the watchdog list, the work queues and the message queues are built.

  A queue header is a record of its \<open>head\<close> and \<open>tail\<close> pointers.  The entries are abstract
  node identities; their \<open>flink\<close> (and \<open>blink\<close>) fields are functions from identities to
  pointers, shared by all queues whose entries live in the same kind of structure.
  \<open>sq_list\<close> and \<open>dq_list\<close> relate such a state to the list of its entries.  The two locales
  \<open>fifo\<close> and \<open>deque\<close> are the contracts the clients of the queues rely on.
\<close>

section \<open>Singly linked queues\<close>

record 'a sq_queue =
  sq_head :: "'a option"
  sq_tail :: "'a option"

type_synonym 'a sq_state = "('a \<Rightarrow> 'a option) \<times> 'a sq_queue"

definition sq_init :: "'a sq_queue" where
  "sq_init = \<lparr>sq_head = None, sq_tail = None\<rparr>"

definition sq_empty :: "'a sq_queue \<Rightarrow> bool" where
  "sq_empty q \<longleftrightarrow> sq_head q = None"

definition sq_peek :: "'a sq_queue \<Rightarrow> 'a option" where
  "sq_peek q = sq_head q"

definition sq_move :: "'a sq_queue \<Rightarrow> 'a sq_queue \<Rightarrow> 'a sq_queue \<times> 'a sq_queue" where
  "sq_move q1 q2 =
     (let q2' = q2\<lparr>sq_head := sq_head q1, sq_tail := sq_tail q1\<rparr>;
          q1' = q1\<lparr>sq_head := None, sq_tail := None\<rparr>
      in (q1', q2'))"

definition sq_addfirst :: "'a \<Rightarrow> 'a sq_state \<Rightarrow> 'a sq_state" where
  "sq_addfirst node st =
     (let (f, q) = st;
          f' = f(node := sq_head q);
          q' = (if sq_head q = None then q\<lparr>sq_tail := Some node\<rparr> else q)
      in (f', q'\<lparr>sq_head := Some node\<rparr>))"

definition sq_addlast :: "'a \<Rightarrow> 'a sq_state \<Rightarrow> 'a sq_state option" where
  "sq_addlast node st =
     (let (f, q) = st; f1 = f(node := None)
      in if sq_head q = None
         then Some (f1, q\<lparr>sq_head := Some node, sq_tail := Some node\<rparr>)
         else do { t \<leftarrow> sq_tail q;
                   Some (f1(t := Some node), q\<lparr>sq_tail := Some node\<rparr>) })"

definition sq_addafter :: "'a \<Rightarrow> 'a \<Rightarrow> 'a sq_state \<Rightarrow> 'a sq_state option" where
  "sq_addafter prev node st =
     (let (f, q) = st
      in if sq_head q = None \<or> Some prev = sq_tail q
         then sq_addlast node (f, q)
         else (let f1 = f(node := f prev) in Some (f1(prev := Some node), q)))"

definition sq_remfirst :: "'a sq_state \<Rightarrow> 'a option \<times> 'a sq_state" where
  "sq_remfirst st =
     (let (f, q) = st; ret = sq_head q
      in case ret of
           None \<Rightarrow> (ret, (f, q))
         | Some r \<Rightarrow>
             (let q1 = q\<lparr>sq_head := f r\<rparr>;
                  q2 = (if sq_head q1 = None then q1\<lparr>sq_tail := None\<rparr> else q1)
              in (ret, (f(r := None), q2))))"

text \<open>The search \<open>for (prev = head; prev && prev->flink != node; prev = prev->flink)\<close>.\<close>

partial_function (option) sq_findprev ::
    "('a \<Rightarrow> 'a option) \<Rightarrow> 'a option \<Rightarrow> 'a \<Rightarrow> 'a option option" where
  "sq_findprev f p node =
     (case p of
        None \<Rightarrow> Some None
      | Some prev \<Rightarrow> if f prev = Some node then Some (Some prev)
                     else sq_findprev f (f prev) node)"

definition sq_remafter :: "'a \<Rightarrow> 'a sq_state \<Rightarrow> 'a option \<times> 'a sq_state" where
  "sq_remafter node st =
     (let (f, q) = st; ret = f node
      in case ret of
           None \<Rightarrow> (ret, (f, q))
         | Some r \<Rightarrow>
             if sq_head q = None then (ret, (f, q))
             else if sq_tail q = Some r
             then (ret, (f(node := None, r := None), q\<lparr>sq_tail := Some node\<rparr>))
             else (ret, (f(node := f r, r := None), q)))"

definition sq_rem :: "'a option \<Rightarrow> 'a sq_state \<Rightarrow> 'a sq_state option" where
  "sq_rem nodep st =
     (let (f, q) = st
      in case (sq_head q, nodep) of
           (Some h, Some node) \<Rightarrow>
             if node = h
             then (let q1 = q\<lparr>sq_head := f node\<rparr>
                   in Some (f, if Some node = sq_tail q1 then q1\<lparr>sq_tail := None\<rparr> else q1))
             else do { prev \<leftarrow> sq_findprev f (sq_head q) node;
                       Some (case prev of None \<Rightarrow> (f, q)
                             | Some p \<Rightarrow> snd (sq_remafter p (f, q))) }
         | _ \<Rightarrow> Some (f, q))"

definition sq_remlast :: "'a sq_state \<Rightarrow> ('a option \<times> 'a sq_state) option" where
  "sq_remlast st =
     (let (f, q) = st; ret = sq_tail q
      in case ret of
           None \<Rightarrow> Some (ret, (f, q))
         | Some r \<Rightarrow>
             if sq_head q = sq_tail q
             then Some (ret, (f(r := None), q\<lparr>sq_head := None, sq_tail := None\<rparr>))
             else do { prev \<leftarrow> sq_findprev f (sq_head q) r;
                       Some (case prev of
                           None \<Rightarrow> (ret, (f(r := None), q))
                         | Some p \<Rightarrow> (ret, (f(p := None, r := None), q\<lparr>sq_tail := Some p\<rparr>))) })"

definition sq_cat ::
    "('a \<Rightarrow> 'a option) \<Rightarrow> 'a sq_queue \<Rightarrow> 'a sq_queue \<Rightarrow>
     (('a \<Rightarrow> 'a option) \<times> 'a sq_queue \<times> 'a sq_queue) option" where
  "sq_cat f q1 q2 =
     (if sq_empty q2 then (let (q1', q2') = sq_move q1 q2 in Some (f, q1', q2'))
      else if \<not> sq_empty q1
      then do { t \<leftarrow> sq_tail q2;
                Some (f(t := sq_head q1), sq_init, q2\<lparr>sq_tail := sq_tail q1\<rparr>) }
      else Some (f, q1, q2))"

text \<open>The counting loop of \<open>sq_count\<close> and \<open>dq_count\<close>.\<close>

partial_function (option) count_loop :: "('a \<Rightarrow> 'a option) \<Rightarrow> 'a option \<Rightarrow> nat \<Rightarrow> nat option" where
  "count_loop f p c =
     (case p of None \<Rightarrow> Some c | Some node \<Rightarrow> count_loop f (f node) (Suc c))"

definition sq_count :: "'a sq_state \<Rightarrow> nat option" where
  "sq_count st = (let (f, q) = st in count_loop f (sq_head q) 0)"

section \<open>Doubly linked queues\<close>

record 'a dq_queue =
  dq_head :: "'a option"
  dq_tail :: "'a option"

record 'a links =
  flink :: "'a \<Rightarrow> 'a option"
  blink :: "'a \<Rightarrow> 'a option"

type_synonym 'a dq_state = "'a links \<times> 'a dq_queue"

definition set_flink :: "'a \<Rightarrow> 'a option \<Rightarrow> 'a links \<Rightarrow> 'a links" where
  "set_flink a x l = l\<lparr>flink := (flink l)(a := x)\<rparr>"

definition set_blink :: "'a \<Rightarrow> 'a option \<Rightarrow> 'a links \<Rightarrow> 'a links" where
  "set_blink a x l = l\<lparr>blink := (blink l)(a := x)\<rparr>"

definition dq_init :: "'a dq_queue" where
  "dq_init = \<lparr>dq_head = None, dq_tail = None\<rparr>"

definition dq_empty :: "'a dq_queue \<Rightarrow> bool" where
  "dq_empty q \<longleftrightarrow> dq_head q = None"

definition dq_peek :: "'a dq_queue \<Rightarrow> 'a option" where
  "dq_peek q = dq_head q"

definition dq_next :: "'a \<Rightarrow> 'a links \<Rightarrow> 'a option" where
  "dq_next p l = flink l p"

definition dq_move :: "'a dq_queue \<Rightarrow> 'a dq_queue \<Rightarrow> 'a dq_queue \<times> 'a dq_queue" where
  "dq_move q1 q2 =
     (let q2' = q2\<lparr>dq_head := dq_head q1, dq_tail := dq_tail q1\<rparr>;
          q1' = q1\<lparr>dq_head := None, dq_tail := None\<rparr>
      in (q1', q2'))"

definition dq_addfirst :: "'a \<Rightarrow> 'a dq_state \<Rightarrow> 'a dq_state" where
  "dq_addfirst node st =
     (let (l, q) = st;
          l1 = set_flink node (dq_head q) (set_blink node None l)
      in case dq_head q of
           None \<Rightarrow> (l1, q\<lparr>dq_head := Some node, dq_tail := Some node\<rparr>)
         | Some h \<Rightarrow> (set_blink h (Some node) l1, q\<lparr>dq_head := Some node\<rparr>))"

definition dq_addlast :: "'a \<Rightarrow> 'a dq_state \<Rightarrow> 'a dq_state option" where
  "dq_addlast node st =
     (let (l, q) = st;
          l1 = set_blink node (dq_tail q) (set_flink node None l)
      in if dq_head q = None
         then Some (l1, q\<lparr>dq_head := Some node, dq_tail := Some node\<rparr>)
         else do { t \<leftarrow> dq_tail q;
                   Some (set_flink t (Some node) l1, q\<lparr>dq_tail := Some node\<rparr>) })"

definition dq_addafter :: "'a \<Rightarrow> 'a \<Rightarrow> 'a dq_state \<Rightarrow> 'a dq_state option" where
  "dq_addafter prev node st =
     (let (l, q) = st
      in if dq_head q = None \<or> Some prev = dq_tail q
         then dq_addlast node (l, q)
         else do { next \<leftarrow> flink l prev;
                   let l1 = set_flink node (Some next) (set_blink node (Some prev) l);
                   Some (set_flink prev (Some node) (set_blink next (Some node) l1), q) })"

definition dq_addbefore :: "'a \<Rightarrow> 'a \<Rightarrow> 'a dq_state \<Rightarrow> 'a dq_state option" where
  "dq_addbefore next node st =
     (let (l, q) = st
      in if dq_head q = None \<or> Some next = dq_head q
         then Some (dq_addfirst node (l, q))
         else do { prev \<leftarrow> blink l next;
                   let l1 = set_blink node (Some prev) (set_flink node (Some next) l);
                   Some (set_blink next (Some node) (set_flink prev (Some node) l1), q) })"

definition dq_rem :: "'a \<Rightarrow> 'a dq_state \<Rightarrow> 'a dq_state" where
  "dq_rem node st =
     (let (l, q) = st;
          prev = blink l node;
          next = flink l node;
          (l1, q1) = (case prev of
                        None \<Rightarrow> (l, q\<lparr>dq_head := next\<rparr>)
                      | Some p \<Rightarrow> (set_flink p next l, q));
          (l2, q2) = (case next of
                        None \<Rightarrow> (l1, q1\<lparr>dq_tail := prev\<rparr>)
                      | Some n \<Rightarrow> (set_blink n prev l1, q1))
      in (set_blink node None (set_flink node None l2), q2))"

definition dq_remfirst :: "'a dq_state \<Rightarrow> 'a option \<times> 'a dq_state" where
  "dq_remfirst st =
     (let (l, q) = st; ret = dq_head q
      in case ret of
           None \<Rightarrow> (ret, (l, q))
         | Some r \<Rightarrow>
             (let next = flink l r;
                  (l1, q1) = (case next of
                        None \<Rightarrow> (l, q\<lparr>dq_head := None, dq_tail := None\<rparr>)
                      | Some n \<Rightarrow> (set_blink n None l, q\<lparr>dq_head := Some n\<rparr>))
              in (ret, (set_blink r None (set_flink r None l1), q1))))"

definition dq_remlast :: "'a dq_state \<Rightarrow> 'a option \<times> 'a dq_state" where
  "dq_remlast st =
     (let (l, q) = st; ret = dq_tail q
      in case ret of
           None \<Rightarrow> (ret, (l, q))
         | Some r \<Rightarrow>
             (let prev = blink l r;
                  (l1, q1) = (case prev of
                        None \<Rightarrow> (l, q\<lparr>dq_head := None, dq_tail := None\<rparr>)
                      | Some p \<Rightarrow> (set_flink p None l, q\<lparr>dq_tail := Some p\<rparr>))
              in (ret, (set_blink r None (set_flink r None l1), q1))))"

definition dq_cat ::
    "'a links \<Rightarrow> 'a dq_queue \<Rightarrow> 'a dq_queue \<Rightarrow>
     ('a links \<times> 'a dq_queue \<times> 'a dq_queue) option" where
  "dq_cat l q1 q2 =
     (if dq_empty q2 then (let (q1', q2') = dq_move q1 q2 in Some (l, q1', q2'))
      else if \<not> dq_empty q1
      then do { t \<leftarrow> dq_tail q2;
                h \<leftarrow> dq_head q1;
                let l1 = set_blink h (Some t) (set_flink t (Some h) l);
                Some (l1, dq_init, q2\<lparr>dq_tail := dq_tail q1\<rparr>) }
      else Some (l, q1, q2))"

definition dq_count :: "'a dq_state \<Rightarrow> nat option" where
  "dq_count st = (let (l, q) = st in count_loop (flink l) (dq_head q) 0)"

section \<open>The entries of a queue\<close>

definition sq_list :: "'a sq_state \<Rightarrow> 'a list \<Rightarrow> bool" where
  "sq_list st xs \<longleftrightarrow>
     path (fst st) (sq_head (snd st)) xs None \<and>
     sq_tail (snd st) = (if xs = [] then None else Some (last xs))"

definition dq_list :: "'a dq_state \<Rightarrow> 'a list \<Rightarrow> bool" where
  "dq_list st xs \<longleftrightarrow>
     path (flink (fst st)) (dq_head (snd st)) xs None \<and>
     path (blink (fst st)) (dq_tail (snd st)) (rev xs) None"


lemmas sq_defs = sq_addfirst_def sq_addlast_def sq_addafter_def sq_remfirst_def sq_remafter_def
  sq_rem_def sq_remlast_def sq_cat_def sq_move_def sq_init_def sq_empty_def sq_peek_def Let_def

lemmas dq_defs = dq_addfirst_def dq_addlast_def dq_addafter_def dq_addbefore_def dq_rem_def
  dq_remfirst_def dq_remlast_def dq_cat_def dq_move_def dq_init_def dq_empty_def dq_peek_def
  set_flink_def set_blink_def Let_def

lemma sq_list_distinct: "sq_list st xs \<Longrightarrow> distinct xs"
  by (auto simp: sq_list_def dest: path_distinct)

lemma sq_list_unique: "sq_list st xs \<Longrightarrow> sq_list st ys \<Longrightarrow> xs = ys"
  by (auto simp: sq_list_def dest: path_unique)

lemma sq_list_head: "sq_list st xs \<Longrightarrow> sq_head (snd st) = hd_opt xs"
  by (auto simp: sq_list_def dest: path_start)

lemma sq_addfirst_list: "sq_list st xs \<Longrightarrow> n \<notin> set xs \<Longrightarrow> sq_list (sq_addfirst n st) (n # xs)"
  by (cases st; cases xs) (auto simp: sq_list_def sq_defs)

lemma sq_addlast_list:
  "sq_list st xs \<Longrightarrow> n \<notin> set xs \<Longrightarrow> \<exists>st'. sq_addlast n st = Some st' \<and> sq_list st' (xs @ [n])"
proof (cases st)
  case (Pair f q)
  assume "sq_list st xs" "n \<notin> set xs"
  then show ?thesis
    using path_snoc [of f "sq_head q" xs n] Pair
    by (cases xs) (auto simp: sq_list_def sq_defs)
qed

lemma sq_addafter_list:
  assumes "sq_list st (xs @ p # ys)" "n \<notin> set (xs @ p # ys)"
  shows "\<exists>st'. sq_addafter p n st = Some st' \<and> sq_list st' (xs @ p # n # ys)"
proof (cases st)
  case (Pair f q)
  have d: "distinct (xs @ p # ys)" using assms(1) by (rule sq_list_distinct)
  have h: "sq_head q \<noteq> None" using assms(1) Pair by (auto simp: sq_list_def dest: path_to_Some)
  show ?thesis
  proof (cases "ys = []")
    case True
    then show ?thesis
      using sq_addlast_list [OF assms] assms(1) Pair by (auto simp: sq_list_def sq_addafter_def)
  next
    case False
    then have "Some p \<noteq> sq_tail q" using assms(1) d Pair
      by (auto simp: sq_list_def)
    then show ?thesis
      using assms d h Pair False by (auto simp: sq_list_def sq_addafter_def Let_def)
  qed
qed

lemma sq_remfirst_Nil: "sq_list st [] \<Longrightarrow> sq_remfirst st = (None, st)"
  by (cases st) (auto simp: sq_list_def sq_defs)

lemma sq_remfirst_Cons:
  assumes "sq_list st (x # xs)"
  shows "\<exists>st'. sq_remfirst st = (Some x, st') \<and> sq_list st' xs"
proof (cases st)
  case (Pair f q)
  have "x \<notin> set xs" using sq_list_distinct [OF assms] by simp
  then show ?thesis
    using assms Pair by (cases xs) (auto simp: sq_list_def sq_remfirst_def Let_def)
qed

lemma sq_findprev_found:
  assumes "path f x (xs @ p # n # ys) None"
  shows "sq_findprev f x n = Some (Some p)"
  using assms
proof (induction xs arbitrary: x)
  case Nil
  then show ?case by (subst sq_findprev.simps) auto
next
  case (Cons a xs)
  then have d: "distinct (a # xs @ p # n # ys)" by (metis append_Cons path_distinct)
  have "f a \<noteq> Some n"
    using Cons.prems d by (cases xs) auto
  then show ?case
    using Cons by (subst sq_findprev.simps) auto
qed

lemma sq_findprev_missing:
  assumes "path f x xs None" "n \<notin> set (tl xs)"
  shows "sq_findprev f x n = Some None"
  using assms
proof (induction xs arbitrary: x)
  case Nil
  then show ?case by (subst sq_findprev.simps) auto
next
  case (Cons a xs)
  then show ?case by (subst sq_findprev.simps; cases xs) auto
qed

lemma sq_remafter_list:
  assumes "sq_list st (xs @ p # n # ys)"
  shows "\<exists>st'. sq_remafter p st = (Some n, st') \<and> sq_list st' (xs @ p # ys)"
proof (cases st)
  case (Pair f q)
  have d: "distinct (xs @ p # n # ys)" using assms(1) by (rule sq_list_distinct)
  have h: "sq_head q \<noteq> None" using assms(1) Pair by (auto simp: sq_list_def dest: path_to_Some)
  show ?thesis
    using assms d h Pair by (cases "ys = []") (auto simp: sq_list_def sq_remafter_def Let_def)
qed

lemma sq_rem_list:
  assumes "sq_list st xs"
  shows "\<exists>st'. sq_rem (Some n) st = Some st' \<and> sq_list st' (remove1 n xs)"
proof (cases st)
  case (Pair f q)
  show ?thesis
  proof (cases xs)
    case Nil
    then show ?thesis using assms Pair by (auto simp: sq_list_def sq_rem_def Let_def)
  next
    case (Cons a as)
    have h: "sq_head q = Some a" using assms Pair Cons by (auto simp: sq_list_def)
    have d: "distinct (a # as)" using assms Cons by (auto dest: sq_list_distinct)
    consider (hd) "n = a" | (mid) "n \<noteq> a" "n \<in> set as" | (no) "n \<noteq> a" "n \<notin> set as" by blast
    then show ?thesis
    proof cases
      case hd
      then show ?thesis
        using assms Pair Cons d h by (cases "as = []") (auto simp: sq_list_def sq_rem_def Let_def)
    next
      case mid
      then obtain us vs where s: "a # as = us @ n # vs" "us \<noteq> []"
        by (metis append_Nil in_set_conv_decomp list.inject set_ConsD split_list_first append_Cons list.distinct(1))
      then obtain us' p where us: "us = us' @ [p]" by (metis rev_exhaust)
      have l: "sq_list st (us' @ p # n # vs)" using assms Cons s us by simp
      then have "sq_findprev f (sq_head q) n = Some (Some p)"
        using Pair by (auto simp: sq_list_def intro!: sq_findprev_found)
      moreover have "remove1 n xs = us' @ p # vs"
        using Cons s us d by (auto simp: remove1_append)
      ultimately show ?thesis
        using sq_remafter_list [OF l] h Pair mid by (auto simp: sq_rem_def Let_def)
    next
      case no
      then have "sq_findprev f (sq_head q) n = Some None"
        using assms Pair Cons by (auto simp: sq_list_def intro!: sq_findprev_missing [of _ _ xs])
      then show ?thesis
        using assms Pair Cons no h by (auto simp: sq_rem_def Let_def remove1_idem)
    qed
  qed
qed

lemma sq_remlast_Nil: "sq_list st [] \<Longrightarrow> sq_remlast st = Some (None, st)"
  by (cases st) (auto simp: sq_list_def sq_remlast_def)

lemma sq_remlast_snoc:
  assumes "sq_list st (xs @ [x])"
  shows "\<exists>st'. sq_remlast st = Some (Some x, st') \<and> sq_list st' xs"
proof (cases st)
  case (Pair f q)
  have d: "distinct (xs @ [x])" using assms by (rule sq_list_distinct)
  show ?thesis
  proof (cases xs rule: rev_cases)
    case Nil
    then show ?thesis using assms Pair by (auto simp: sq_list_def sq_remlast_def Let_def)
  next
    case (snoc ys p)
    then have fp: "sq_findprev f (sq_head q) x = Some (Some p)"
      using assms Pair by (auto simp: sq_list_def intro!: sq_findprev_found)
    have "sq_head q \<noteq> sq_tail q"
      using assms Pair snoc d by (cases ys) (auto simp: sq_list_def)
    then show ?thesis
      using assms Pair snoc fp d by (auto simp: sq_list_def sq_remlast_def Let_def)
  qed
qed

lemma sq_cat_list:
  assumes "sq_list (f, q1) xs" "sq_list (f, q2) ys" "set xs \<inter> set ys = {}"
  shows "\<exists>f' q1' q2'. sq_cat f q1 q2 = Some (f', q1', q2') \<and> sq_list (f', q1') [] \<and> sq_list (f', q2') (ys @ xs)"
proof (cases ys rule: rev_cases)
  case Nil
  then show ?thesis using assms by (auto simp: sq_list_def sq_defs)
next
  case (snoc zs z)
  have "distinct ys" "distinct xs" using assms by (auto dest: sq_list_distinct)
  then show ?thesis
    using assms snoc by (cases xs) (auto simp: sq_list_def sq_defs dest: path_to_Some)
qed

lemma count_loop_path: "path f x xs None \<Longrightarrow> count_loop f x c = Some (c + length xs)"
proof (induction xs arbitrary: x c)
  case Nil
  then show ?case by (subst count_loop.simps) auto
next
  case (Cons a xs)
  then show ?case by (subst count_loop.simps) auto
qed

lemma sq_count_list: "sq_list st xs \<Longrightarrow> sq_count st = Some (length xs)"
  by (cases st) (auto simp: sq_list_def sq_count_def count_loop_path)


section \<open>Doubly linked queues: each operation on the list of entries\<close>

lemma dq_list_distinct: "dq_list st xs \<Longrightarrow> distinct xs"
  by (auto simp: dq_list_def dest: path_distinct)

lemma dq_list_unique: "dq_list st xs \<Longrightarrow> dq_list st ys \<Longrightarrow> xs = ys"
  by (auto simp: dq_list_def dest: path_unique)

lemma dq_list_ends:
  assumes "dq_list (l, q) xs"
  shows "dq_head q = hd_opt xs" "dq_tail q = last_opt xs"
  using assms by (auto simp: dq_list_def dest: path_start)

lemma dq_list_links:
  assumes "dq_list (l, q) (xs @ a # ys)"
  shows "flink l a = hd_opt ys" "blink l a = last_opt xs"
proof -
  have "path (flink l) (dq_head q) (xs @ a # ys) None"
    using assms unfolding dq_list_def by simp
  then show "flink l a = hd_opt ys" by (rule path_next)
  have "path (blink l) (dq_tail q) (rev ys @ a # rev xs) None"
    using assms unfolding dq_list_def by simp
  then have "blink l a = hd_opt (rev xs)" by (rule path_next)
  then show "blink l a = last_opt xs" by simp
qed

lemma dq_list_init: "dq_list (l, dq_init) []"
  by (simp add: dq_list_def dq_init_def)

text \<open>Nodes outside the queue keep their links.\<close>

definition links_frame :: "'a set \<Rightarrow> 'a links \<Rightarrow> 'a links \<Rightarrow> bool" where
  "links_frame A l l' \<longleftrightarrow> (\<forall>y. y \<notin> A \<longrightarrow> flink l' y = flink l y \<and> blink l' y = blink l y)"

lemma links_frame_refl [simp]: "links_frame A l l"
  by (simp add: links_frame_def)

lemma links_frame_trans: "links_frame A l l' \<Longrightarrow> links_frame A l' l'' \<Longrightarrow> links_frame A l l''"
  by (simp add: links_frame_def)

lemma links_frame_mono: "links_frame A l l' \<Longrightarrow> A \<subseteq> B \<Longrightarrow> links_frame B l l'"
  by (auto simp: links_frame_def)

lemma dq_list_frame:
  assumes "dq_list (l, q) xs" "links_frame A l l'" "set xs \<inter> A = {}"
  shows "dq_list (l', q) xs"
proof -
  have "path (flink l') x xs y \<longleftrightarrow> path (flink l) x xs y" for x y
    using assms(2,3) by (intro path_cong) (auto simp: links_frame_def)
  moreover have "path (blink l') x (rev xs) y \<longleftrightarrow> path (blink l) x (rev xs) y" for x y
    using assms(2,3) by (intro path_cong) (auto simp: links_frame_def)
  ultimately show ?thesis using assms(1) by (auto simp: dq_list_def)
qed

lemma dq_addfirst_list:
  assumes "dq_list st xs" "n \<notin> set xs"
  shows "dq_list (dq_addfirst n st) (n # xs)"
proof (cases st)
  case (Pair l q)
  have "distinct xs" using assms(1) by (rule dq_list_distinct)
  then show ?thesis
    using assms Pair by (cases xs) (auto simp: dq_list_def dq_defs)
qed

lemma dq_addlast_list:
  assumes "dq_list st xs" "n \<notin> set xs"
  shows "\<exists>st'. dq_addlast n st = Some st' \<and> dq_list st' (xs @ [n])"
proof (cases st)
  case (Pair l q)
  have "distinct xs" using assms(1) by (rule dq_list_distinct)
  then show ?thesis
    using assms Pair by (cases xs rule: rev_cases) (auto simp: dq_list_def dq_defs dest: path_to_Some)
qed

lemma dq_insert_between:
  assumes "dq_list (l, q) (xs @ p # s # ys)" "n \<notin> set (xs @ p # s # ys)"
  shows "dq_list (set_flink p (Some n) (set_blink s (Some n)
           (set_flink n (Some s) (set_blink n (Some p) l))), q) (xs @ p # n # s # ys)"
proof -
  have "distinct (xs @ p # s # ys)" using assms(1) by (rule dq_list_distinct)
  then show ?thesis
    using assms by (auto simp: dq_list_def set_flink_def set_blink_def)
qed

lemma set_links_commute:
  "set_blink b y (set_flink a x l) = set_flink a x (set_blink b y l)"
  by (simp add: set_flink_def set_blink_def)

lemma dq_addafter_list:
  assumes "dq_list st (xs @ p # ys)" "n \<notin> set (xs @ p # ys)"
  shows "\<exists>st'. dq_addafter p n st = Some st' \<and> dq_list st' (xs @ p # n # ys)"
proof (cases st)
  case (Pair l q)
  note e = dq_list_ends [OF assms(1) [unfolded Pair]] dq_list_links [OF assms(1) [unfolded Pair]]
  have d: "distinct (xs @ p # ys)" using assms(1) by (rule dq_list_distinct)
  show ?thesis
  proof (cases ys)
    case Nil
    then show ?thesis
      using dq_addlast_list [OF assms] e Pair by (auto simp: dq_addafter_def)
  next
    case (Cons s zs)
    then have "dq_tail q \<noteq> Some p" using e d by (auto simp: last_opt_def)
    then show ?thesis
      using dq_insert_between [of l q xs p s zs n] assms Cons e Pair
      by (auto simp: dq_addafter_def Let_def)
  qed
qed

lemma dq_addbefore_list:
  assumes "dq_list st (xs @ s # ys)" "n \<notin> set (xs @ s # ys)"
  shows "\<exists>st'. dq_addbefore s n st = Some st' \<and> dq_list st' (xs @ n # s # ys)"
proof (cases st)
  case (Pair l q)
  note e = dq_list_ends [OF assms(1) [unfolded Pair]] dq_list_links [OF assms(1) [unfolded Pair]]
  have d: "distinct (xs @ s # ys)" using assms(1) by (rule dq_list_distinct)
  show ?thesis
  proof (cases xs rule: rev_cases)
    case Nil
    then show ?thesis
      using dq_addfirst_list [OF assms] e Pair by (auto simp: dq_addbefore_def)
  next
    case (snoc zs p)
    then have "dq_head q \<noteq> Some s" using e d by (cases zs) auto
    then show ?thesis
      using dq_insert_between [of l q zs p s ys n] assms snoc e Pair
      by (auto simp: dq_addbefore_def Let_def set_links_commute)
  qed
qed

lemma dq_rem_list:
  assumes "dq_list st (xs @ n # ys)"
  shows "dq_list (dq_rem n st) (xs @ ys)"
proof (cases st)
  case (Pair l q)
  note e = dq_list_ends [OF assms(1) [unfolded Pair]] dq_list_links [OF assms(1) [unfolded Pair]]
  have d: "distinct (xs @ n # ys)" using assms(1) by (rule dq_list_distinct)
  have p: "path (flink l) (dq_head q) (xs @ n # ys) None"
    "path (blink l) (dq_tail q) (rev ys @ n # rev xs) None"
    using assms Pair by (auto simp: dq_list_def)
  show ?thesis
  proof (cases xs rule: rev_cases)
    case Nil
    then show ?thesis
      using p d e Pair by (cases ys) (auto simp: dq_list_def dq_rem_def set_flink_def set_blink_def Let_def)
  next
    case (snoc us u)
    then show ?thesis
      using p d e Pair by (cases ys) (auto simp: dq_list_def dq_rem_def set_flink_def set_blink_def Let_def)
  qed
qed

lemma dq_rem_links:
  "flink (fst (dq_rem n st)) n = None" "blink (fst (dq_rem n st)) n = None"
  by (auto simp: dq_rem_def set_flink_def set_blink_def Let_def split: option.splits prod.splits)

lemma dq_remfirst_Nil: "dq_list st [] \<Longrightarrow> dq_remfirst st = (None, st)"
  by (cases st) (auto simp: dq_list_def dq_defs)

lemma dq_remfirst_Cons:
  assumes "dq_list st (x # xs)"
  shows "\<exists>st'. dq_remfirst st = (Some x, st') \<and> dq_list st' xs"
proof (cases st)
  case (Pair l q)
  have "distinct (x # xs)" using assms(1) by (rule dq_list_distinct)
  then show ?thesis
    using assms Pair by (cases xs) (auto simp: dq_list_def dq_defs)
qed

lemma dq_remlast_Nil: "dq_list st [] \<Longrightarrow> dq_remlast st = (None, st)"
  by (cases st) (auto simp: dq_list_def dq_defs)

lemma dq_remlast_snoc:
  assumes "dq_list st (xs @ [x])"
  shows "\<exists>st'. dq_remlast st = (Some x, st') \<and> dq_list st' xs"
proof (cases st)
  case (Pair l q)
  have "distinct (xs @ [x])" using assms(1) by (rule dq_list_distinct)
  then show ?thesis
    using assms Pair by (cases xs rule: rev_cases) (auto simp: dq_list_def dq_defs)
qed

lemma dq_cat_list:
  assumes "dq_list (l, q1) xs" "dq_list (l, q2) ys" "set xs \<inter> set ys = {}"
  shows "\<exists>l' q1' q2'. dq_cat l q1 q2 = Some (l', q1', q2') \<and>
           dq_list (l', q1') [] \<and> dq_list (l', q2') (ys @ xs)"
proof (cases ys rule: rev_cases)
  case Nil
  then show ?thesis using assms by (auto simp: dq_list_def dq_defs)
next
  case (snoc zs z)
  have "distinct ys" "distinct xs" using assms by (auto dest: dq_list_distinct)
  then show ?thesis
    using assms snoc by (cases xs) (auto simp: dq_list_def dq_defs dest: path_to_Some)
qed

lemma dq_count_list: "dq_list st xs \<Longrightarrow> dq_count st = Some (length xs)"
  by (cases st) (auto simp: dq_list_def dq_count_def count_loop_path)


subsection \<open>Frames\<close>

lemma dq_addlast_frame:
  assumes "dq_list st xs" "dq_addlast n st = Some st'"
  shows "links_frame (insert n (set xs)) (fst st) (fst st')"
proof (cases st)
  case (Pair l q)
  have "\<And>t. dq_tail q = Some t \<Longrightarrow> t \<in> set xs"
    using dq_list_ends(2) [OF assms(1) [unfolded Pair]] by (auto simp: last_opt_def split: if_splits)
  then show ?thesis
    using assms(2) Pair by (auto simp: dq_defs links_frame_def bind_eq_Some_conv split: if_splits)
qed

lemma dq_rem_frame:
  assumes "dq_list st (xs @ n # ys)"
  shows "links_frame (set (xs @ n # ys)) (fst st) (fst (dq_rem n st))"
proof (cases st)
  case (Pair l q)
  note e = dq_list_links [OF assms [unfolded Pair]]
  show ?thesis
    using e Pair
    by (cases xs rule: rev_cases; cases ys)
       (auto simp: dq_rem_def Let_def set_flink_def set_blink_def links_frame_def)
qed

lemma dq_addbefore_frame:
  assumes "dq_list st (xs @ s # ys)" "dq_addbefore s n st = Some st'"
  shows "links_frame (insert n (set (xs @ s # ys))) (fst st) (fst st')"
proof (cases st)
  case (Pair l q)
  note a = assms(1) [unfolded Pair]
  have "\<And>h. dq_head q = Some h \<Longrightarrow> h \<in> set (xs @ s # ys)"
    unfolding dq_list_ends(1) [OF a] by (rule hd_opt_in_set)
  moreover have "\<And>p. blink l s = Some p \<Longrightarrow> p \<in> set xs"
    unfolding dq_list_links(2) [OF a] by (rule last_opt_in_set)
  ultimately show ?thesis
    using assms(2) Pair
    by (auto simp: dq_addbefore_def dq_addfirst_def Let_def set_flink_def set_blink_def
        links_frame_def bind_eq_Some_conv split: if_splits option.splits)
qed

section \<open>Contracts\<close>

fun addlast_all :: "('a \<Rightarrow> 's \<Rightarrow> 's option) \<Rightarrow> 'a list \<Rightarrow> 's \<Rightarrow> 's option" where
  "addlast_all add [] s = Some s"
| "addlast_all add (n # ns) s = Option.bind (add n s) (addlast_all add ns)"

fun remfirst_n :: "('s \<Rightarrow> 'a option \<times> 's) \<Rightarrow> nat \<Rightarrow> 's \<Rightarrow> 'a option list \<times> 's" where
  "remfirst_n rem 0 s = ([], s)"
| "remfirst_n rem (Suc k) s =
     (let (r, s1) = rem s; (rs, s2) = remfirst_n rem k s1 in (r # rs, s2))"

locale fifo =
  fixes addlast :: "'a \<Rightarrow> 's \<Rightarrow> 's option"
    and remfirst :: "'s \<Rightarrow> 'a option \<times> 's"
    and contents :: "'s \<Rightarrow> 'a list \<Rightarrow> bool"
  assumes addlast: "contents s xs \<Longrightarrow> n \<notin> set xs \<Longrightarrow>
            \<exists>s'. addlast n s = Some s' \<and> contents s' (xs @ [n])"
    and remfirst_empty: "contents s [] \<Longrightarrow> remfirst s = (None, s)"
    and remfirst: "contents s (x # xs) \<Longrightarrow> \<exists>s'. remfirst s = (Some x, s') \<and> contents s' xs"
begin

lemma addlast_all:
  assumes "contents s xs" "distinct ns" "set ns \<inter> set xs = {}"
  shows "\<exists>s'. addlast_all addlast ns s = Some s' \<and> contents s' (xs @ ns)"
  using assms
proof (induction ns arbitrary: s xs)
  case Nil
  then show ?case by simp
next
  case (Cons n ns)
  then obtain s1 where s1: "addlast n s = Some s1" "contents s1 (xs @ [n])"
    using addlast [of s xs n] by auto
  then show ?case
    using Cons.IH [OF s1(2)] Cons.prems by auto
qed

lemma remfirst_n:
  assumes "contents s xs" "k \<le> length xs"
  shows "\<exists>s'. remfirst_n remfirst k s = (map Some (take k xs), s') \<and> contents s' (drop k xs)"
  using assms
proof (induction k arbitrary: s xs)
  case 0
  then show ?case by simp
next
  case (Suc k)
  then obtain x ys where xs: "xs = x # ys" by (cases xs) auto
  then obtain s1 where "remfirst s = (Some x, s1)" "contents s1 ys"
    using remfirst Suc.prems by blast
  then show ?case using Suc.IH [of s1 ys] Suc.prems xs by auto
qed

lemma order:
  assumes "contents s xs" "distinct ns" "set ns \<inter> set xs = {}"
  shows "\<exists>s1 s2. addlast_all addlast ns s = Some s1 \<and>
           remfirst_n remfirst (length xs + length ns) s1 = (map Some (xs @ ns), s2) \<and>
           contents s2 [] \<and> remfirst s2 = (None, s2)"
proof -
  obtain s1 where s1: "addlast_all addlast ns s = Some s1" "contents s1 (xs @ ns)"
    using addlast_all [OF assms] by blast
  then show ?thesis
    using remfirst_n [OF s1(2), of "length xs + length ns"] by (auto intro: remfirst_empty)
qed

end

locale deque = fifo addlast remfirst contents
  for addlast :: "'a \<Rightarrow> 's \<Rightarrow> 's option"
    and remfirst :: "'s \<Rightarrow> 'a option \<times> 's"
    and contents :: "'s \<Rightarrow> 'a list \<Rightarrow> bool" +
  fixes addfirst :: "'a \<Rightarrow> 's \<Rightarrow> 's"
    and rem :: "'a \<Rightarrow> 's \<Rightarrow> 's"
  assumes addfirst: "contents s xs \<Longrightarrow> n \<notin> set xs \<Longrightarrow> contents (addfirst n s) (n # xs)"
    and rem: "contents s (xs @ n # ys) \<Longrightarrow> contents (rem n s) (xs @ ys)"
begin

lemma addlast_rem:
  assumes "contents s xs" "n \<notin> set xs"
  shows "\<exists>s'. addlast n s = Some s' \<and> contents (rem n s') xs"
  using addlast [OF assms] rem [of _ xs n "[]"] by auto

lemma addfirst_remfirst:
  assumes "contents s xs" "n \<notin> set xs"
  shows "\<exists>s'. remfirst (addfirst n s) = (Some n, s') \<and> contents s' xs"
  using remfirst [OF addfirst [OF assms]] .

lemma rem_all:
  assumes "contents s (xs @ ns)" "distinct ns"
  shows "contents (fold rem ns s) xs"
  using assms
proof (induction ns arbitrary: s)
  case Nil
  then show ?case by simp
next
  case (Cons n ns)
  then show ?case using rem [of s xs n ns] by simp
qed

end

interpretation sq: fifo sq_addlast sq_remfirst sq_list
  by unfold_locales (rule sq_addlast_list sq_remfirst_Nil sq_remfirst_Cons; assumption)+

interpretation dq: deque dq_addlast dq_remfirst dq_list dq_addfirst dq_rem
  by unfold_locales
     (rule dq_addlast_list dq_remfirst_Nil dq_remfirst_Cons dq_addfirst_list dq_rem_list;
       assumption)+


section \<open>Properties\<close>

text \<open>
  C19.  First in, first out: appending any sequence of fresh nodes with \<open>sq_addlast\<close> and then
  taking nodes off with \<open>sq_remfirst\<close> returns the nodes that were queued before, then the
  appended ones, each exactly once and in the order they were added, and leaves the queue
  empty; no step dereferences NULL.
\<close>

theorem sq_fifo_order:
  assumes "sq_list st xs" "distinct ns" "set ns \<inter> set xs = {}"
  shows "\<exists>st1 st2. addlast_all sq_addlast ns st = Some st1 \<and>
           remfirst_n sq_remfirst (length xs + length ns) st1 = (map Some (xs @ ns), st2) \<and>
           sq_list st2 [] \<and> sq_remfirst st2 = (None, st2)"
  using assms by (rule sq.order)

theorem sq_fifo_order_witness:
  "\<exists>st1 st2. addlast_all sq_addlast [7, 3, 9] ((\<lambda>_. None), sq_init) = Some st1 \<and>
     remfirst_n sq_remfirst 3 st1 = ([Some 7, Some 3, Some (9::nat)], st2) \<and>
     sq_list st2 [] \<and> sq_remfirst st2 = (None, st2)"
proof -
  have "sq_list ((\<lambda>_. None), sq_init) ([] :: nat list)"
    by (simp add: sq_list_def sq_init_def)
  from sq_fifo_order [OF this, of "[7, 3, 9]"] show ?thesis by (simp add: numeral_3_eq_3)
qed

end
