(* ===== verification/Libc_String.thy ===== *)
theory Libc_String
  imports Prelude
begin

text \<open>
  The byte copying and filling routines of \<open>libs/libc/string\<close>.  Memory is a function from
  byte addresses to byte values; each \<open>while (n-- > 0)\<close> loop is a recursion on the count.
\<close>

type_synonym memory = "nat \<Rightarrow> nat"

fun memcpy :: "nat \<Rightarrow> nat \<Rightarrow> nat \<Rightarrow> memory \<Rightarrow> memory" where
  "memcpy pout pin 0 m = m"
| "memcpy pout pin (Suc n) m = memcpy (Suc pout) (Suc pin) n (m(pout := m pin))"

text \<open>The size-optimised \<open>memset\<close>: \<open>*p++ = c\<close> stores \<open>(unsigned char)c\<close>.\<close>

fun memset :: "nat \<Rightarrow> int \<Rightarrow> nat \<Rightarrow> memory \<Rightarrow> memory" where
  "memset p c 0 m = m"
| "memset p c (Suc n) m = memset (Suc p) c n (m(p := nat (c mod 256)))"

lemma memcpy_outside: "a < pout \<or> pout + n \<le> a \<Longrightarrow> memcpy pout pin n m a = m a"
  by (induction n arbitrary: pout pin m) auto

lemma memcpy_inside:
  assumes "pout \<le> pin \<or> pin + n \<le> pout" "i < n"
  shows "memcpy pout pin n m (pout + i) = m (pin + i)"
  using assms
proof (induction n arbitrary: pout pin m i)
  case 0
  then show ?case by simp
next
  case (Suc n)
  show ?case
  proof (cases i)
    case 0
    then show ?thesis by (simp add: memcpy_outside)
  next
    case (Suc j)
    let ?m = "m(pout := m pin)"
    have "memcpy (Suc pout) (Suc pin) n ?m (Suc pout + j) = ?m (Suc pin + j)"
      by (rule Suc.IH) (use Suc.prems Suc in auto)
    moreover have "?m (Suc pin + j) = m (pin + i)"
      using Suc.prems Suc by auto
    ultimately show ?thesis using Suc by simp
  qed
qed

lemma memset_outside: "a < p \<or> p + n \<le> a \<Longrightarrow> memset p c n m a = m a"
  by (induction n arbitrary: p m) auto

lemma memset_inside: "p \<le> a \<Longrightarrow> a < p + n \<Longrightarrow> memset p c n m a = nat (c mod 256)"
proof (induction n arbitrary: p m)
  case (Suc n)
  then show ?case by (cases "a = p") (auto simp: memset_outside)
qed simp

end
