(* ===== verification/CInt.thy ===== *)
theory CInt
  imports Main
begin

text \<open>
  C integer types of a given width as ranges of the mathematical integers: the conversion of a
  value to an unsigned and to a signed type of \<open>w\<close> bits.  Arithmetic is done on \<open>int\<close> and the
  result converted where the code stores it; this is the wrap-around of the target.

  The error numbers of \<open>include/errno.h\<close> that the modelled code returns.
\<close>

definition ESRCH :: int where "ESRCH = 3"
definition EINTR :: int where "EINTR = 4"
definition EAGAIN :: int where "EAGAIN = 11"
definition ENOMEM :: int where "ENOMEM = 12"
definition EINVAL :: int where "EINVAL = 22"
definition ERANGE :: int where "ERANGE = 34"
definition ETIMEDOUT :: int where "ETIMEDOUT = 116"
definition EMSGSIZE :: int where "EMSGSIZE = 122"
definition EOVERFLOW :: int where "EOVERFLOW = 139"


definition uint_cast :: "nat \<Rightarrow> int \<Rightarrow> int" where
  "uint_cast w x = x mod 2 ^ w"

definition sint_cast :: "nat \<Rightarrow> int \<Rightarrow> int" where
  "sint_cast w x = (x + 2 ^ (w - 1)) mod 2 ^ w - 2 ^ (w - 1)"

abbreviation uint8 :: "int \<Rightarrow> int" where "uint8 \<equiv> uint_cast 8"
abbreviation uint16 :: "int \<Rightarrow> int" where "uint16 \<equiv> uint_cast 16"
abbreviation uint32 :: "int \<Rightarrow> int" where "uint32 \<equiv> uint_cast 32"
abbreviation uint64 :: "int \<Rightarrow> int" where "uint64 \<equiv> uint_cast 64"
abbreviation int8 :: "int \<Rightarrow> int" where "int8 \<equiv> sint_cast 8"
abbreviation int16 :: "int \<Rightarrow> int" where "int16 \<equiv> sint_cast 16"
abbreviation int32 :: "int \<Rightarrow> int" where "int32 \<equiv> sint_cast 32"
abbreviation int64 :: "int \<Rightarrow> int" where "int64 \<equiv> sint_cast 64"

lemma uint_cast_id: "0 \<le> x \<Longrightarrow> x < 2 ^ w \<Longrightarrow> uint_cast w x = x"
  by (simp add: uint_cast_def)

lemma uint_cast_bounds: "0 \<le> uint_cast w x" "uint_cast w x < 2 ^ w"
  by (simp_all add: uint_cast_def)

lemma sint_cast_id:
  assumes "0 < w" "- (2 ^ (w - 1)) \<le> x" "x < 2 ^ (w - 1)"
  shows "sint_cast w x = x"
proof -
  have "(2::int) ^ w = 2 * 2 ^ (w - 1)" using assms(1) by (cases w) auto
  then have "(x + 2 ^ (w - 1)) mod 2 ^ w = x + 2 ^ (w - 1)" using assms(2,3) by simp
  then show ?thesis by (simp add: sint_cast_def)
qed

lemma sint_cast_bounds:
  assumes "0 < w"
  shows "- (2 ^ (w - 1)) \<le> sint_cast w x" "sint_cast w x < 2 ^ (w - 1)"
proof -
  have "(2::int) ^ w = 2 * 2 ^ (w - 1)" using assms by (cases w) auto
  moreover have "(x + 2 ^ (w - 1)) mod 2 ^ w < 2 ^ w" "0 \<le> (x + 2 ^ (w - 1)) mod 2 ^ w" by simp_all
  ultimately show "- (2 ^ (w - 1)) \<le> sint_cast w x" "sint_cast w x < 2 ^ (w - 1)"
    by (simp_all add: sint_cast_def)
qed

text \<open>Both conversions keep the value modulo the size of the type.\<close>

lemma sint_cast_mod [simp]: "sint_cast w x mod 2 ^ w = x mod 2 ^ w"
  by (simp add: sint_cast_def mod_diff_left_eq)

lemma uint_cast_mod [simp]: "uint_cast w x mod 2 ^ w = x mod 2 ^ w"
  by (simp add: uint_cast_def)

lemma int32_neg: "2 ^ 31 \<le> d \<Longrightarrow> d < 2 ^ 32 \<Longrightarrow> int32 d < 0"
proof -
  assume d: "2 ^ 31 \<le> d" "d < 2 ^ 32"
  then have "(d + 2 ^ 31) mod 2 ^ 32 = d - 2 ^ 31" using mod_add_self2 [of "d - 2 ^ 31" "2 ^ 32"] by (simp add: algebra_simps)
  then show ?thesis using d by (simp add: sint_cast_def)
qed

end
