(* ===== verification/MM_Heap.thy ===== *)
theory MM_Heap
  imports Libc_String CInt
begin

unbundle bit_operations_syntax

text \<open>
  The heap manager of \<open>mm/mm_heap\<close>: definitions.

  The configuration is the one of \<open>config_samv71_mp\<close>: a flat build with 32-bit pointers and
  \<open>size_t\<close>, one region (\<open>CONFIG_MM_REGIONS = 1\<close>), no \<open>CONFIG_MM_SMALL\<close>, no \<open>CONFIG_SMP\<close>, and
  assertions compiled out (\<open>DEBUGASSERT\<close> is empty).

  Addresses and sizes are natural numbers; arithmetic on sizes that come from the caller is
  taken modulo \<open>2 ^ 32\<close> as \<open>size_t\<close> arithmetic is.  A chunk header is reached through a
  \<open>nodep\<close>: either an entry of the array \<open>mm_nodelist\<close> inside the heap structure or the chunk
  at an address.  The fields of all headers are the functions \<open>nsize\<close>, \<open>npreceding\<close>,
  \<open>nflink\<close>, \<open>nblink\<close>; \<open>dflink\<close> is the link of a delayed free, and \<open>hdata\<close> the bytes of the
  memory that holds the chunks.

  The links of a free chunk and of a delayed free lie where the payload of an allocated chunk
  starts, and chunks are split and joined, so that a header may come to lie in what was a payload.
  Every store to a field of the chunk at an address therefore also stores its four bytes in
  \<open>hdata\<close>, and a store to \<open>flink\<close> replaces the delay link at the same place.  What payload bytes
  an operation keeps is stated on \<open>hdata\<close>.

  Every operation that searches a list or takes the semaphore returns an option: \<open>None\<close>
  means that the call does not return (it blocks on the semaphore, follows a NULL pointer or
  searches a cyclic list).
\<close>

section \<open>Sizes\<close>

definition MM_MIN_SHIFT :: nat where "MM_MIN_SHIFT = 4"
definition MM_MAX_SHIFT :: nat where "MM_MAX_SHIFT = 22"
definition MM_MIN_CHUNK :: nat where "MM_MIN_CHUNK = 2 ^ MM_MIN_SHIFT"
definition MM_MAX_CHUNK :: nat where "MM_MAX_CHUNK = 2 ^ MM_MAX_SHIFT"
definition MM_NNODES :: nat where "MM_NNODES = MM_MAX_SHIFT - MM_MIN_SHIFT + 1"
definition MM_GRAN_MASK :: nat where "MM_GRAN_MASK = MM_MIN_CHUNK - 1"
definition MM_ALLOC_BIT :: nat where "MM_ALLOC_BIT = 2 ^ 31"
definition SIZEOF_MM_ALLOCNODE :: nat where "SIZEOF_MM_ALLOCNODE = 8"
definition SIZEOF_MM_FREENODE :: nat where "SIZEOF_MM_FREENODE = 16"
definition SIZE_MAX :: nat where "SIZE_MAX = 2 ^ 32 - 1"

text \<open>Subtraction of \<open>size_t\<close> and \<open>uintptr_t\<close> values.\<close>

definition sub32 :: "nat \<Rightarrow> nat \<Rightarrow> nat" where
  "sub32 a b = (a + 2 ^ 32 - b) mod 2 ^ 32"

text \<open>\<open>x & ~MM_GRAN_MASK\<close> clears the low \<open>MM_MIN_SHIFT\<close> bits.\<close>

definition MM_ALIGN_DOWN :: "nat \<Rightarrow> nat" where
  "MM_ALIGN_DOWN a = push_bit MM_MIN_SHIFT (drop_bit MM_MIN_SHIFT a)"

definition MM_ALIGN_UP :: "nat \<Rightarrow> nat" where
  "MM_ALIGN_UP a = MM_ALIGN_DOWN ((a + MM_GRAN_MASK) mod 2 ^ 32)"

text \<open>
  The \<open>preceding\<close> field holds the sz of the preceding chunk and, in bit 31, whether this
  chunk is allocated.
\<close>

definition alloc_flag :: "nat \<Rightarrow> nat" where
  "alloc_flag p = p AND MM_ALLOC_BIT"

definition clear_alloc :: "nat \<Rightarrow> nat" where
  "clear_alloc p = take_bit 31 p"

section \<open>State\<close>

datatype nodep = NL nat | Nd nat

record mm_heap =
  mm_semcount :: int
  mm_holder :: int
  mm_counts_held :: int
  mm_heapsize :: nat
  mm_heapstart :: nat
  mm_heapend :: nat
  mm_delaylist :: "nat option"
  nsize :: "nodep \<Rightarrow> nat"
  npreceding :: "nodep \<Rightarrow> nat"
  nflink :: "nodep \<Rightarrow> nodep option"
  nblink :: "nodep \<Rightarrow> nodep option"
  dflink :: "nat \<Rightarrow> nat option"
  hdata :: memory
  mm_nodelist :: nat

text \<open>
  The fields of \<open>struct mm_freenode_s\<close> lie at the offsets 0, 4, 8 and 12; \<open>mm_nodelist\<close> is the address
  of the array in the heap structure.
\<close>

definition store32 :: "nat \<Rightarrow> nat \<Rightarrow> memory \<Rightarrow> memory" where
  "store32 p v m =
     m(p := v mod 256, p + 1 := v div 2 ^ 8 mod 256, p + 2 := v div 2 ^ 16 mod 256, p + 3 := v div 2 ^ 24 mod 256)"

definition node_word :: "nodep \<Rightarrow> nat \<Rightarrow> nat \<Rightarrow> memory \<Rightarrow> memory" where
  "node_word n off v m = (case n of NL i \<Rightarrow> m | Nd a \<Rightarrow> store32 (a + off) v m)"

definition node_addr :: "mm_heap \<Rightarrow> nodep option \<Rightarrow> nat" where
  "node_addr h p =
     (case p of None \<Rightarrow> 0 | Some (NL i) \<Rightarrow> mm_nodelist h + SIZEOF_MM_FREENODE * i | Some (Nd a) \<Rightarrow> a)"

definition set_size :: "nodep \<Rightarrow> nat \<Rightarrow> mm_heap \<Rightarrow> mm_heap" where
  "set_size n v h = h\<lparr>nsize := (nsize h)(n := v), hdata := node_word n 0 v (hdata h)\<rparr>"

definition set_preceding :: "nodep \<Rightarrow> nat \<Rightarrow> mm_heap \<Rightarrow> mm_heap" where
  "set_preceding n v h = h\<lparr>npreceding := (npreceding h)(n := v), hdata := node_word n 4 v (hdata h)\<rparr>"

definition set_nflink :: "nodep \<Rightarrow> nodep option \<Rightarrow> mm_heap \<Rightarrow> mm_heap" where
  "set_nflink n v h =
     h\<lparr>nflink := (nflink h)(n := v),
       dflink := (case n of NL i \<Rightarrow> dflink h
                          | Nd a \<Rightarrow> (dflink h)(a + 8 := (if v = None then None else Some (node_addr h v)))),
       hdata := node_word n 8 (node_addr h v) (hdata h)\<rparr>"

definition set_nblink :: "nodep \<Rightarrow> nodep option \<Rightarrow> mm_heap \<Rightarrow> mm_heap" where
  "set_nblink n v h = h\<lparr>nblink := (nblink h)(n := v), hdata := node_word n 12 (node_addr h v) (hdata h)\<rparr>"

text \<open>
  What a call sees of its caller: \<open>up_interrupt_context()\<close>, \<open>sched_idletask()\<close>, \<open>getpid()\<close>
  (\<open>-ESRCH\<close> while the task lists are in flux) and the error results with which waits on
  the semaphore are awakened before one succeeds.
\<close>

record mm_env =
  env_interrupt :: bool
  env_idle :: bool
  env_pid :: int
  env_wakeups :: "int list"

definition NO_HOLDER :: int where "NO_HOLDER = -1"

section \<open>The heap semaphore (\<open>mm_sem.c\<close>)\<close>

definition mm_seminitialize :: "mm_heap \<Rightarrow> mm_heap" where
  "mm_seminitialize h = h\<lparr>mm_semcount := 1, mm_holder := NO_HOLDER, mm_counts_held := 0\<rparr>"

definition mm_trysemaphore :: "mm_env \<Rightarrow> mm_heap \<Rightarrow> int \<times> mm_heap" where
  "mm_trysemaphore env h =
     (let my_pid = env_pid env
      in if my_pid < 0 then (my_pid, h)
         else if mm_holder h = my_pid
         then (0, h\<lparr>mm_counts_held := mm_counts_held h + 1\<rparr>)
         else if mm_semcount h > 0
         then (0, h\<lparr>mm_semcount := mm_semcount h - 1, mm_holder := my_pid, mm_counts_held := 1\<rparr>)
         else (- EAGAIN, h))"

text \<open>
  \<open>do ret = _SEM_WAIT(...) while (ret == -EINTR)\<close>: a wait awakened by an error leaves the
  count alone; an undisturbed wait returns when the count is positive and blocks otherwise.
\<close>

fun mm_sem_waitloop :: "int list \<Rightarrow> int \<Rightarrow> int option" where
  "mm_sem_waitloop [] count = (if count > 0 then Some (count - 1) else None)"
| "mm_sem_waitloop (ret # rs) count =
     (if ret = - EINTR then mm_sem_waitloop rs count else Some count)"

definition mm_takesemaphore :: "mm_env \<Rightarrow> mm_heap \<Rightarrow> mm_heap option" where
  "mm_takesemaphore env h =
     (let my_pid = env_pid env
      in if mm_holder h = my_pid
         then Some (h\<lparr>mm_counts_held := mm_counts_held h + 1\<rparr>)
         else do { count \<leftarrow> mm_sem_waitloop (env_wakeups env) (mm_semcount h);
                   Some (h\<lparr>mm_semcount := count, mm_holder := my_pid, mm_counts_held := 1\<rparr>) })"

definition mm_givesemaphore :: "mm_heap \<Rightarrow> mm_heap" where
  "mm_givesemaphore h =
     (if mm_counts_held h > 1 then h\<lparr>mm_counts_held := mm_counts_held h - 1\<rparr>
      else h\<lparr>mm_holder := NO_HOLDER, mm_counts_held := 0, mm_semcount := mm_semcount h + 1\<rparr>)"

section \<open>The free list\<close>

text \<open>The loop \<open>while (size > 1) { ndx++; size >>= 1; }\<close> of \<open>mm_size2ndx\<close>.\<close>

function size2ndx_loop :: "nat \<Rightarrow> nat \<Rightarrow> nat" where
  "size2ndx_loop sz ndx =
     (if sz > 1 then size2ndx_loop (drop_bit 1 sz) (ndx + 1) else ndx)"
  by pat_completeness auto
termination
  by (relation "measure fst") (auto simp: drop_bit_eq_div)

declare size2ndx_loop.simps [simp del]

definition mm_size2ndx :: "nat \<Rightarrow> nat" where
  "mm_size2ndx sz =
     (if sz \<ge> MM_MAX_CHUNK then MM_NNODES - 1
      else size2ndx_loop (drop_bit MM_MIN_SHIFT sz) 0)"

text \<open>
  \<open>for (prev = ..., next = ...; next && next->size && next->size < node->size;
  prev = next, next = next->flink);\<close>
\<close>

partial_function (option) mm_findslot ::
    "mm_heap \<Rightarrow> nat \<Rightarrow> nodep \<Rightarrow> nodep option \<Rightarrow> (nodep \<times> nodep option) option" where
  "mm_findslot h sz prev next =
     (case next of
        None \<Rightarrow> Some (prev, next)
      | Some n \<Rightarrow>
          if nsize h n \<noteq> 0 \<and> nsize h n < sz then mm_findslot h sz n (nflink h n)
          else Some (prev, next))"

definition mm_addfreechunk :: "nodep \<Rightarrow> mm_heap \<Rightarrow> mm_heap option" where
  "mm_addfreechunk node h =
     (let ndx = mm_size2ndx (nsize h node)
      in do {
        (prev, next) \<leftarrow> mm_findslot h (nsize h node) (NL ndx) (nflink h (NL ndx));
        let h1 = set_nflink prev (Some node) h;
        let h2 = set_nblink node (Some prev) h1;
        let h3 = set_nflink node next h2;
        Some (case next of None \<Rightarrow> h3 | Some n \<Rightarrow> set_nblink n (Some node) h3)
      })"

text \<open>
  \<open>node->blink->flink = node->flink; if (node->flink) node->flink->blink = node->blink;\<close>, the
  removal that \<open>mm_malloc\<close>, \<open>mm_free\<close>, \<open>mm_shrinkchunk\<close> and \<open>mm_realloc\<close> each write out.
\<close>

definition mm_unlink :: "nodep \<Rightarrow> mm_heap \<Rightarrow> mm_heap option" where
  "mm_unlink node h =
     do { b \<leftarrow> nblink h node;
          let h1 = set_nflink b (nflink h node) h;
          Some (case nflink h1 node of
                  None \<Rightarrow> h1
                | Some n \<Rightarrow> set_nblink n (nblink h1 node) h1) }"

section \<open>Freeing\<close>

definition mm_add_delaylist :: "nat \<Rightarrow> mm_heap \<Rightarrow> mm_heap" where
  "mm_add_delaylist mem h =
     h\<lparr>dflink := (dflink h)(mem := mm_delaylist h), mm_delaylist := Some mem,
       hdata := store32 mem (case mm_delaylist h of None \<Rightarrow> 0 | Some d \<Rightarrow> d) (hdata h)\<rparr>"

text \<open>The part of \<open>mm_free\<close> that runs under the semaphore.\<close>

definition mm_free_next :: "nat \<Rightarrow> mm_heap \<Rightarrow> (nat \<times> mm_heap) option" where
  "mm_free_next node h =
     (let next = node + nsize h (Nd node)
      in if alloc_flag (npreceding h (Nd next)) = 0
         then do {
           let andbeyond = next + nsize h (Nd next);
           h1 \<leftarrow> mm_unlink (Nd next) h;
           let h2 = set_size (Nd node) (nsize h1 (Nd node) + nsize h1 (Nd next)) h1;
           let h3 = set_preceding (Nd andbeyond)
                      (nsize h2 (Nd node) OR alloc_flag (npreceding h2 (Nd andbeyond))) h2;
           Some (andbeyond, h3)
         }
         else Some (next, h))"

definition mm_free_prev :: "nat \<Rightarrow> nat \<Rightarrow> mm_heap \<Rightarrow> (nat \<times> mm_heap) option" where
  "mm_free_prev node next h =
     (let prev = node - npreceding h (Nd node)
      in if alloc_flag (npreceding h (Nd prev)) = 0
         then do {
           h1 \<leftarrow> mm_unlink (Nd prev) h;
           let h2 = set_size (Nd prev) (nsize h1 (Nd prev) + nsize h1 (Nd node)) h1;
           let h3 = set_preceding (Nd next)
                      (nsize h2 (Nd prev) OR alloc_flag (npreceding h2 (Nd next))) h2;
           Some (prev, h3)
         }
         else Some (node, h))"

definition mm_free_chunk :: "nat \<Rightarrow> mm_heap \<Rightarrow> mm_heap option" where
  "mm_free_chunk mem h =
     do {
       let node = mem - SIZEOF_MM_ALLOCNODE;
       let h1 = set_preceding (Nd node) (clear_alloc (npreceding h (Nd node))) h;
       (next, h2) \<leftarrow> mm_free_next node h1;
       (node', h3) \<leftarrow> mm_free_prev node next h2;
       mm_addfreechunk (Nd node') h3
     }"

definition mm_free :: "mm_env \<Rightarrow> nat \<Rightarrow> mm_heap \<Rightarrow> mm_heap option" where
  "mm_free env mem h =
     (if mem = 0 then Some h
      else if env_interrupt env then Some (mm_add_delaylist mem h)
      else (let (ret, h1) = mm_trysemaphore env h
            in if ret = 0 then map_option mm_givesemaphore (mm_free_chunk mem h1)
               else if ret = - ESRCH \<or> env_idle env then Some (mm_add_delaylist mem h1)
               else do { h2 \<leftarrow> mm_takesemaphore env h1;
                         map_option mm_givesemaphore (mm_free_chunk mem h2) }))"

section \<open>Allocation\<close>

partial_function (option) mm_free_delayloop ::
    "mm_env \<Rightarrow> nat option \<Rightarrow> mm_heap \<Rightarrow> mm_heap option" where
  "mm_free_delayloop env tmp h =
     (case tmp of
        None \<Rightarrow> Some h
      | Some address \<Rightarrow>
          do { let tmp' = dflink h address;
               h' \<leftarrow> mm_free env address h;
               mm_free_delayloop env tmp' h' })"

definition mm_free_delaylist :: "mm_env \<Rightarrow> mm_heap \<Rightarrow> mm_heap option" where
  "mm_free_delaylist env h =
     (let tmp = mm_delaylist h in mm_free_delayloop env tmp (h\<lparr>mm_delaylist := None\<rparr>))"

text \<open>\<open>for (node = ...; node && node->size < alignsize; node = node->flink)\<close>\<close>

partial_function (option) mm_findfit ::
    "mm_heap \<Rightarrow> nat \<Rightarrow> nodep option \<Rightarrow> nodep option option" where
  "mm_findfit h alignsize node =
     (case node of
        None \<Rightarrow> Some None
      | Some n \<Rightarrow> if nsize h n < alignsize then mm_findfit h alignsize (nflink h n)
                  else Some (Some n))"

definition mm_take_node :: "nat \<Rightarrow> nat \<Rightarrow> mm_heap \<Rightarrow> (nat \<times> mm_heap) option" where
  "mm_take_node node alignsize h =
     do {
       h1 \<leftarrow> mm_unlink (Nd node) h;
       let remaining = nsize h1 (Nd node) - alignsize;
       h2 \<leftarrow> (if remaining \<ge> SIZEOF_MM_FREENODE
              then (let next = node + nsize h1 (Nd node);
                        remainder = node + alignsize;
                        g1 = set_size (Nd remainder) remaining h1;
                        g2 = set_preceding (Nd remainder) alignsize g1;
                        g3 = set_size (Nd node) alignsize g2;
                        g4 = set_preceding (Nd next)
                               (remaining OR alloc_flag (npreceding g3 (Nd next))) g3
                    in mm_addfreechunk (Nd remainder) g4)
              else Some h1);
       let h3 = set_preceding (Nd node) (npreceding h2 (Nd node) OR MM_ALLOC_BIT) h2;
       Some (node + SIZEOF_MM_ALLOCNODE, h3)
     }"

text \<open>
  The search starts behind \<open>mm_nodelist[ndx]\<close>.  Should it stop at an array entry (possible only
  for \<open>alignsize = 0\<close>, since array entries have size 0), the code would carve a chunk out of
  the heap structure itself, which is outside any object: no result.
\<close>

definition mm_malloc :: "mm_env \<Rightarrow> nat \<Rightarrow> mm_heap \<Rightarrow> (nat \<times> mm_heap) option" where
  "mm_malloc env sz h =
     do {
       h1 \<leftarrow> mm_free_delaylist env h;
       if sz < 1 then Some (0, h1)
       else do {
         let alignsize = MM_ALIGN_UP ((sz + SIZEOF_MM_ALLOCNODE) mod 2 ^ 32);
         h2 \<leftarrow> mm_takesemaphore env h1;
         let ndx = (if alignsize \<ge> MM_MAX_CHUNK then MM_NNODES - 1 else mm_size2ndx alignsize);
         found \<leftarrow> mm_findfit h2 alignsize (nflink h2 (NL ndx));
         (ret, h3) \<leftarrow> (case found of
                           None \<Rightarrow> Some (0, h2)
                         | Some (Nd node) \<Rightarrow> mm_take_node node alignsize h2
                         | Some (NL i) \<Rightarrow> None);
         Some (ret, mm_givesemaphore h3)
       }
     }"

definition mm_zalloc :: "mm_env \<Rightarrow> nat \<Rightarrow> mm_heap \<Rightarrow> (nat \<times> mm_heap) option" where
  "mm_zalloc env sz h =
     do { (alloc, h1) \<leftarrow> mm_malloc env sz h;
          Some (alloc, if alloc \<noteq> 0 then h1\<lparr>hdata := memset alloc 0 sz (hdata h1)\<rparr> else h1) }"

definition mm_calloc :: "mm_env \<Rightarrow> nat \<Rightarrow> nat \<Rightarrow> mm_heap \<Rightarrow> (nat \<times> mm_heap) option" where
  "mm_calloc env n elem_size h =
     (if n > 0 \<and> elem_size > 0
      then (if n \<le> SIZE_MAX div elem_size then mm_zalloc env ((n * elem_size) mod 2 ^ 32) h
            else Some (0, h))
      else Some (0, h))"

section \<open>Resizing and alignment\<close>

definition mm_shrinkchunk :: "nat \<Rightarrow> nat \<Rightarrow> mm_heap \<Rightarrow> mm_heap option" where
  "mm_shrinkchunk node sz h =
     (let next = node + nsize h (Nd node)
      in if alloc_flag (npreceding h (Nd next)) = 0
         then do {
           let andbeyond = next + nsize h (Nd next);
           h1 \<leftarrow> mm_unlink (Nd next) h;
           let newnode = node + sz;
           let g1 = set_size (Nd newnode) (nsize h1 (Nd next) + nsize h1 (Nd node) - sz) h1;
           let g2 = set_preceding (Nd newnode) sz g1;
           let g3 = set_size (Nd node) sz g2;
           let g4 = set_preceding (Nd andbeyond)
                      (nsize g3 (Nd newnode) OR alloc_flag (npreceding g3 (Nd andbeyond))) g3;
           mm_addfreechunk (Nd newnode) g4
         }
         else if nsize h (Nd node) \<ge> sz + SIZEOF_MM_FREENODE
         then do {
           let newnode = node + sz;
           let g1 = set_size (Nd newnode) (nsize h (Nd node) - sz) h;
           let g2 = set_preceding (Nd newnode) sz g1;
           let g3 = set_size (Nd node) sz g2;
           let g4 = set_preceding (Nd next) (nsize g3 (Nd newnode) OR MM_ALLOC_BIT) g3;
           mm_addfreechunk (Nd newnode) g4
         }
         else Some h)"

text \<open>How much \<open>mm_realloc\<close> takes from the preceding and from the following free chunk.\<close>

definition realloc_takes :: "nat \<Rightarrow> nat \<Rightarrow> nat \<Rightarrow> nat \<times> nat" where
  "realloc_takes needed prevsize nextsize =
     (let (takeprev, takenext, needed1) =
            (if prevsize > 0 \<and> (nextsize \<ge> prevsize \<or> nextsize < 1)
             then (if needed > prevsize then (prevsize, needed - prevsize, 0)
                   else (needed, 0, 0))
             else (0, 0, needed))
      in if nextsize > 0 \<and> needed1 \<noteq> 0
         then (if needed1 > nextsize then (needed1 - nextsize, nextsize) else (0, needed1))
         else (takeprev, takenext))"

text \<open>Extension into the preceding free chunk; returns the new node address.\<close>

definition realloc_takeprev ::
    "nat \<Rightarrow> nat \<Rightarrow> nat \<Rightarrow> nat \<Rightarrow> nat \<Rightarrow> nat \<Rightarrow> mm_heap \<Rightarrow> (nat \<times> mm_heap) option" where
  "realloc_takeprev oldnode oldsize prev prevsize next takeprev h =
     do {
       h1 \<leftarrow> mm_unlink (Nd prev) h;
       let newnode = oldnode - takeprev;
       h2 \<leftarrow> (if takeprev < prevsize
              then (let g1 = set_size (Nd prev) (nsize h1 (Nd prev) - takeprev) h1;
                        g2 = set_size (Nd newnode) (oldsize + takeprev) g1;
                        g3 = set_preceding (Nd newnode) (nsize g2 (Nd prev) OR MM_ALLOC_BIT) g2;
                        g4 = set_preceding (Nd next)
                               (nsize g3 (Nd newnode) OR alloc_flag (npreceding g3 (Nd next))) g3
                    in mm_addfreechunk (Nd prev) g4)
              else (let g1 = set_size (Nd newnode) (nsize h1 (Nd newnode) + oldsize) h1;
                        g2 = set_preceding (Nd newnode)
                               (npreceding g1 (Nd newnode) OR MM_ALLOC_BIT) g1;
                        g3 = set_preceding (Nd next)
                               (nsize g2 (Nd newnode) OR alloc_flag (npreceding g2 (Nd next))) g2
                    in Some g3));
       let newmem = newnode + SIZEOF_MM_ALLOCNODE;
       let oldmem = oldnode + SIZEOF_MM_ALLOCNODE;
       Some (newnode,
             h2\<lparr>hdata := memcpy newmem oldmem (oldsize - SIZEOF_MM_ALLOCNODE) (hdata h2)\<rparr>)
     }"

text \<open>Extension into the following free chunk.\<close>

definition realloc_takenext ::
    "nat \<Rightarrow> nat \<Rightarrow> nat \<Rightarrow> nat \<Rightarrow> nat \<Rightarrow> mm_heap \<Rightarrow> mm_heap option" where
  "realloc_takenext oldnode oldsize next nextsize takenext h =
     do {
       let andbeyond = next + nextsize;
       h1 \<leftarrow> mm_unlink (Nd next) h;
       let h2 = set_size (Nd oldnode) (oldsize + takenext) h1;
       let newnode = oldnode + nsize h2 (Nd oldnode);
       if takenext < nextsize
       then (let g1 = set_size (Nd newnode) (nextsize - takenext) h2;
                 g2 = set_preceding (Nd newnode) (nsize g1 (Nd oldnode)) g1;
                 g3 = set_preceding (Nd andbeyond)
                        (nsize g2 (Nd newnode) OR alloc_flag (npreceding g2 (Nd andbeyond))) g2
             in mm_addfreechunk (Nd newnode) g3)
       else Some (set_preceding (Nd andbeyond)
                    (nsize h2 (Nd oldnode) OR alloc_flag (npreceding h2 (Nd andbeyond))) h2)
     }"

definition realloc_extend ::
    "nat \<Rightarrow> nat \<Rightarrow> nat \<Rightarrow> nat \<Rightarrow> nat \<Rightarrow> nat \<Rightarrow> nat \<Rightarrow> mm_heap \<Rightarrow> (nat \<times> mm_heap) option" where
  "realloc_extend oldnode oldsize prev prevsize next nextsize newsize h =
     do {
       let (takeprev, takenext) = realloc_takes (newsize - oldsize) prevsize nextsize;
       (node1, h1) \<leftarrow> (if takeprev \<noteq> 0
                         then realloc_takeprev oldnode oldsize prev prevsize next takeprev h
                         else Some (oldnode, h));
       let size1 = (if takeprev \<noteq> 0 then nsize h1 (Nd node1) else oldsize);
       h2 \<leftarrow> (if takenext \<noteq> 0 then realloc_takenext node1 size1 next nextsize takenext h1
              else Some h1);
       Some (node1 + SIZEOF_MM_ALLOCNODE, h2)
     }"

definition mm_realloc :: "mm_env \<Rightarrow> nat \<Rightarrow> nat \<Rightarrow> mm_heap \<Rightarrow> (nat \<times> mm_heap) option" where
  "mm_realloc env oldmem sz h =
     (if oldmem = 0 then mm_malloc env sz h
      else if sz < 1 then do { h1 \<leftarrow> mm_free env oldmem h; Some (0, h1) }
      else do {
        let newsize = MM_ALIGN_UP ((sz + SIZEOF_MM_ALLOCNODE) mod 2 ^ 32);
        let oldnode = oldmem - SIZEOF_MM_ALLOCNODE;
        h1 \<leftarrow> mm_takesemaphore env h;
        let oldsize = nsize h1 (Nd oldnode);
        if newsize \<le> oldsize
        then do {
          h2 \<leftarrow> (if newsize < oldsize then mm_shrinkchunk oldnode newsize h1 else Some h1);
          Some (oldmem, mm_givesemaphore h2)
        }
        else do {
          let next = oldnode + nsize h1 (Nd oldnode);
          let nextsize = (if alloc_flag (npreceding h1 (Nd next)) = 0 then nsize h1 (Nd next) else 0);
          let prev = oldnode - clear_alloc (npreceding h1 (Nd oldnode));
          let prevsize = (if alloc_flag (npreceding h1 (Nd prev)) = 0 then nsize h1 (Nd prev) else 0);
          if nextsize + prevsize + oldsize \<ge> newsize
          then do {
            (newmem, h2) \<leftarrow> realloc_extend oldnode oldsize prev prevsize next nextsize newsize h1;
            Some (newmem, mm_givesemaphore h2)
          }
          else do {
            (newmem, h2) \<leftarrow> mm_malloc env sz (mm_givesemaphore h1);
            if newmem \<noteq> 0
            then do {
              h3 \<leftarrow> mm_free env oldmem (h2\<lparr>hdata := memcpy newmem oldmem oldsize (hdata h2)\<rparr>);
              Some (newmem, h3)
            }
            else Some (newmem, h2)
          }
        }
      })"

text \<open>
  The leading space of \<open>mm_memalign\<close>: the chunk at \<open>node\<close> is cut in front of the aligned
  address; returns the aligned address, the node in front of it and its payload size.
  \<open>x & ~mask\<close> is \<open>x - (x & mask)\<close>.
\<close>

definition memalign_lead ::
    "nat \<Rightarrow> nat \<Rightarrow> nat \<Rightarrow> nat \<Rightarrow> mm_heap \<Rightarrow> (nat \<times> nat \<times> nat \<times> mm_heap) option" where
  "memalign_lead alignment allocsize rawchunk alignedchunk0 h =
     do {
       let node = rawchunk - SIZEOF_MM_ALLOCNODE;
       let next = node + nsize h (Nd node);
       let newnode0 = alignedchunk0 - SIZEOF_MM_ALLOCNODE;
       let precedingsize0 = newnode0 - node;
       let short = precedingsize0 < SIZEOF_MM_FREENODE;
       let alignedchunk = (if short then alignedchunk0 + alignment else alignedchunk0);
       let newnode = alignedchunk - SIZEOF_MM_ALLOCNODE;
       let precedingsize = newnode - node;
       let g1 = set_size (Nd newnode) (next - newnode) h;
       let g2 = set_preceding (Nd newnode) (precedingsize OR MM_ALLOC_BIT) g1;
       let g3 = set_size (Nd node) precedingsize g2;
       let g4 = set_preceding (Nd node) (clear_alloc (npreceding g3 (Nd node))) g3;
       let g5 = set_preceding (Nd next)
                  (nsize g4 (Nd newnode) OR alloc_flag (npreceding g4 (Nd next))) g4;
       g6 \<leftarrow> mm_addfreechunk (Nd node) g5;
       Some (alignedchunk, newnode, nsize g5 (Nd newnode) - SIZEOF_MM_ALLOCNODE, g6)
     }"

definition mm_memalign :: "mm_env \<Rightarrow> nat \<Rightarrow> nat \<Rightarrow> mm_heap \<Rightarrow> (nat \<times> mm_heap) option" where
  "mm_memalign env alignment size0 h =
     (let mask = alignment - 1
      in if alignment \<le> MM_MIN_CHUNK then mm_malloc env size0 h
         else do {
           let sz = MM_ALIGN_UP size0;
           let allocsize = (sz + 2 * alignment) mod 2 ^ 32;
           (rawchunk, h1) \<leftarrow> mm_malloc env allocsize h;
           if rawchunk = 0 then Some (0, h1)
           else do {
             h2 \<leftarrow> mm_takesemaphore env h1;
             let alignedchunk = (rawchunk + mask) - ((rawchunk + mask) AND mask);
             (alignedchunk1, node1, allocsize1, h3) \<leftarrow>
               (if alignedchunk \<noteq> rawchunk
                then memalign_lead alignment allocsize rawchunk alignedchunk h2
                else Some (alignedchunk, rawchunk - SIZEOF_MM_ALLOCNODE, allocsize, h2));
             let size1 = MM_ALIGN_UP ((sz + SIZEOF_MM_ALLOCNODE) mod 2 ^ 32);
             h4 \<leftarrow> (if allocsize1 > size1 then mm_shrinkchunk node1 size1 h3 else Some h3);
             Some (alignedchunk1, mm_givesemaphore h4)
           }
         })"

section \<open>Initialisation, regions and queries\<close>

definition mm_addregion :: "nat \<Rightarrow> nat \<Rightarrow> mm_heap \<Rightarrow> mm_heap option" where
  "mm_addregion heapstart heapsize0 h =
     (let heapbase = MM_ALIGN_UP heapstart;
          heapend = MM_ALIGN_DOWN ((heapstart + heapsize0) mod 2 ^ 32);
          heapsize = sub32 heapend heapbase;
          h1 = h\<lparr>mm_heapsize := mm_heapsize h + heapsize, mm_heapstart := heapbase\<rparr>;
          h2 = set_preceding (Nd heapbase) MM_ALLOC_BIT
                 (set_size (Nd heapbase) SIZEOF_MM_ALLOCNODE h1);
          node = heapbase + SIZEOF_MM_ALLOCNODE;
          h3 = set_preceding (Nd node) SIZEOF_MM_ALLOCNODE
                 (set_size (Nd node) (sub32 heapsize (2 * SIZEOF_MM_ALLOCNODE)) h2);
          tail = sub32 heapend SIZEOF_MM_ALLOCNODE;
          h4 = set_size (Nd tail) SIZEOF_MM_ALLOCNODE (h3\<lparr>mm_heapend := tail\<rparr>);
          h5 = set_preceding (Nd tail) (nsize h4 (Nd node) OR MM_ALLOC_BIT) h4
      in mm_addfreechunk (Nd node) h5)"

text \<open>\<open>memset(heap->mm_nodelist, 0, ...)\<close> and the loop that links the array entries.\<close>

definition mm_clear_nodelist :: "mm_heap \<Rightarrow> mm_heap" where
  "mm_clear_nodelist h =
     (let clear = (\<lambda>z f n. case n of NL i \<Rightarrow> if i < MM_NNODES then z else f n | Nd a \<Rightarrow> f n)
      in h\<lparr>nsize := clear 0 (nsize h),
           npreceding := clear 0 (npreceding h),
           nflink := (\<lambda>n. case n of NL i \<Rightarrow> if i < MM_NNODES then None else nflink h n
                                  | Nd a \<Rightarrow> nflink h n),
           nblink := (\<lambda>n. case n of NL i \<Rightarrow> if i < MM_NNODES then None else nblink h n
                                  | Nd a \<Rightarrow> nblink h n)\<rparr>)"

fun mm_link_nodelist :: "nat list \<Rightarrow> mm_heap \<Rightarrow> mm_heap" where
  "mm_link_nodelist [] h = h"
| "mm_link_nodelist (i # is) h =
     mm_link_nodelist is
       (set_nblink (NL i) (Some (NL (i - 1))) (set_nflink (NL (i - 1)) (Some (NL i)) h))"

definition mm_initialize :: "nat \<Rightarrow> nat \<Rightarrow> mm_heap \<Rightarrow> mm_heap option" where
  "mm_initialize heapstart heapsize h =
     (let h1 = h\<lparr>mm_heapsize := 0, mm_delaylist := None\<rparr>;
          h2 = mm_link_nodelist [1..<MM_NNODES] (mm_clear_nodelist h1);
          h3 = mm_seminitialize h2
      in mm_addregion heapstart heapsize h3)"

definition mm_extend :: "mm_env \<Rightarrow> nat \<Rightarrow> nat \<Rightarrow> mm_heap \<Rightarrow> mm_heap option" where
  "mm_extend env mem sz h =
     do {
       let blockend = (mem + sz) mod 2 ^ 32;
       h1 \<leftarrow> mm_takesemaphore env h;
       let oldnode = mm_heapend h1;
       let h2 = set_size (Nd oldnode) sz h1;
       let newnode = sub32 blockend SIZEOF_MM_ALLOCNODE;
       let h3 = set_size (Nd newnode) SIZEOF_MM_ALLOCNODE h2;
       let h4 = set_preceding (Nd newnode) (nsize h3 (Nd oldnode) OR MM_ALLOC_BIT) h3;
       let h5 = h4\<lparr>mm_heapend := newnode\<rparr>;
       mm_free env mem (mm_givesemaphore h5)
     }"

definition mm_heapmember :: "nat \<Rightarrow> mm_heap \<Rightarrow> bool" where
  "mm_heapmember mem h \<longleftrightarrow> mem > mm_heapstart h \<and> mem < mm_heapend h"

definition mm_brkaddr :: "mm_heap \<Rightarrow> nat" where
  "mm_brkaddr h = (if mm_heapend h \<noteq> 0 then mm_heapend h + SIZEOF_MM_ALLOCNODE else 0)"

record mallinfo =
  arena :: nat
  ordblks :: nat
  mxordblk :: nat
  uordblks :: nat
  fordblks :: nat

text \<open>The walk over the chunks; it does not end when a chunk has size 0.\<close>

partial_function (option) mm_mallinfo_loop :: "mm_heap \<Rightarrow> nat \<Rightarrow> mallinfo \<Rightarrow> mallinfo option" where
  "mm_mallinfo_loop h node info =
     (if node < mm_heapend h
      then mm_mallinfo_loop h (node + nsize h (Nd node))
             (if alloc_flag (npreceding h (Nd node)) \<noteq> 0
              then info\<lparr>uordblks := uordblks info + nsize h (Nd node)\<rparr>
              else info\<lparr>ordblks := ordblks info + 1,
                        fordblks := fordblks info + nsize h (Nd node),
                        mxordblk := (if nsize h (Nd node) > mxordblk info
                                     then nsize h (Nd node) else mxordblk info)\<rparr>)
      else Some info)"

definition mm_mallinfo :: "mm_env \<Rightarrow> mm_heap \<Rightarrow> (mallinfo \<times> mm_heap) option" where
  "mm_mallinfo env h =
     do {
       h1 \<leftarrow> mm_takesemaphore env h;
       info \<leftarrow> mm_mallinfo_loop h1 (mm_heapstart h1)
                 \<lparr>arena = 0, ordblks = 0, mxordblk = 0, uordblks = 0, fordblks = 0\<rparr>;
       let h2 = mm_givesemaphore h1;
       Some (info\<lparr>uordblks := uordblks info + SIZEOF_MM_ALLOCNODE, arena := mm_heapsize h2\<rparr>, h2)
     }"

end
