(* ===== verification/MM_Inv.thy ===== *)
theory MM_Inv
  imports MM_Heap
begin

text \<open>
  Facts about the pieces the heap manager works on: sizes and flags, the size classes, the chunks
  as they lie in memory (\<open>layout\<close>), and the sorted, doubly linked free list (\<open>flist\<close>) with the
  effect of \<open>mm_unlink\<close> and \<open>mm_addfreechunk\<close> on it.
\<close>

lemmas mm_consts = MM_MIN_SHIFT_def MM_MAX_SHIFT_def MM_MIN_CHUNK_def MM_MAX_CHUNK_def
  MM_NNODES_def MM_GRAN_MASK_def SIZEOF_MM_ALLOCNODE_def SIZEOF_MM_FREENODE_def

section \<open>Arithmetic\<close>

lemma MM_ALIGN_DOWN_eq: "MM_ALIGN_DOWN a = a - a mod 16"
  by (simp add: MM_ALIGN_DOWN_def MM_MIN_SHIFT_def push_bit_eq_mult drop_bit_eq_div
      minus_mod_eq_div_mult)

lemma MM_ALIGN_UP_eq:
  assumes "a + 15 < 2 ^ 32"
  shows "MM_ALIGN_UP a = (a + 15) div 16 * 16"
  using assms by (simp add: MM_ALIGN_UP_def MM_ALIGN_DOWN_eq mm_consts minus_mod_eq_div_mult)

lemma MM_ALIGN_UP_props:
  assumes "a + 15 < 2 ^ 32"
  shows "16 dvd MM_ALIGN_UP a" "a \<le> MM_ALIGN_UP a" "MM_ALIGN_UP a < a + 16"
  unfolding MM_ALIGN_UP_eq [OF assms] by auto

definition af :: "bool \<Rightarrow> nat" where
  "af al = (if al then MM_ALLOC_BIT else 0)"

lemma no_alloc_bit: "(n :: nat) < 2 ^ 31 \<Longrightarrow> n AND 2 ^ 31 = 0"
  unfolding and_exp_eq_0_iff_not_bit by (simp add: bit_iff_odd)

lemma or_alloc: "n < 2 ^ 31 \<Longrightarrow> n OR MM_ALLOC_BIT = n + MM_ALLOC_BIT"
  unfolding MM_ALLOC_BIT_def by (simp add: disjunctive_add_eq_or no_alloc_bit [simplified])

lemma alloc_flag_af [simp]:
  assumes "p < 2 ^ 31"
  shows "alloc_flag (p + af al) = af al"
proof (cases al)
  case True
  have "(p OR MM_ALLOC_BIT) AND MM_ALLOC_BIT = MM_ALLOC_BIT"
    by (simp add: bit_eq_iff bit_simps) blast
  with True show ?thesis by (simp add: alloc_flag_def af_def or_alloc [OF assms, symmetric])
next
  case False
  with assms show ?thesis
    using no_alloc_bit [of p] by (simp add: alloc_flag_def af_def MM_ALLOC_BIT_def)
qed

lemma clear_alloc_af [simp]: "p < 2 ^ 31 \<Longrightarrow> clear_alloc (p + af al) = p"
  by (simp add: clear_alloc_def af_def MM_ALLOC_BIT_def take_bit_eq_mod)

lemma af_or: "n < 2 ^ 31 \<Longrightarrow> n OR af al = n + af al"
  by (simp add: af_def or_alloc)

lemma af_or_alloc:
  assumes "p < 2 ^ 31"
  shows "(p + af al) OR MM_ALLOC_BIT = p + af True"
  using or_alloc [OF assms] by (cases al) (simp_all add: af_def or.assoc flip: or_alloc [OF assms])

lemma af_eq_0 [simp]: "af al = 0 \<longleftrightarrow> \<not> al"
  by (simp add: af_def MM_ALLOC_BIT_def)

lemma af_False [simp]: "af False = 0"
  by (simp add: af_def)

lemma alloc_flag_plain [simp]: "p < 2 ^ 31 \<Longrightarrow> alloc_flag p = 0"
  using alloc_flag_af [of p False] by simp

lemma clear_alloc_plain [simp]: "p < 2 ^ 31 \<Longrightarrow> clear_alloc p = p"
  using clear_alloc_af [of p False] by simp

lemma or_af: "n < 2 ^ 31 \<Longrightarrow> n OR MM_ALLOC_BIT = n + af True"
  by (simp add: or_alloc af_def)

lemmas mm_flags = af_or or_af af_or_alloc

lemma size2ndx_loop_spec:
  "n > 0 \<Longrightarrow> \<exists>k. size2ndx_loop n i = i + k \<and> 2 ^ k \<le> n \<and> n < 2 ^ Suc k"
proof (induction n i rule: size2ndx_loop.induct)
  case (1 n i)
  show ?case
  proof (cases "n > 1")
    case True
    then obtain k where k: "size2ndx_loop (drop_bit 1 n) (i + 1) = i + 1 + k"
      "2 ^ k \<le> drop_bit 1 n" "drop_bit 1 n < 2 ^ Suc k"
      using 1 by (auto simp: drop_bit_eq_div)
    then have "2 ^ Suc k \<le> n" "n < 2 ^ Suc (Suc k)"
      by (auto simp: drop_bit_eq_div)
    with k True show ?thesis
      by (intro exI [of _ "Suc k"]) (simp add: size2ndx_loop.simps [of n i])
  next
    case False
    with 1 show ?thesis
      by (intro exI [of _ 0]) (simp add: size2ndx_loop.simps [of n i])
  qed
qed

lemma mm_size2ndx_spec:
  assumes "16 \<le> s"
  shows "mm_size2ndx s < MM_NNODES" "2 ^ (mm_size2ndx s + 4) \<le> s"
    "mm_size2ndx s + 1 < MM_NNODES \<Longrightarrow> s < 2 ^ (mm_size2ndx s + 5)"
proof -
  have *: "mm_size2ndx s < MM_NNODES \<and> 2 ^ (mm_size2ndx s + 4) \<le> s \<and>
    (mm_size2ndx s + 1 < MM_NNODES \<longrightarrow> s < 2 ^ (mm_size2ndx s + 5))"
  proof (cases "s \<ge> MM_MAX_CHUNK")
    case True
    then show ?thesis by (simp add: mm_size2ndx_def mm_consts)
  next
    case False
    let ?d = "drop_bit MM_MIN_SHIFT s"
    have d: "?d = s div 16" "0 < s div 16"
      using assms by (auto simp: drop_bit_eq_div mm_consts div_greater_zero_iff)
    obtain k where k: "size2ndx_loop ?d 0 = k" "2 ^ k \<le> s div 16" "s div 16 < 2 ^ Suc k"
      using size2ndx_loop_spec [of ?d 0] d by auto
    have lt: "s < 2 ^ 22" using False by (simp add: mm_consts)
    then have "s div 16 < 2 ^ 18" by (simp add: less_mult_imp_div_less)
    then have "2 ^ k < (2 ^ 18 :: nat)" using k(2) by linarith
    then have "k < 18" by (rule power_less_imp_less_exp [rotated]) simp
    moreover have "2 ^ (k + 4) \<le> s" using k(2) by (simp add: power_add)
    moreover have "s < 2 ^ (k + 5)"
    proof -
      have "s div 16 < 2 ^ Suc k" by (rule k(3))
      then have "s < 16 * 2 ^ Suc k" by (simp add: div_less_iff_less_mult mult.commute)
      then show ?thesis by (simp add: power_add)
    qed
    ultimately show ?thesis using False k(1) by (simp add: mm_size2ndx_def mm_consts)
  qed
  then show "mm_size2ndx s < MM_NNODES" "2 ^ (mm_size2ndx s + 4) \<le> s"
    "mm_size2ndx s + 1 < MM_NNODES \<Longrightarrow> s < 2 ^ (mm_size2ndx s + 5)" by auto
qed

section \<open>Chunks in memory\<close>

type_synonym chunk = "nat \<times> nat \<times> bool"

text \<open>
  \<open>layout S P a p cs e q\<close>: with the size field \<open>S\<close> and the preceding field \<open>P\<close>, the chunks
  \<open>cs\<close> (address, size, allocated) lie one behind the other from address \<open>a\<close> to address \<open>e\<close>;
  \<open>p\<close> is the size of the chunk in front of them and \<open>q\<close> the size of the last one.
\<close>

primrec layout ::
    "(nodep \<Rightarrow> nat) \<Rightarrow> (nodep \<Rightarrow> nat) \<Rightarrow> nat \<Rightarrow> nat \<Rightarrow> chunk list \<Rightarrow> nat \<Rightarrow> nat \<Rightarrow> bool" where
  "layout S P a p [] e q \<longleftrightarrow> e = a \<and> q = p"
| "layout S P a p (c # cs) e q \<longleftrightarrow>
     (case c of (b, s, al) \<Rightarrow>
        b = a \<and> S (Nd a) = s \<and> P (Nd a) = p + af al \<and> layout S P (a + s) s cs e q)"

lemma layout_append [simp]:
  "layout S P a p (xs @ ys) e q \<longleftrightarrow> (\<exists>b r. layout S P a p xs b r \<and> layout S P b r ys e q)"
  by (induction xs arbitrary: a p) auto

lemma layout_bounds:
  "layout S P a p cs e q \<Longrightarrow> a \<le> e \<and> (\<forall>(b, s, al) \<in> set cs. a \<le> b \<and> b + s \<le> e)"
  by (induction cs arbitrary: a p) fastforce+

lemma layout_in_range:
  "layout S P a p cs e q \<Longrightarrow> (b, s, al) \<in> set cs \<Longrightarrow> a \<le> b \<and> b + s \<le> e"
  using layout_bounds by fastforce

lemma layout_le: "layout S P a p cs e q \<Longrightarrow> a \<le> e"
  using layout_bounds by blast

lemma layout_fields:
  "layout S P a p cs e q \<Longrightarrow> (b, s, al) \<in> set cs \<Longrightarrow> S (Nd b) = s"
  by (induction cs arbitrary: a p) auto

lemma layout_cong:
  assumes "\<And>b s al. (b, s, al) \<in> set cs \<Longrightarrow> S' (Nd b) = S (Nd b) \<and> P' (Nd b) = P (Nd b)"
  shows "layout S' P' a p cs e q \<longleftrightarrow> layout S P a p cs e q"
  using assms
proof (induction cs arbitrary: a p)
  case Nil
  then show ?case by simp
next
  case (Cons c cs)
  obtain b s al where c: "c = (b, s, al)" by (cases c)
  have "S' (Nd b) = S (Nd b) \<and> P' (Nd b) = P (Nd b)"
    using Cons.prems [of b s al] c by simp
  moreover have "layout S' P' (a + s) s cs e q \<longleftrightarrow> layout S P (a + s) s cs e q"
    by (rule Cons.IH) (use Cons.prems in auto)
  ultimately show ?case using c by auto
qed

definition sized :: "chunk list \<Rightarrow> bool" where
  "sized cs \<longleftrightarrow> (\<forall>(a, s, al) \<in> set cs. 16 \<le> s \<and> 16 dvd s)"

lemma sized_simps [simp]:
  "sized []" "sized ((a, s, al) # cs) \<longleftrightarrow> 16 \<le> s \<and> 16 dvd s \<and> sized cs"
  "sized (xs @ ys) \<longleftrightarrow> sized xs \<and> sized ys"
  by (auto simp: sized_def ball_Un)

text \<open>Replacing the chunks between an address and the next chunk.\<close>

lemma layout_replace:
  assumes "layout S P A p0 (xs @ mid @ (b, t, bl) # ys) E q"
    and xs: "layout S P A p0 xs a p" and "\<forall>c \<in> set xs. 0 < fst (snd c)" "0 < t"
    and mid': "layout S' P' a p mid' b r"
    and same: "\<And>x. x < a \<or> b < x \<Longrightarrow> S' (Nd x) = S (Nd x) \<and> P' (Nd x) = P (Nd x)"
    and "S' (Nd b) = S (Nd b)" "P' (Nd b) = r + af bl"
  shows "layout S' P' A p0 (xs @ mid' @ (b, t, bl) # ys) E q"
proof -
  obtain m where m: "layout S P a p mid b m" "S (Nd b) = t" "layout S P (b + t) t ys E q"
  proof -
    obtain a' p' b' m where *: "layout S P A p0 xs a' p'" "layout S P a' p' mid b' m"
      "layout S P b' m ((b, t, bl) # ys) E q" using assms(1) by auto
    have "a' = a \<and> p' = p" using xs *(1)
      by (induction xs arbitrary: A p0) auto
    with * that show ?thesis by auto
  qed
  have "layout S' P' A p0 xs a p \<longleftrightarrow> layout S P A p0 xs a p"
  proof (rule layout_cong)
    fix c s al assume "(c, s, al) \<in> set xs"
    then have "c + s \<le> a" "0 < s" using layout_in_range [OF xs] assms(3) by auto
    then show "S' (Nd c) = S (Nd c) \<and> P' (Nd c) = P (Nd c)" by (intro same) auto
  qed
  moreover have "layout S' P' (b + t) t ys E q \<longleftrightarrow> layout S P (b + t) t ys E q"
  proof (rule layout_cong)
    fix c s al assume "(c, s, al) \<in> set ys"
    then have "b + t \<le> c" using layout_in_range [OF m(3)] by auto
    then show "S' (Nd c) = S (Nd c) \<and> P' (Nd c) = P (Nd c)"
      using \<open>0 < t\<close> by (intro same) auto
  qed
  ultimately show ?thesis using xs mid' m assms(7,8) by auto
qed

section \<open>The free list\<close>

definition fkey :: "(nodep \<Rightarrow> nat) \<Rightarrow> nodep \<Rightarrow> nat" where
  "fkey S n = (case n of NL i \<Rightarrow> 2 * 2 ^ (i + 4) - 1 | Nd a \<Rightarrow> 2 * S (Nd a))"

definition flist :: "mm_heap \<Rightarrow> nodep list \<Rightarrow> nat set \<Rightarrow> bool" where
  "flist h fl F \<longleftrightarrow>
     path (nflink h) (Some (NL 0)) fl None \<and>
     path (nblink h) (last_opt fl) (rev fl) None \<and>
     set fl = NL ` {..<MM_NNODES} \<union> Nd ` F \<and>
     sorted (map (fkey (nsize h)) fl) \<and>
     (\<forall>i < MM_NNODES. nsize h (NL i) = 0) \<and>
     (\<forall>a \<in> F. 16 \<le> nsize h (Nd a))"

text \<open>
  The bytes that a store to a header field leaves alone: \<open>clear K a n\<close> says that none of the \<open>n\<close>
  bytes at \<open>a\<close> belongs to \<open>K\<close>.
\<close>

definition clear :: "nat set \<Rightarrow> nat \<Rightarrow> nat \<Rightarrow> bool" where
  "clear K a n \<longleftrightarrow> (\<forall>x \<in> K. x < a \<or> a + n \<le> x)"

lemma clearD: "clear K a n \<Longrightarrow> x \<in> K \<Longrightarrow> a \<le> x \<Longrightarrow> a + n \<le> x"
  by (auto simp: clear_def)

lemma clear_part: "clear K a n \<Longrightarrow> a \<le> b \<Longrightarrow> b + m \<le> a + n \<Longrightarrow> clear K b m"
  by (fastforce simp: clear_def)

lemma clear_subset: "clear K a n \<Longrightarrow> L \<subseteq> K \<Longrightarrow> clear L a n"
  by (auto simp: clear_def)

lemma store32_outside: "x < p \<or> p + 4 \<le> x \<Longrightarrow> store32 p v m x = m x"
  by (auto simp: store32_def)

lemma node_word_outside:
  assumes "case n of NL i \<Rightarrow> True | Nd a \<Rightarrow> clear K (a + off) 4" "x \<in> K"
  shows "node_word n off v m x = m x"
  using assms by (cases n) (auto simp: node_word_def clear_def intro!: store32_outside)

text \<open>Only the links of the free list differ, and nothing at the addresses \<open>K\<close>.\<close>

definition links_only :: "nat set \<Rightarrow> mm_heap \<Rightarrow> mm_heap \<Rightarrow> bool" where
  "links_only K h h' \<longleftrightarrow>
     h' = h\<lparr>nflink := nflink h', nblink := nblink h', dflink := dflink h', hdata := hdata h'\<rparr> \<and>
     (\<forall>x \<in> K. dflink h' x = dflink h x \<and> hdata h' x = hdata h x)"

lemma links_onlyD:
  assumes "links_only K h h'"
  shows "nsize h' = nsize h" "npreceding h' = npreceding h"
    "mm_heapstart h' = mm_heapstart h" "mm_heapend h' = mm_heapend h"
    "mm_heapsize h' = mm_heapsize h" "mm_delaylist h' = mm_delaylist h"
    "mm_semcount h' = mm_semcount h" "mm_holder h' = mm_holder h"
    "mm_counts_held h' = mm_counts_held h" "mm_nodelist h' = mm_nodelist h"
    "x \<in> K \<Longrightarrow> dflink h' x = dflink h x" "x \<in> K \<Longrightarrow> hdata h' x = hdata h x"
proof -
  obtain f b d m where "h' = h\<lparr>nflink := f, nblink := b, dflink := d, hdata := m\<rparr>"
    using assms unfolding links_only_def by blast
  then show "nsize h' = nsize h" "npreceding h' = npreceding h"
    "mm_heapstart h' = mm_heapstart h" "mm_heapend h' = mm_heapend h"
    "mm_heapsize h' = mm_heapsize h" "mm_delaylist h' = mm_delaylist h"
    "mm_semcount h' = mm_semcount h" "mm_holder h' = mm_holder h"
    "mm_counts_held h' = mm_counts_held h" "mm_nodelist h' = mm_nodelist h" by simp_all
qed (use assms in \<open>simp_all add: links_only_def\<close>)

lemma links_only_refl: "links_only K h h"
  by (simp add: links_only_def)

lemma links_only_set:
  assumes "links_only K h g" "case n of NL i \<Rightarrow> True | Nd a \<Rightarrow> clear K a 16"
  shows "links_only K h (set_nflink n v g)" "links_only K h (set_nblink n v g)"
proof -
  obtain f b d m where g: "g = h\<lparr>nflink := f, nblink := b, dflink := d, hdata := m\<rparr>"
    using assms(1) unfolding links_only_def by blast
  have "case n of NL i \<Rightarrow> True | Nd a \<Rightarrow> clear K (a + 8) 4 \<and> clear K (a + 12) 4"
    using assms(2) by (cases n) (auto elim: clear_part)
  then have "node_word n 8 w (hdata g) x = hdata g x" "node_word n 12 w (hdata g) x = hdata g x"
    if "x \<in> K" for x w
    using that by (auto intro!: node_word_outside split: nodep.splits)
  moreover have "dflink (set_nflink n v g) x = dflink g x" if "x \<in> K" for x
    using that assms(2) by (cases n) (auto simp: set_nflink_def dest: clearD)
  ultimately show "links_only K h (set_nflink n v g)" "links_only K h (set_nblink n v g)"
    using assms(1) g by (auto simp: links_only_def set_nflink_def set_nblink_def)
qed

lemma set_links [simp]:
  "nflink (set_nflink n v h) = (nflink h)(n := v)" "nblink (set_nflink n v h) = nblink h"
  "nsize (set_nflink n v h) = nsize h"
  "nblink (set_nblink n v h) = (nblink h)(n := v)" "nflink (set_nblink n v h) = nflink h"
  "nsize (set_nblink n v h) = nsize h"
  by (simp_all add: set_nflink_def set_nblink_def)

lemma fkey_NL_less: "fkey S (NL i) < fkey S (NL j) \<longleftrightarrow> i < j"
proof -
  have "2 * x - 1 < 2 * y - 1 \<longleftrightarrow> x < y" if "0 < x" "0 < y" for x y :: nat
    using that by linarith
  then have "fkey S (NL i) < fkey S (NL j) \<longleftrightarrow> (2::nat) ^ (i + 4) < 2 ^ (j + 4)"
    by (simp add: fkey_def del: power_strict_increasing_iff)
  then show ?thesis by simp
qed

lemma flist_cong:
  assumes "flist h fl F" "nflink h' = nflink h" "nblink h' = nblink h"
    and "\<And>i. i < MM_NNODES \<Longrightarrow> nsize h' (NL i) = nsize h (NL i)"
    and "\<And>a. a \<in> F \<Longrightarrow> nsize h' (Nd a) = nsize h (Nd a)"
  shows "flist h' fl F"
proof -
  have "set fl = NL ` {..<MM_NNODES} \<union> Nd ` F" using assms(1) by (simp add: flist_def)
  then have "map (fkey (nsize h')) fl = map (fkey (nsize h)) fl"
    using assms(5) by (intro map_cong) (auto simp: fkey_def)
  moreover have "sorted (map (fkey (nsize h)) fl)" using assms(1) by (simp add: flist_def)
  ultimately have "sorted (map (fkey (nsize h')) fl)" by (simp only:)
  then show ?thesis using assms unfolding flist_def by simp
qed

lemma flistD:
  assumes "flist h fl F"
  shows "path (nflink h) (Some (NL 0)) fl None" "path (nblink h) (last_opt fl) (rev fl) None"
    "set fl = NL ` {..<MM_NNODES} \<union> Nd ` F" "sorted (map (fkey (nsize h)) fl)"
    "distinct fl" "i < MM_NNODES \<Longrightarrow> nsize h (NL i) = 0" "a \<in> F \<Longrightarrow> 16 \<le> nsize h (Nd a)"
  using assms path_distinct unfolding flist_def by blast+

lemma mm_unlink_flist:
  assumes "flist h fl F" "a \<in> F" and K: "\<And>f. f \<in> F \<Longrightarrow> clear K f 16"
  shows "\<exists>h' fl'. mm_unlink (Nd a) h = Some h' \<and> flist h' fl' (F - {a}) \<and> links_only K h h'"
proof -
  note D = flistD [OF assms(1)]
  have "Nd a \<in> set fl" using D(3) assms(2) by blast
  then obtain us vs where fl: "fl = us @ Nd a # vs" by (metis in_set_conv_decomp)
  have "us \<noteq> []" using D(1) fl by (cases us) auto
  then obtain us' b where us: "us = us' @ [b]" by (metis rev_exhaust)
  have fl2: "fl = us' @ b # Nd a # vs" using fl us by simp
  have rfl: "rev fl = rev vs @ Nd a # b # rev us'" using fl2 by simp
  have bl: "nblink h (Nd a) = Some b" using path_next [OF D(2) [unfolded rfl]] by simp
  have fln: "nflink h (Nd a) = hd_opt vs" using path_next [OF D(1) [unfolded fl]] by simp
  have d: "Nd a \<noteq> b" "b \<notin> set us'" "b \<notin> set vs" "Nd a \<notin> set us'" "Nd a \<notin> set vs"
    "set us' \<inter> set vs = {}" "distinct vs" using D(5) fl2 by auto
  have "set (us' @ b # vs) = set fl - {Nd a}" using fl2 d by auto
  then have st: "set (us' @ b # vs) = NL ` {..<MM_NNODES} \<union> Nd ` (F - {a})" using D(3) by auto
  have srt: "sorted (map (fkey (nsize h)) (us' @ b # vs))"
    using D(4) fl2 by (simp add: sorted_append)
  have fwd: "path ((nflink h)(b := hd_opt vs)) (Some (NL 0)) (us' @ b # vs) None"
    using path_splice_out [OF D(1) [unfolded fl2] d(2,3)] d(1) fln by metis
  have base: "flist g (us' @ b # vs) (F - {a})"
    if "path (nblink g) (last_opt (us' @ b # vs)) (rev (us' @ b # vs)) None"
      "nflink g = (nflink h)(b := hd_opt vs)" "nsize g = nsize h" for g
    using assms(1) fwd st srt that unfolding flist_def by (simp del: path_append)
  have K16: "case n of NL i \<Rightarrow> True | Nd c \<Rightarrow> clear K c 16" if "n \<in> set fl" for n
    using that D(3) K by (auto split: nodep.splits)
  have b16: "case b of NL i \<Rightarrow> True | Nd c \<Rightarrow> clear K c 16" using K16 fl2 by simp
  note lo = links_only_set [OF links_only_refl b16]
  show ?thesis
  proof (cases vs)
    case Nil
    have "nblink h (Nd a) = Some b" by (rule bl)
    then have "path (nblink h) (last_opt (us' @ [b])) (rev (us' @ [b])) None"
      using D(2) fl2 Nil by simp
    then have "flist (set_nflink b None h) (us' @ [b]) (F - {a})"
      using base [of "set_nflink b None h"] Nil by (simp del: path_append)
    moreover have "mm_unlink (Nd a) h = Some (set_nflink b None h)"
      using bl fln Nil d by (simp add: mm_unlink_def Let_def)
    ultimately show ?thesis using lo(1) by (intro exI conjI) assumption+
  next
    case (Cons n vs')
    have n: "n \<noteq> b" "n \<noteq> Nd a" "n \<notin> set vs'" "n \<notin> set us'" using d Cons by auto
    let ?h' = "set_nblink n (Some b) (set_nflink b (Some n) h)"
    have r: "rev fl = rev vs' @ n # Nd a # b # rev us'" using rfl Cons by simp
    have "path ((nblink h)(n := Some b)) (last_opt fl) (rev vs' @ n # b # rev us') None"
      using path_splice_out [OF D(2) [unfolded r]] n bl by simp
    then have "flist ?h' (us' @ b # vs) (F - {a})"
      using base [of ?h'] fl2 Cons by (simp del: path_append)
    moreover have "mm_unlink (Nd a) h = Some ?h'"
      using bl fln Cons d by (simp add: mm_unlink_def Let_def)
    moreover have "links_only K h ?h'"
      by (rule links_only_set(2) [OF lo(1)]) (use K16 [of n] fl2 Cons in simp)
    ultimately show ?thesis by (intro exI conjI) assumption+
  qed
qed

lemma mm_findslot_path:
  assumes "path (nflink h) next zs None"
  shows "mm_findslot h sz prev next =
    Some (last (prev # takeWhile (\<lambda>n. nsize h n \<noteq> 0 \<and> nsize h n < sz) zs),
          hd_opt (dropWhile (\<lambda>n. nsize h n \<noteq> 0 \<and> nsize h n < sz) zs))"
  using assms
proof (induction zs arbitrary: prev "next")
  case Nil
  then show ?case by (simp add: mm_findslot.simps)
next
  case (Cons n zs)
  then have "next = Some n" "path (nflink h) (nflink h n) zs None" by auto
  then show ?case using Cons.IH [of "nflink h n" n] by (subst mm_findslot.simps) simp
qed

text \<open>Where a chunk of size \<open>s\<close> goes: behind keys that are smaller, before keys that are not.\<close>

lemma flist_slot:
  assumes "flist h (us @ NL ndx # vs) F" "ndx = mm_size2ndx s" "16 \<le> s"
    and P: "P = (\<lambda>n. nsize h n \<noteq> 0 \<and> nsize h n < s)"
  shows "n \<in> set (us @ NL ndx # takeWhile P vs) \<Longrightarrow> fkey (nsize h) n \<le> 2 * s"
    and "n \<in> set (dropWhile P vs) \<Longrightarrow> 2 * s \<le> fkey (nsize h) n"
proof -
  note D = flistD [OF assms(1)]
  note ix = mm_size2ndx_spec [OF assms(3), folded assms(2)]
  have srt: "sorted (map (fkey (nsize h)) us @ fkey (nsize h) (NL ndx) # map (fkey (nsize h)) vs)"
    using D(4) by simp
  have k: "fkey (nsize h) (NL ndx) \<le> 2 * s" using ix(2) by (simp add: fkey_def)
  have us: "fkey (nsize h) n \<le> fkey (nsize h) (NL ndx)" if "n \<in> set us" for n
    using srt that by (auto simp: sorted_append)
  have tw: "fkey (nsize h) n \<le> 2 * s" if "n \<in> set (takeWhile P vs)" for n
  proof -
    have n: "P n" "n \<in> set (us @ NL ndx # vs)" using that by (auto dest: set_takeWhileD)
    show ?thesis
    proof (cases n)
      case (NL i)
      then have "i < MM_NNODES" using n(2) unfolding D(3) by auto
      then show ?thesis using D(6) n(1) NL P by simp
    next
      case (Nd b)
      then show ?thesis using n(1) P by (simp add: fkey_def)
    qed
  qed
  show "n \<in> set (us @ NL ndx # takeWhile P vs) \<Longrightarrow> fkey (nsize h) n \<le> 2 * s"
    using k us tw by fastforce
  show "2 * s \<le> fkey (nsize h) n" if n: "n \<in> set (dropWhile P vs)"
  proof -
    obtain z zs where z: "dropWhile P vs = z # zs" using n by (cases "dropWhile P vs") auto
    have vs: "vs = takeWhile P vs @ z # zs" using z by (metis takeWhile_dropWhile_id)
    have np: "\<not> P z" using z by (metis hd_dropWhile list.sel(1) list.distinct(1))
    have zin: "z \<in> set vs" using vs by (metis in_set_conv_decomp)
    have "2 * s \<le> fkey (nsize h) z"
    proof (cases z)
      case (NL j)
      have "j < MM_NNODES" using D(3) zin NL by auto
      have "fkey (nsize h) (NL ndx) \<le> fkey (nsize h) z" using srt zin by (simp add: sorted_append)
      moreover have "j \<noteq> ndx" using D(5) zin NL by auto
      ultimately have "ndx < j" using NL fkey_NL_less [of "nsize h" j ndx] by simp
      then have "s < 2 ^ (ndx + 5)" using ix(3) \<open>j < MM_NNODES\<close> by simp
      moreover have "(2::nat) ^ (ndx + 5) \<le> 2 ^ (j + 4)"
        using \<open>ndx < j\<close> by (intro power_increasing) auto
      ultimately have "s < 2 ^ (j + 4)" by (rule less_le_trans)
      then have "2 * s \<le> 2 * 2 ^ (j + 4) - 1" by linarith
      then show ?thesis using NL by (simp add: fkey_def)
    next
      case (Nd b)
      then have "b \<in> F" using D(3) zin by auto
      then show ?thesis using np Nd D(7) [of b] P by (auto simp: fkey_def)
    qed
    moreover have "sorted (map (fkey (nsize h)) (takeWhile P vs) @ fkey (nsize h) z # map (fkey (nsize h)) zs)"
      using srt vs by (metis map_append list.simps(9) sorted_append sorted_simps(2))
    ultimately show ?thesis using n z by (auto simp: sorted_append)
  qed
qed

lemma mm_addfreechunk_flist:
  assumes fl: "flist h fl F" and "a \<notin> F" and s: "16 \<le> nsize h (Nd a)"
    and K: "\<And>f. f \<in> insert a F \<Longrightarrow> clear K f 16"
  shows "\<exists>h' fl'. mm_addfreechunk (Nd a) h = Some h' \<and> flist h' fl' (insert a F) \<and> links_only K h h'"
proof -
  note D = flistD [OF fl]
  define s where "s = nsize h (Nd a)"
  define ndx where "ndx = mm_size2ndx s"
  define P where "P = (\<lambda>n. nsize h n \<noteq> 0 \<and> nsize h n < s)"
  have "ndx < MM_NNODES" using mm_size2ndx_spec(1) s by (simp add: ndx_def s_def)
  then obtain us vs where split: "fl = us @ NL ndx # vs"
    using D(3) by (metis UnI1 imageI in_set_conv_decomp lessThan_iff)
  define ws where "ws = us @ NL ndx # takeWhile P vs"
  define zs where "zs = dropWhile P vs"
  have wz: "fl = ws @ zs" using split by (simp add: ws_def zs_def)
  obtain ws' p where p: "ws = ws' @ [p]" using ws_def by (metis append_is_Nil_conv list.distinct(1) rev_exhaust)
  have fl3: "fl = ws' @ p # zs" using wz p by simp
  have na: "Nd a \<notin> set fl" using D(3) assms(2) by auto
  have d: "p \<notin> set ws'" "p \<notin> set zs" "set ws' \<inter> set zs = {}" "distinct zs" "p \<noteq> Nd a"
    using D(5) na fl3 by auto
  have slot: "mm_findslot h s (NL ndx) (nflink h (NL ndx)) = Some (p, hd_opt zs)"
  proof -
    have "path (nflink h) (nflink h (NL ndx)) vs None" using D(1) split by auto
    from mm_findslot_path [OF this, of s "NL ndx"] have
      "mm_findslot h s (NL ndx) (nflink h (NL ndx)) = Some (last (NL ndx # takeWhile P vs), hd_opt zs)"
      by (simp add: P_def zs_def)
    moreover have "last (NL ndx # takeWhile P vs) = p" using p ws_def by (metis last_appendR last_snoc list.distinct(1))
    ultimately show ?thesis by simp
  qed
  have keys: "fkey (nsize h) (Nd a) = 2 * s" by (simp add: fkey_def s_def)
  note sl = flist_slot [OF fl [unfolded split] ndx_def s [folded s_def] P_def, folded ws_def zs_def]
  have srt: "sorted (map (fkey (nsize h)) (ws @ Nd a # zs))"
    using D(4) sl keys unfolding wz by (fastforce simp: sorted_append)
  have st: "set (ws @ Nd a # zs) = NL ` {..<MM_NNODES} \<union> Nd ` insert a F"
    using D(3) unfolding wz by auto
  have nzs: "nflink h p = hd_opt zs" using path_next [OF D(1) [unfolded fl3]] .
  have fwd: "path ((nflink h)(Nd a := hd_opt zs, p := Some (Nd a))) (Some (NL 0)) (ws @ Nd a # zs) None"
    using path_splice_in [OF D(1) [unfolded fl3], of "Nd a"] na d nzs fl3 p by simp
  have base: "flist g (ws @ Nd a # zs) (insert a F)"
    if "path (nblink g) (last_opt (ws @ Nd a # zs)) (rev (ws @ Nd a # zs)) None"
      "nflink g = (nflink h)(Nd a := hd_opt zs, p := Some (Nd a))" "nsize g = nsize h" for g
    using fl fwd st srt that s unfolding flist_def by (simp del: path_append)
  note add = mm_addfreechunk_def s_def [symmetric] ndx_def [symmetric]
  have K16: "case n of NL i \<Rightarrow> True | Nd c \<Rightarrow> clear K c 16" if "n \<in> insert (Nd a) (set fl)" for n
    using that D(3) K by (auto split: nodep.splits)
  have a16: "case Nd a of NL i \<Rightarrow> True | Nd c \<Rightarrow> clear K c 16" by (rule K16) simp
  have p16: "case p of NL i \<Rightarrow> True | Nd c \<Rightarrow> clear K c 16" by (rule K16) (simp add: fl3)
  define g3 where "g3 = set_nflink (Nd a) (hd_opt zs) (set_nblink (Nd a) (Some p) (set_nflink p (Some (Nd a)) h))"
  have g3: "nflink g3 = (nflink h)(Nd a := hd_opt zs, p := Some (Nd a))"
    "nblink g3 = (nblink h)(Nd a := Some p)" "nsize g3 = nsize h"
    using d(5) by (auto simp: g3_def fun_upd_twist)
  have lo: "links_only K h g3"
    unfolding g3_def by (intro links_only_set(1) links_only_set(2) links_only_refl a16 p16)
  show ?thesis
  proof (cases zs)
    case Nil
    let ?B = "(nblink h)(Nd a := Some p)"
    have "path ?B (Some (Nd a)) (Nd a # rev fl) None"
      using D(2) na fl3 Nil d(5) by auto
    then have "path ?B (last_opt (ws @ Nd a # zs)) (rev (ws @ Nd a # zs)) None"
      using Nil fl3 p by simp
    then have "flist g3 (ws @ Nd a # zs) (insert a F)" by (intro base) (simp_all add: g3)
    moreover have "mm_addfreechunk (Nd a) h = Some g3"
      using slot Nil by (simp add: add Let_def g3_def)
    ultimately show ?thesis using lo by (intro exI conjI) assumption+
  next
    case (Cons z zs')
    let ?B = "(nblink h)(Nd a := Some p, z := Some (Nd a))"
    have z: "z \<noteq> p" "z \<noteq> Nd a" "z \<notin> set zs'" "z \<notin> set ws'" using d na fl3 Cons by auto
    have r: "rev fl = rev zs' @ z # p # rev ws'" using fl3 Cons by simp
    have "nblink h z = Some p" using path_next [OF D(2) [unfolded r]] by simp
    then have "path ?B (last_opt fl) (rev zs' @ z # Nd a # p # rev ws') None"
      using path_splice_in [OF D(2) [unfolded r], of "Nd a"] na z fl3 Cons by (simp add: fun_upd_twist)
    then have "path ?B (last_opt (ws @ Nd a # zs)) (rev (ws @ Nd a # zs)) None"
      using Cons fl3 p by simp
    then have "flist (set_nblink z (Some (Nd a)) g3) (ws @ Nd a # zs) (insert a F)"
      by (intro base) (simp_all add: g3)
    moreover have "mm_addfreechunk (Nd a) h = Some (set_nblink z (Some (Nd a)) g3)"
      using slot Cons by (simp add: add Let_def g3_def)
    moreover have "links_only K h (set_nblink z (Some (Nd a)) g3)"
      by (rule links_only_set(2) [OF lo]) (use K16 [of z] fl3 Cons in simp)
    ultimately show ?thesis by (intro exI conjI) assumption+
  qed
qed

end
