(* ===== verification/MM_Correct.thy ===== *)
theory MM_Correct
  imports MM_Inv
begin

text \<open>
  Correctness of the heap manager: the heap invariant and what allocation and release do to the
  list of chunks that represents the heap.
\<close>

section \<open>The search for a chunk\<close>

lemma mm_findfit_path:
  assumes "path (nflink h) next zs None"
  shows "mm_findfit h sz next = Some (hd_opt (dropWhile (\<lambda>n. nsize h n < sz) zs))"
  using assms
proof (induction zs arbitrary: "next")
  case Nil
  then show ?case by (simp add: mm_findfit.simps)
next
  case (Cons n zs)
  then have "next = Some n" "path (nflink h) (nflink h n) zs None" by auto
  then show ?case using Cons.IH [of "nflink h n"] by (subst mm_findfit.simps) simp
qed

text \<open>The search returns the smallest free chunk that is large enough, NULL when there is none.\<close>

lemma mm_findfit_best:
  assumes fl: "flist h fl F" and sz: "16 \<le> sz"
  shows "(mm_findfit h sz (nflink h (NL (mm_size2ndx sz))) = Some None \<and>
            (\<forall>b \<in> F. nsize h (Nd b) < sz)) \<or>
         (\<exists>a \<in> F. mm_findfit h sz (nflink h (NL (mm_size2ndx sz))) = Some (Some (Nd a)) \<and>
            sz \<le> nsize h (Nd a) \<and>
            (\<forall>b \<in> F. sz \<le> nsize h (Nd b) \<longrightarrow> nsize h (Nd a) \<le> nsize h (Nd b)))"
proof -
  note D = flistD [OF fl]
  define ndx where "ndx = mm_size2ndx sz"
  define P where "P = (\<lambda>n. nsize h n < sz)"
  note ix = mm_size2ndx_spec [OF sz, folded ndx_def]
  obtain us vs where split: "fl = us @ NL ndx # vs"
    using D(3) ix(1) by (metis UnI1 imageI in_set_conv_decomp lessThan_iff)
  have srt: "sorted (map (fkey (nsize h)) us @ fkey (nsize h) (NL ndx) # map (fkey (nsize h)) vs)"
    using D(4) split by simp
  have small: "nsize h n < sz" if "n \<in> set us" for n
  proof -
    have "fkey (nsize h) n \<le> fkey (nsize h) (NL ndx)" using srt that by (auto simp: sorted_append)
    moreover have "n \<in> set fl" using that split by simp
    ultimately show ?thesis using ix(2) D(3,6) sz by (cases n) (auto simp: fkey_def)
  qed
  have r: "mm_findfit h sz (nflink h (NL ndx)) = Some (hd_opt (dropWhile P vs))"
    using mm_findfit_path [of h "nflink h (NL ndx)" vs sz] D(1) split by (auto simp: P_def)
  have inv: "Nd b \<in> set us \<union> set vs" if "b \<in> F" for b
    using D(3) that split by auto
  show ?thesis
  proof (cases "dropWhile P vs")
    case Nil
    then have "\<forall>n \<in> set vs. P n" by (simp add: dropWhile_eq_Nil_conv)
    then have "\<forall>b \<in> F. nsize h (Nd b) < sz" using inv small P_def by blast
    then show ?thesis using r Nil ndx_def by simp
  next
    case (Cons z zs)
    have vs: "vs = takeWhile P vs @ z # zs" using Cons by (metis takeWhile_dropWhile_id)
    have nP: "sz \<le> nsize h z" using Cons P_def by (metis hd_dropWhile list.sel(1) list.distinct(1) not_less)
    have "z \<in> set fl" using vs split by (metis in_set_conv_decomp Un_iff set_append list.set_intros(2))
    then obtain a where a: "z = Nd a" "a \<in> F" using D(3,6) nP sz by fastforce
    have "nsize h (Nd a) \<le> nsize h (Nd b)" if b: "b \<in> F" "sz \<le> nsize h (Nd b)" for b
    proof -
      have "Nd b \<notin> set (takeWhile P vs)" using b(2) set_takeWhileD [of "Nd b" P vs] P_def by auto
      then have "Nd b \<in> set (z # zs)"
        using inv [OF b(1)] small [of "Nd b"] b(2) vs by (metis Un_iff not_less set_append)
      moreover have "sorted (map (fkey (nsize h)) (takeWhile P vs) @ map (fkey (nsize h)) (z # zs))"
        using srt vs by (metis map_append sorted_append sorted_simps(2))
      ultimately show ?thesis using a(1) by (auto simp: sorted_append fkey_def)
    qed
    then show ?thesis using r Cons a nP ndx_def by auto
  qed
qed

section \<open>The heap invariant\<close>

definition free_addrs :: "chunk list \<Rightarrow> nat set" where
  "free_addrs cs = {a. \<exists>s. (a, s, False) \<in> set cs}"

lemma free_addrs_simps [simp]:
  "free_addrs [] = {}" "free_addrs ((a, s, True) # cs) = free_addrs cs"
  "free_addrs ((a, s, False) # cs) = insert a (free_addrs cs)"
  "free_addrs (xs @ ys) = free_addrs xs \<union> free_addrs ys"
  by (auto simp: free_addrs_def)

text \<open>No two free chunks lie side by side.\<close>

fun coalesced :: "chunk list \<Rightarrow> bool" where
  "coalesced ((a, s, al) # (b, t, bl) # cs) \<longleftrightarrow> (al \<or> bl) \<and> coalesced ((b, t, bl) # cs)"
| "coalesced cs \<longleftrightarrow> True"

text \<open>Whether the chunk behind \<open>ys\<close>'s front is allocated; behind the last chunk lies the guard.\<close>

definition next_alloc :: "chunk list \<Rightarrow> bool" where
  "next_alloc ys = (case ys of [] \<Rightarrow> True | (_, _, al) # _ \<Rightarrow> al)"

definition prev_alloc :: "chunk list \<Rightarrow> bool" where
  "prev_alloc xs = (if xs = [] then True else snd (snd (last xs)))"

lemma next_alloc_simps [simp]: "next_alloc []" "next_alloc ((a, s, al) # ys) = al"
  by (simp_all add: next_alloc_def)

lemma prev_alloc_simps [simp]: "prev_alloc []" "prev_alloc (xs @ [(a, s, al)]) = al"
  by (simp_all add: prev_alloc_def)

lemma coalesced_Cons:
  "coalesced ((a, s, al) # ys) \<longleftrightarrow> coalesced ys \<and> (al \<or> next_alloc ys)"
  by (cases ys) (auto simp: next_alloc_def)

lemma coalesced_append:
  "coalesced (xs @ ys) \<longleftrightarrow> coalesced xs \<and> coalesced ys \<and> (prev_alloc xs \<or> next_alloc ys)"
proof (induction xs)
  case Nil
  then show ?case by simp
next
  case (Cons c xs)
  obtain a s al where c: "c = (a, s, al)" by (cases c)
  show ?case
  proof (cases xs)
    case Nil
    then show ?thesis using c by (simp add: coalesced_Cons prev_alloc_def)
  next
    case (Cons d xs')
    then have "next_alloc (xs @ ys) = next_alloc xs" "prev_alloc (c # xs) = prev_alloc xs"
      by (simp_all add: next_alloc_def prev_alloc_def)
    then show ?thesis using Cons.IH c by (auto simp: coalesced_Cons)
  qed
qed

definition heap_chunks :: "mm_heap \<Rightarrow> chunk list \<Rightarrow> chunk list" where
  "heap_chunks h cs =
     (mm_heapstart h, SIZEOF_MM_ALLOCNODE, True) # cs @ [(mm_heapend h, SIZEOF_MM_ALLOCNODE, True)]"

text \<open>
  \<open>heap_raw h cs F\<close>: the headers in memory describe the chunks \<open>cs\<close> and the free list holds the
  chunks at the addresses \<open>F\<close>.  Operations pass through such states; between operations the
  free list holds exactly the free chunks and no two of them are neighbours.
\<close>

definition heap_raw :: "mm_heap \<Rightarrow> chunk list \<Rightarrow> nat set \<Rightarrow> bool" where
  "heap_raw h cs F \<longleftrightarrow>
     layout (nsize h) (npreceding h) (mm_heapstart h) 0 (heap_chunks h cs) (mm_heapend h + 8) 8 \<and>
     16 dvd mm_heapstart h \<and> 0 < mm_heapstart h \<and>
     mm_heapend h + 8 < 2 ^ 32 \<and> mm_heapend h + 8 - mm_heapstart h < 2 ^ 31 \<and>
     sized cs \<and> (\<exists>fl. flist h fl F)"

definition heap_inv :: "mm_heap \<Rightarrow> chunk list \<Rightarrow> bool" where
  "heap_inv h cs \<longleftrightarrow> heap_raw h cs (free_addrs cs) \<and> coalesced cs"

text \<open>
  The heap seen from a run of chunks \<open>mid\<close>: it starts at address \<open>a\<close> behind a chunk of size
  \<open>p\<close>, ends at address \<open>b\<close>, and its last chunk has size \<open>m\<close>.
\<close>

definition heap_split ::
    "mm_heap \<Rightarrow> chunk list \<Rightarrow> chunk list \<Rightarrow> chunk list \<Rightarrow> nat \<Rightarrow> nat \<Rightarrow> nat \<Rightarrow> nat \<Rightarrow> bool" where
  "heap_split h xs mid ys a p b m \<longleftrightarrow>
     layout (nsize h) (npreceding h) (mm_heapstart h) 0 ((mm_heapstart h, 8, True) # xs) a p \<and>
     layout (nsize h) (npreceding h) a p mid b m \<and>
     layout (nsize h) (npreceding h) b m (ys @ [(mm_heapend h, 8, True)]) (mm_heapend h + 8) 8"

lemma heap_split_exists:
  assumes "heap_raw h (xs @ mid @ ys) F"
  shows "\<exists>a p b m. heap_split h xs mid ys a p b m"
proof -
  have "heap_chunks h (xs @ mid @ ys) =
      ((mm_heapstart h, 8, True) # xs) @ mid @ (ys @ [(mm_heapend h, 8, True)])"
    by (simp add: heap_chunks_def mm_consts)
  then have "layout (nsize h) (npreceding h) (mm_heapstart h) 0
      (((mm_heapstart h, 8, True) # xs) @ mid @ (ys @ [(mm_heapend h, 8, True)])) (mm_heapend h + 8) 8"
    using assms unfolding heap_raw_def by simp
  then show ?thesis unfolding heap_split_def layout_append [of _ _ _ _ "_ # _"] layout_append [of _ _ _ _ mid]
    by blast
qed

lemma layout_aligned: "layout S P a p cs e q \<Longrightarrow> sized cs \<Longrightarrow> e mod 16 = a mod 16"
proof (induction cs arbitrary: a p)
  case (Cons c cs)
  obtain b s al where c: "c = (b, s, al)" by (cases c)
  then have "e mod 16 = (a + s) mod 16" "16 dvd s" using Cons by auto
  then show ?case by (auto simp: mod_add_eq [symmetric] elim: dvdE)
qed simp

lemma layout_size_le: "layout S P a p cs e q \<Longrightarrow> cs \<noteq> [] \<Longrightarrow> q \<le> e - a"
proof (induction cs arbitrary: a p)
  case (Cons c cs)
  obtain b s al where c: "c = (b, s, al)" by (cases c)
  show ?case
  proof (cases cs)
    case Nil
    then show ?thesis using Cons.prems c by simp
  next
    case (Cons d ds)
    then have "q \<le> e - (a + s)" using Cons.IH [of "a + s" s] Cons.prems c by simp
    then show ?thesis by simp
  qed
qed simp

lemma heap_split_facts:
  assumes inv: "heap_raw h (xs @ mid @ ys) F" and split: "heap_split h xs mid ys a p b m"
  shows "mm_heapstart h + 8 \<le> a" "a \<le> b" "b \<le> mm_heapend h" "mm_heapend h + 8 < 2 ^ 32"
    and "b - mm_heapstart h < 2 ^ 31" "p < 2 ^ 31" "m < 2 ^ 31" "a mod 16 = 8"
    and "(c, s, al) \<in> set xs \<Longrightarrow> mm_heapstart h + 8 \<le> c \<and> c + s \<le> a \<and> 16 \<le> s"
    and "(c, s, al) \<in> set ys \<Longrightarrow> b \<le> c \<and> 16 \<le> s"
    and "npreceding h (Nd b) = m + af (next_alloc ys)" "0 < nsize h (Nd b)"
proof -
  note D = inv [unfolded heap_raw_def]
  have l: "layout (nsize h) (npreceding h) (mm_heapstart h) 0 ((mm_heapstart h, 8, True) # xs) a p"
    "layout (nsize h) (npreceding h) a p mid b m"
    "layout (nsize h) (npreceding h) b m (ys @ [(mm_heapend h, 8, True)]) (mm_heapend h + 8) 8"
    using split by (simp_all only: heap_split_def)
  have l1: "layout (nsize h) (npreceding h) (mm_heapstart h + 8) 8 xs a p" using l(1) by simp
  have l12: "layout (nsize h) (npreceding h) (mm_heapstart h) 0 ((mm_heapstart h, 8, True) # xs @ mid) b m"
    using l(1,2) by auto
  obtain q where l3: "layout (nsize h) (npreceding h) b m ys (mm_heapend h) q" using l(3) by auto
  have sz: "sized xs" "sized ys" using D by auto
  show le: "mm_heapstart h + 8 \<le> a" "a \<le> b" "b \<le> mm_heapend h"
    using layout_le [OF l1] layout_le [OF l(2)] layout_le [OF l3] .
  show "mm_heapend h + 8 < 2 ^ 32" using D by simp
  show b: "b - mm_heapstart h < 2 ^ 31" using D le by linarith
  have "p \<le> a - mm_heapstart h" "m \<le> b - mm_heapstart h"
    using layout_size_le [OF l(1)] layout_size_le [OF l12] by simp_all
  then show "p < 2 ^ 31" "m < 2 ^ 31" using b le by linarith+
  have "a mod 16 = (mm_heapstart h + 8) mod 16" by (rule layout_aligned [OF l1 sz(1)])
  moreover have "16 dvd mm_heapstart h" using D by blast
  ultimately show "a mod 16 = 8" by (auto elim!: dvdE)
  show "mm_heapstart h + 8 \<le> c \<and> c + s \<le> a \<and> 16 \<le> s" if "(c, s, al) \<in> set xs"
    using layout_in_range [OF l1 that] sz(1) that by (auto simp: sized_def)
  show "b \<le> c \<and> 16 \<le> s" if "(c, s, al) \<in> set ys"
    using layout_in_range [OF l3 that] sz(2) that by (auto simp: sized_def)
  show "npreceding h (Nd b) = m + af (next_alloc ys)" "0 < nsize h (Nd b)"
    using l(3) sz(2) by (cases ys; auto)+
qed

text \<open>
  The bytes of the allocated chunks behind their headers, and that a set of addresses lies apart
  from all headers and from the links of the free chunks.
\<close>

definition payload :: "chunk list \<Rightarrow> nat set" where
  "payload cs = {x. \<exists>a s. (a, s, True) \<in> set cs \<and> a + 8 \<le> x \<and> x < a + s}"

lemma payloadI: "(a, s, True) \<in> set cs \<Longrightarrow> a + 8 \<le> x \<Longrightarrow> x < a + s \<Longrightarrow> x \<in> payload cs"
  by (auto simp: payload_def)

lemma payload_append: "payload (xs @ ys) = payload xs \<union> payload ys"
  by (auto simp: payload_def)

lemma payload_free [simp]: "payload ((a, s, False) # ys) = payload ys"
  by (auto simp: payload_def)

lemma payload_cong: "(\<And>a s. (a, s, True) \<in> set cs \<longleftrightarrow> (a, s, True) \<in> set ds) \<Longrightarrow> payload cs = payload ds"
  by (simp add: payload_def)

lemma payload_mono: "set cs \<subseteq> set ds \<Longrightarrow> payload cs \<subseteq> payload ds"
  by (auto simp: payload_def)

lemma payload_shrink: "n \<le> s \<Longrightarrow> payload (xs @ (a, n, True) # ys) \<subseteq> payload (xs @ (a, s, True) # ys)"
  by (fastforce simp: payload_def)

lemma payload_without: "payload (xs @ ys) \<subseteq> payload (xs @ (a, s, True) # ys)"
  by (auto simp: payload_def)

definition apart :: "nat set \<Rightarrow> mm_heap \<Rightarrow> chunk list \<Rightarrow> bool" where
  "apart K h cs \<longleftrightarrow>
     (\<forall>(a, s, al) \<in> set (heap_chunks h cs). clear K a 8) \<and> (\<forall>a \<in> free_addrs cs. clear K a 16)"

lemma apartD:
  assumes "apart K h cs"
  shows "(a, s, al) \<in> set cs \<Longrightarrow> clear K a 8" "a \<in> free_addrs cs \<Longrightarrow> clear K a 16"
    "clear K (mm_heapend h) 8"
  using assms by (auto simp: apart_def heap_chunks_def)

lemma apart_sub:
  assumes "apart K h cs" "set ds \<subseteq> set cs" "mm_heapstart h' = mm_heapstart h" "mm_heapend h' = mm_heapend h"
  shows "apart K h' ds"
  using assms by (fastforce simp: apart_def heap_chunks_def free_addrs_def)

lemma apart_subset: "apart K h cs \<Longrightarrow> L \<subseteq> K \<Longrightarrow> apart L h cs"
  by (auto simp: apart_def intro: clear_subset)

lemma layout_ordered:
  assumes "layout S P u q cs e r" "(c, t, al) \<in> set cs" "(d, v, bl) \<in> set cs"
  shows "c + t \<le> d \<or> d + v \<le> c \<or> (c, t, al) = (d, v, bl)"
  using assms
proof (induction cs arbitrary: u q)
  case (Cons k cs)
  obtain k1 k2 k3 where k: "k = (k1, k2, k3)" by (cases k)
  then have L: "layout S P (u + k2) k2 cs e r" "k1 = u" using Cons.prems(1) by auto
  show ?case
    using Cons.IH [OF L(1)] Cons.prems(2,3) k L(2) layout_in_range [OF L(1)] by fastforce
qed simp

lemma apart_payload:
  assumes "heap_raw h cs F"
  shows "apart (payload cs) h cs"
proof -
  have sz: "8 \<le> s \<and> (\<not> al \<longrightarrow> 16 \<le> s)" if "(a, s, al) \<in> set (heap_chunks h cs)" for a s al
    using assms that by (auto simp: heap_raw_def heap_chunks_def sized_def mm_consts)
  have cl: "clear (payload cs) a (if al then 8 else 16)" if a: "(a, s, al) \<in> set (heap_chunks h cs)" for a s al
    unfolding clear_def payload_def
  proof clarify
    fix x b t assume x: "(b, t, True) \<in> set cs" "b + 8 \<le> x" "x < b + t" "\<not> a + (if al then 8 else 16) \<le> x"
    have "(b, t, True) \<in> set (heap_chunks h cs)" using x(1) by (simp add: heap_chunks_def)
    with assms a have "a + s \<le> b \<or> b + t \<le> a \<or> (a, s, al) = (b, t, True)"
      unfolding heap_raw_def by (blast dest: layout_ordered)
    then show "x < a" using x(2-4) sz [OF a] by (auto split: if_splits)
  qed
  have "clear (payload cs) a 8" if "(a, s, al) \<in> set (heap_chunks h cs)" for a s al
    using cl [OF that] by (rule clear_part) auto
  moreover have "clear (payload cs) a 16" if "a \<in> free_addrs cs" for a
    using cl [of a _ False] that by (auto simp: free_addrs_def heap_chunks_def)
  ultimately show ?thesis unfolding apart_def by auto
qed

lemma apart_run:
  assumes inv: "heap_raw h (xs @ mid @ ys) F" and split: "heap_split h xs mid ys a p b m"
    and new: "\<And>c t al. (c, t, al) \<in> set mid' \<Longrightarrow> a \<le> c \<and> 16 \<le> t \<and> c + t \<le> b"
  shows "apart (payload (xs @ ys)) h (xs @ mid' @ ys)" "clear (payload (xs @ ys)) b 8"
    "clear (payload (xs @ ys)) a (b - a)"
proof -
  have ap: "apart (payload (xs @ ys)) h (xs @ mid @ ys)"
    by (rule apart_subset [OF apart_payload [OF inv] payload_mono]) auto
  obtain t bl where "(b, t, bl) \<in> set (ys @ [(mm_heapend h, 8, True)])"
    using split by (cases ys) (auto simp: heap_split_def)
  then show b: "clear (payload (xs @ ys)) b 8" using apartD(1,3) [OF ap] by auto
  have out: "x < a \<or> b \<le> x" if "x \<in> payload (xs @ ys)" for x
    using that heap_split_facts(9,10) [OF inv split] by (fastforce simp: payload_def)
  then show "clear (payload (xs @ ys)) a (b - a)"
    using heap_split_facts(2) [OF inv split] by (fastforce simp: clear_def)
  from out have cl: "clear (payload (xs @ ys)) c 16" if "(c, t, al) \<in> set mid'" for c t al
    using new [OF that] by (fastforce simp: clear_def)
  have "clear (payload (xs @ ys)) c 8" if "(c, t, al) \<in> set mid'" for c t al
    by (rule clear_part [OF cl [OF that]]) auto
  then show "apart (payload (xs @ ys)) h (xs @ mid' @ ys)"
    using ap cl by (fastforce simp: apart_def heap_chunks_def free_addrs_def)
qed

lemma apart_next:
  assumes "heap_raw h (xs @ (a, s, al) # ys) F" "apart K h (xs @ (a, s, al) # ys)"
  shows "clear K (a + s) 8"
proof -
  obtain c p b m where "heap_split h xs [(a, s, al)] ys c p b m"
    using heap_split_exists [of h xs "[(a, s, al)]" ys F] assms(1) by auto
  then show ?thesis using assms(2) by (cases ys) (auto simp: heap_split_def apart_def heap_chunks_def)
qed

text \<open>Nothing but chunk headers differs, and nothing at the addresses \<open>K\<close>.\<close>

definition nodes_only :: "nat set \<Rightarrow> mm_heap \<Rightarrow> mm_heap \<Rightarrow> bool" where
  "nodes_only K h h' \<longleftrightarrow>
     (\<forall>x \<in> K. dflink h' x = dflink h x \<and> hdata h' x = hdata h x) \<and>
     mm_heapstart h' = mm_heapstart h \<and> mm_heapend h' = mm_heapend h \<and>
     mm_heapsize h' = mm_heapsize h \<and> mm_nodelist h' = mm_nodelist h \<and>
     mm_delaylist h' = mm_delaylist h \<and> mm_semcount h' = mm_semcount h \<and>
     mm_holder h' = mm_holder h \<and> mm_counts_held h' = mm_counts_held h"

lemma nodes_onlyD:
  assumes "nodes_only K h h'"
  shows "x \<in> K \<Longrightarrow> dflink h' x = dflink h x" "x \<in> K \<Longrightarrow> hdata h' x = hdata h x"
    "mm_heapstart h' = mm_heapstart h"
    "mm_heapend h' = mm_heapend h" "mm_heapsize h' = mm_heapsize h"
    "mm_delaylist h' = mm_delaylist h" "mm_semcount h' = mm_semcount h"
    "mm_holder h' = mm_holder h" "mm_counts_held h' = mm_counts_held h" "mm_nodelist h' = mm_nodelist h"
  using assms by (simp_all add: nodes_only_def)

lemma nodes_only_trans: "nodes_only K h h1 \<Longrightarrow> nodes_only K h1 h2 \<Longrightarrow> nodes_only K h h2"
  by (simp add: nodes_only_def)

lemma nodes_only_subset: "nodes_only K h h1 \<Longrightarrow> L \<subseteq> K \<Longrightarrow> nodes_only L h h1"
  by (auto simp: nodes_only_def)

lemma nodes_only_links: "links_only K h h1 \<Longrightarrow> nodes_only K h h1"
  by (simp add: nodes_only_def links_onlyD)

lemma nodes_only_refl [simp]: "nodes_only K h h"
  by (simp add: nodes_only_def)

lemma nodes_only_set [simp]:
  assumes "clear K a 8"
  shows "nodes_only K h (set_size (Nd a) v h1) \<longleftrightarrow> nodes_only K h h1"
    "nodes_only K h (set_preceding (Nd a) v h1) \<longleftrightarrow> nodes_only K h h1"
proof -
  have "clear K (a + 0) 4" "clear K (a + 4) 4" using assms by (auto elim: clear_part)
  then have "node_word (Nd a) 0 v m x = m x" "node_word (Nd a) 4 v m x = m x" if "x \<in> K" for x m
    using that by (auto intro: node_word_outside)
  then show "nodes_only K h (set_size (Nd a) v h1) \<longleftrightarrow> nodes_only K h h1"
    "nodes_only K h (set_preceding (Nd a) v h1) \<longleftrightarrow> nodes_only K h h1"
    by (auto simp: nodes_only_def set_size_def set_preceding_def)
qed

lemma set_fields [simp]:
  "nsize (set_size n v h) = (nsize h)(n := v)" "npreceding (set_size n v h) = npreceding h"
  "nsize (set_preceding n v h) = nsize h" "npreceding (set_preceding n v h) = (npreceding h)(n := v)"
  "nflink (set_size n v h) = nflink h" "nblink (set_size n v h) = nblink h"
  "nflink (set_preceding n v h) = nflink h" "nblink (set_preceding n v h) = nblink h"
  "mm_heapstart (set_size n v h) = mm_heapstart h" "mm_heapend (set_size n v h) = mm_heapend h"
  "mm_heapstart (set_preceding n v h) = mm_heapstart h"
  "mm_heapend (set_preceding n v h) = mm_heapend h"
  by (simp_all add: set_size_def set_preceding_def)

text \<open>Chunks replaced: the local change of headers that every operation amounts to.\<close>

lemma raw_replace:
  assumes inv: "heap_raw h (xs @ mid @ ys) F" and split: "heap_split h xs mid ys a p b m"
    and mid': "layout (nsize h') (npreceding h') a p mid' b r"
    and same: "\<And>x. x < a \<or> b < x \<Longrightarrow>
        nsize h' (Nd x) = nsize h (Nd x) \<and> npreceding h' (Nd x) = npreceding h (Nd x)"
    and "nsize h' (Nd b) = nsize h (Nd b)" "npreceding h' (Nd b) = r + af (next_alloc ys)"
    and ends: "mm_heapstart h' = mm_heapstart h" "mm_heapend h' = mm_heapend h"
    and "sized mid'" "nflink h' = nflink h" "nblink h' = nblink h"
    and fs: "\<And>i. nsize h' (NL i) = nsize h (NL i)" "\<And>x. x \<in> F \<Longrightarrow> nsize h' (Nd x) = nsize h (Nd x)"
  shows "heap_raw h' (xs @ mid' @ ys) F"
proof -
  note D = inv [unfolded heap_raw_def]
  note F = heap_split_facts [OF inv split]
  obtain t bl zs where z: "ys @ [(mm_heapend h, 8, True)] = (b, t, bl) # zs"
    using split unfolding heap_split_def by (cases ys) auto
  have bl: "bl = next_alloc ys" using z by (cases ys) auto
  have lz: "layout (nsize h) (npreceding h) b m ((b, t, bl) # zs) (mm_heapend h + 8) 8"
    using split z unfolding heap_split_def by simp
  have "0 < t" using lz F(12) by simp
  have "layout (nsize h) (npreceding h) (mm_heapstart h) 0
      (((mm_heapstart h, 8, True) # xs) @ mid @ (b, t, bl) # zs) (mm_heapend h + 8) 8"
    using split lz unfolding heap_split_def layout_append by blast
  then have "layout (nsize h') (npreceding h') (mm_heapstart h) 0
      (((mm_heapstart h, 8, True) # xs) @ mid' @ (b, t, bl) # zs) (mm_heapend h + 8) 8"
  proof (rule layout_replace [OF _ _ _ \<open>0 < t\<close> mid' same])
    show "layout (nsize h) (npreceding h) (mm_heapstart h) 0 ((mm_heapstart h, 8, True) # xs) a p"
      using split unfolding heap_split_def by blast
    show "\<forall>c\<in>set ((mm_heapstart h, 8, True) # xs). 0 < fst (snd c)"
      using F(9) by fastforce
  qed (use assms(5,6) bl in auto)
  moreover obtain fl where "flist h fl F" using D by blast
  then have "flist h' fl F" by (rule flist_cong) (use assms in auto)
  ultimately show ?thesis
    using D assms(9) ends unfolding heap_raw_def heap_chunks_def z [symmetric]
    by (auto simp: mm_consts simp del: layout_append)
qed

lemma raw_cong:
  assumes "heap_raw h cs F" "nsize h' = nsize h" "npreceding h' = npreceding h"
    "mm_heapstart h' = mm_heapstart h" "mm_heapend h' = mm_heapend h" "flist h' fl F'"
  shows "heap_raw h' cs F'"
  using assms unfolding heap_raw_def heap_chunks_def by auto

lemma raw_unlink:
  assumes "heap_raw h cs F" "a \<in> F" and K: "\<And>f. f \<in> F \<Longrightarrow> clear K f 16"
  shows "\<exists>h1. mm_unlink (Nd a) h = Some h1 \<and> heap_raw h1 cs (F - {a}) \<and> links_only K h h1"
proof -
  obtain fl where "flist h fl F" using assms(1) unfolding heap_raw_def by blast
  from mm_unlink_flist [OF this assms(2) K] obtain h1 fl1 where
    h1: "mm_unlink (Nd a) h = Some h1" "flist h1 fl1 (F - {a})" "links_only K h h1" by blast
  have "heap_raw h1 cs (F - {a})"
    by (rule raw_cong [OF assms(1) _ _ _ _ h1(2)]) (simp_all add: links_onlyD [OF h1(3)])
  then show ?thesis using h1 by blast
qed

lemma raw_size:
  assumes "heap_raw h cs F" "(a, s, al) \<in> set cs"
  shows "nsize h (Nd a) = s" "16 \<le> s" "16 dvd s"
proof -
  have "(a, s, al) \<in> set (heap_chunks h cs)" using assms(2) by (simp add: heap_chunks_def)
  then show "nsize h (Nd a) = s" 
    using assms(1) layout_fields unfolding heap_raw_def by blast
  show "16 \<le> s" "16 dvd s" using assms by (auto simp: heap_raw_def sized_def)
qed

lemma raw_addfree:
  assumes "heap_raw h cs F" "(a, s, al) \<in> set cs" "a \<notin> F"
    and K: "\<And>f. f \<in> insert a F \<Longrightarrow> clear K f 16"
  shows "\<exists>h1. mm_addfreechunk (Nd a) h = Some h1 \<and> heap_raw h1 cs (insert a F) \<and> links_only K h h1"
proof -
  obtain fl where "flist h fl F" using assms(1) unfolding heap_raw_def by blast
  moreover have "16 \<le> nsize h (Nd a)" using raw_size [OF assms(1,2)] by simp
  ultimately obtain h1 fl1 where
    h1: "mm_addfreechunk (Nd a) h = Some h1" "flist h1 fl1 (insert a F)" "links_only K h h1"
    using mm_addfreechunk_flist [OF _ assms(3) _ K] by blast
  have "heap_raw h1 cs (insert a F)"
    by (rule raw_cong [OF assms(1) _ _ _ _ h1(2)]) (simp_all add: links_onlyD [OF h1(3)])
  then show ?thesis using h1 by blast
qed

section \<open>Taking a chunk from the free list\<close>

definition take_chunk :: "nat \<Rightarrow> nat \<Rightarrow> nat \<Rightarrow> chunk list" where
  "take_chunk a s n = (if n < s then [(a, n, True), (a + n, s - n, False)] else [(a, s, True)])"

lemma dvd16_less: "16 dvd (n::nat) \<Longrightarrow> 16 dvd s \<Longrightarrow> n < s \<Longrightarrow> n + 16 \<le> s"
  by (auto elim!: dvdE)

lemma free_addrs_notin:
  assumes "heap_raw h (xs @ mid @ ys) F" "heap_split h xs mid ys a p b m" "a \<le> x" "x < b"
  shows "x \<notin> free_addrs xs" "x \<notin> free_addrs ys"
  using heap_split_facts(9,10) [OF assms(1,2)] assms(3,4)
  by (fastforce simp: free_addrs_def)+

text \<open>One chunk in the middle.\<close>

lemma heap_chunk:
  assumes inv: "heap_raw h (xs @ (a, s, al) # ys) F"
  obtains p where "heap_split h xs [(a, s, al)] ys a p (a + s) s"
    "nsize h (Nd a) = s" "npreceding h (Nd a) = p + af al" "p < 2 ^ 31" "s < 2 ^ 31"
    "npreceding h (Nd (a + s)) = s + af (next_alloc ys)" "16 \<le> s" "16 dvd s"
    "\<And>x. a \<le> x \<Longrightarrow> x < a + s \<Longrightarrow> x \<notin> free_addrs xs \<and> x \<notin> free_addrs ys"
    "a + s + 8 < 2 ^ 32" "a mod 16 = 8" "0 < a"
proof -
  have inv': "heap_raw h (xs @ [(a, s, al)] @ ys) F" using inv by simp
  obtain a' p b m where sp: "heap_split h xs [(a, s, al)] ys a' p b m"
    using heap_split_exists [OF inv'] by blast
  then have ab: "a' = a" "b = a + s" "m = s" "nsize h (Nd a) = s" "npreceding h (Nd a) = p + af al"
    by (auto simp: heap_split_def)
  note sp = sp [unfolded ab]
  note F = heap_split_facts [OF inv' sp]
  show ?thesis
    using that [OF sp ab(4,5) F(6,7,11)] raw_size [OF inv, of a s al] free_addrs_notin [OF inv' sp] F
    by auto
qed

text \<open>The header updates the operations are made of.\<close>

lemma raw_flag:
  assumes inv: "heap_raw h (xs @ (a, s, al) # ys) F"
    and g: "nsize g = nsize h" "npreceding g = (npreceding h)(Nd a := clear_alloc (npreceding h (Nd a)) + af al')"
      "mm_heapstart g = mm_heapstart h" "mm_heapend g = mm_heapend h"
      "nflink g = nflink h" "nblink g = nblink h"
  shows "heap_raw g (xs @ (a, s, al') # ys) F"
proof -
  obtain p where H: "heap_split h xs [(a, s, al)] ys a p (a + s) s"
    "nsize h (Nd a) = s" "npreceding h (Nd a) = p + af al" "p < 2 ^ 31" "s < 2 ^ 31"
    "npreceding h (Nd (a + s)) = s + af (next_alloc ys)" "16 \<le> s" "16 dvd s"
    using heap_chunk [OF inv] by metis
  have "heap_raw g (xs @ [(a, s, al')] @ ys) F"
    by (rule raw_replace [OF _ H(1)]) (use inv g H in auto)
  then show ?thesis by simp
qed

lemma raw_split_chunk:
  assumes inv: "heap_raw h (xs @ (a, s, al) # ys) F" and F: "a \<notin> F" "a + n \<notin> F"
    and n: "16 \<le> n" "16 dvd n" "n < s"
    and g: "nsize g = (nsize h)(Nd a := n, Nd (a + n) := s - n)"
      "npreceding g = (npreceding h)(Nd a := clear_alloc (npreceding h (Nd a)) + af al1,
         Nd (a + n) := n + af al2, Nd (a + s) := s - n + alloc_flag (npreceding h (Nd (a + s))))"
      "mm_heapstart g = mm_heapstart h" "mm_heapend g = mm_heapend h"
      "nflink g = nflink h" "nblink g = nblink h"
  shows "heap_raw g (xs @ (a, n, al1) # (a + n, s - n, al2) # ys) F"
proof -
  obtain p where H: "heap_split h xs [(a, s, al)] ys a p (a + s) s"
    "nsize h (Nd a) = s" "npreceding h (Nd a) = p + af al" "p < 2 ^ 31" "s < 2 ^ 31"
    "npreceding h (Nd (a + s)) = s + af (next_alloc ys)" "16 \<le> s" "16 dvd s"
    using heap_chunk [OF inv] by metis
  have big: "16 \<le> s - n" using dvd16_less [OF n(2) H(8) n(3)] by simp
  have "heap_raw g (xs @ [(a, n, al1), (a + n, s - n, al2)] @ ys) F"
    by (rule raw_replace [OF _ H(1)]) (use inv F g H n big in \<open>auto simp: dvd_diff_nat\<close>)
  then show ?thesis by simp
qed

lemma raw_merge_chunk:
  assumes inv: "heap_raw h (xs @ (a, s, al) # (b, t, bl) # ys) F" and F: "a \<notin> F"
    and g: "nsize g = (nsize h)(Nd a := s + t)"
      "npreceding g = (npreceding h)(Nd (a + s + t) := s + t + alloc_flag (npreceding h (Nd (a + s + t))))"
      "mm_heapstart g = mm_heapstart h" "mm_heapend g = mm_heapend h"
      "nflink g = nflink h" "nblink g = nblink h"
  shows "b = a + s" "heap_raw g (xs @ (a, s + t, al) # ys) F"
proof -
  obtain p where H: "heap_split h xs [(a, s, al)] ((b, t, bl) # ys) a p (a + s) s"
    "nsize h (Nd a) = s" "npreceding h (Nd a) = p + af al" "p < 2 ^ 31" "16 \<le> s" "16 dvd s"
    using heap_chunk [OF inv] by metis
  show b: "b = a + s" using H(1) by (simp add: heap_split_def)
  have inv2: "heap_raw h ((xs @ [(a, s, al)]) @ (b, t, bl) # ys) F" using inv by simp
  obtain q where K: "nsize h (Nd b) = t" "t < 2 ^ 31" "16 \<le> t" "16 dvd t"
    "npreceding h (Nd (b + t)) = t + af (next_alloc ys)"
    using heap_chunk [OF inv2] by metis
  have sp: "heap_split h xs [(a, s, al), (b, t, bl)] ys a p (a + s + t) t"
    using H(1) by (auto simp: heap_split_def)
  have inv3: "heap_raw h (xs @ [(a, s, al), (b, t, bl)] @ ys) F" using inv by simp
  have "heap_raw g (xs @ [(a, s + t, al)] @ ys) F"
    by (rule raw_replace [OF inv3 sp]) (use F g H K b in \<open>auto simp: add.assoc\<close>)
  then show "heap_raw g (xs @ (a, s + t, al) # ys) F" by simp
qed

lemma heap_invD:
  assumes "heap_inv h cs"
  shows "heap_raw h cs (free_addrs cs)" "coalesced cs"
  using assms by (auto simp: heap_inv_def)

lemma mm_take_node_spec:
  assumes inv: "heap_inv h (xs @ (a, s, False) # ys)" and n: "16 \<le> n" "16 dvd n" "n \<le> s"
  shows "\<exists>h'. mm_take_node a n h = Some (a + 8, h') \<and>
           heap_inv h' (xs @ take_chunk a s n @ ys) \<and> nodes_only (payload (xs @ ys)) h h'"
proof -
  note raw = heap_invD(1) [OF inv]
  define K where "K = payload (xs @ ys)"
  obtain p where H: "nsize h (Nd a) = s" "npreceding h (Nd a) = p + af False" "p < 2 ^ 31" "s < 2 ^ 31"
    "npreceding h (Nd (a + s)) = s + af (next_alloc ys)" "16 \<le> s" "16 dvd s"
    "\<And>x. a \<le> x \<Longrightarrow> x < a + s \<Longrightarrow> x \<notin> free_addrs xs \<and> x \<notin> free_addrs ys"
    and sp: "heap_split h xs [(a, s, False)] ys a p (a + s) s"
    using heap_chunk [OF raw] by metis
  note ap = apart_run [of h xs "[(a, s, False)]" ys, OF _ sp, simplified, OF raw [simplified], folded K_def]
  define F where "F = free_addrs xs \<union> free_addrs ys"
  have nF: "x \<notin> F" if "a \<le> x" "x < a + s" for x using H(8) that by (simp add: F_def)
  have co: "coalesced (xs @ take_chunk a s n @ ys)"
    using heap_invD(2) [OF inv] by (auto simp: take_chunk_def coalesced_append coalesced_Cons)
  have "free_addrs (xs @ (a, s, False) # ys) - {a} = F" using nF [of a] H(6) by (auto simp: F_def)
  then obtain h1 where h1: "mm_unlink (Nd a) h = Some h1"
    and raw1: "heap_raw h1 (xs @ (a, s, False) # ys) F" and lo: "links_only K h h1"
    using raw_unlink [OF raw, of a K] apartD(2) [OF ap(1) [of "[(a, s, False)]"]] H(6) by auto
  note L = links_onlyD [OF lo] nodes_only_links [OF lo]
  show ?thesis
  proof (cases "n < s")
    case True
    have big: "16 \<le> s - n" using dvd16_less [OF n(2) H(7) True] by linarith
    define g4 where "g4 = set_preceding (Nd (a + s)) (s - n OR alloc_flag (npreceding h (Nd (a + s))))
      (set_size (Nd a) n (set_preceding (Nd (a + n)) n (set_size (Nd (a + n)) (s - n) h1)))"
    have raw4: "heap_raw g4 (xs @ (a, n, False) # (a + n, s - n, False) # ys) F"
      by (rule raw_split_chunk [OF raw1])
        (use n True nF H L big in \<open>auto simp: g4_def fun_upd_twist mm_flags fun_upd_idem_iff\<close>)
    have ap2: "apart K h (xs @ [(a, n, False), (a + n, s - n, False)] @ ys)"
      using big n by (intro ap(1)) auto
    have cl: "clear K a 8" "clear K (a + n) 8" "clear K (a + s) 8"
      using apartD(1) [OF ap2] ap(2) [of "[]"] by auto
    obtain h2 where
      h2: "mm_addfreechunk (Nd (a + n)) g4 = Some h2" and lo2: "links_only K g4 h2"
      and raw2: "heap_raw h2 (xs @ (a, n, False) # (a + n, s - n, False) # ys) (insert (a + n) F)"
      using raw_addfree [OF raw4, of "a + n" "s - n" False K] nF [of "a + n"] True apartD(2) [OF ap2]
      by (auto simp: F_def)
    note L2 = links_onlyD [OF lo2]
    define h3 where "h3 = set_preceding (Nd a) (npreceding h2 (Nd a) OR MM_ALLOC_BIT) h2"
    have "mm_take_node a n h = Some (a + 8, h3)"
      using h1 h2 big True n H L unfolding g4_def h3_def by (simp add: mm_take_node_def Let_def mm_consts)
    moreover have "nodes_only K h h3"
      using nodes_only_trans [OF _ nodes_only_links [OF lo2]] L cl by (simp add: g4_def h3_def)
    moreover have "heap_raw h3 (xs @ (a, n, True) # (a + n, s - n, False) # ys) (insert (a + n) F)"
      by (rule raw_flag [OF raw2]) (use n True H L L2 in
          \<open>auto simp: h3_def g4_def mm_flags\<close>)
    moreover have "insert (a + n) F = free_addrs (xs @ take_chunk a s n @ ys)"
      using True by (auto simp: F_def take_chunk_def)
    ultimately show ?thesis using co True by (auto simp: heap_inv_def take_chunk_def K_def)
  next
    case False
    then have sn: "n = s" using n by simp
    define h3 where "h3 = set_preceding (Nd a) (npreceding h1 (Nd a) OR MM_ALLOC_BIT) h1"
    have "mm_take_node a n h = Some (a + 8, h3)"
      using h1 sn H L by (simp add: mm_take_node_def Let_def mm_consts h3_def)
    moreover have "nodes_only K h h3"
      using L apartD(1) [OF ap(1) [of "[(a, s, False)]"], of a s False] H(6) by (simp add: h3_def)
    moreover have "heap_raw h3 (xs @ (a, s, True) # ys) F"
      by (rule raw_flag [OF raw1]) (use H L in
          \<open>auto simp: h3_def mm_flags\<close>)
    moreover have "F = free_addrs (xs @ take_chunk a s n @ ys)"
      using sn by (auto simp: F_def take_chunk_def)
    ultimately show ?thesis using co sn by (auto simp: heap_inv_def take_chunk_def K_def)
  qed
qed

section \<open>Giving a chunk back\<close>

text \<open>The chunk list with neighbouring free chunks joined.\<close>

fun coalesce :: "chunk list \<Rightarrow> chunk list" where
  "coalesce ((a, s, False) # (b, t, False) # cs) = coalesce ((a, s + t, False) # cs)"
| "coalesce (c # cs) = c # coalesce cs"
| "coalesce [] = []"

lemmas coalesce_induct = coalesce.induct [case_names merge allocated single blocked empty]

lemma coalesce_id: "coalesced cs \<Longrightarrow> coalesce cs = cs"
  by (induction cs rule: coalesce_induct) (auto simp: coalesced_Cons)

lemma coalesce_merge:
  "coalesce (xs @ (a, s, False) # (b, t, False) # ys) = coalesce (xs @ (a, s + t, False) # ys)"
proof (induction xs rule: coalesce_induct)
  case (single c)
  obtain x y f where "c = (x, y, f)" by (cases c)
  then show ?case by (cases f) (simp_all add: add.assoc)
qed auto

text \<open>Releasing the chunk at \<open>a\<close>, stepwise.\<close>

lemma mm_free_next_spec:
  assumes raw: "heap_raw h (xs @ (a, s, False) # ys) (free_addrs xs \<union> free_addrs ys)"
    and co: "coalesced ys" and K: "apart K h (xs @ (a, s, False) # ys)"
  shows "\<exists>h' s' ys'. mm_free_next a h = Some (a + s', h') \<and>
           heap_raw h' (xs @ (a, s', False) # ys') (free_addrs xs \<union> free_addrs ys') \<and>
           next_alloc ys' \<and> coalesced ys' \<and> nodes_only K h h' \<and> apart K h' (xs @ (a, s', False) # ys') \<and>
           coalesce (xs @ (a, s', False) # ys') = coalesce (xs @ (a, s, False) # ys)"
proof -
  obtain p where H: "heap_split h xs [(a, s, False)] ys a p (a + s) s"
    "nsize h (Nd a) = s" "npreceding h (Nd (a + s)) = s + af (next_alloc ys)" "16 \<le> s" "s < 2 ^ 31"
    "\<And>x. a \<le> x \<Longrightarrow> x < a + s \<Longrightarrow> x \<notin> free_addrs xs \<and> x \<notin> free_addrs ys"
    using heap_chunk [OF raw] by metis
  show ?thesis
  proof (cases "next_alloc ys")
    case True
    then have "mm_free_next a h = Some (a + s, h)" using H by (simp add: mm_free_next_def)
    then show ?thesis using raw True co K nodes_only_refl by blast
  next
    case False
    then obtain b t ys' where ys: "ys = (b, t, False) # ys'" by (cases ys) auto
    have b: "b = a + s" using H(1) ys by (simp add: heap_split_def)
    have raw2: "heap_raw h ((xs @ [(a, s, False)]) @ (b, t, False) # ys') (free_addrs xs \<union> free_addrs ys)"
      using raw ys by simp
    obtain q where T: "nsize h (Nd b) = t" "16 \<le> t" "t < 2 ^ 31"
      "npreceding h (Nd (b + t)) = t + af (next_alloc ys')"
      "\<And>x. b \<le> x \<Longrightarrow> x < b + t \<Longrightarrow> x \<notin> free_addrs (xs @ [(a, s, False)]) \<and> x \<notin> free_addrs ys'"
      using heap_chunk [OF raw2] by metis
    have F: "free_addrs xs \<union> free_addrs ys - {b} = free_addrs xs \<union> free_addrs ys'"
      using T(5) [of b] T(2) ys by auto
    obtain h1 where h1: "mm_unlink (Nd b) h = Some h1" "links_only K h h1"
      and raw1: "heap_raw h1 (xs @ (a, s, False) # (b, t, False) # ys') (free_addrs xs \<union> free_addrs ys')"
      using raw_unlink [OF raw, of b K] apartD(2) [OF K] ys F by auto
    note L = links_onlyD [OF h1(2)] nodes_only_links [OF h1(2)]
    define g where "g = set_preceding (Nd (b + t))
      (s + t OR alloc_flag (npreceding h1 (Nd (b + t)))) (set_size (Nd a) (s + t) h1)"
    have st: "s + t < 2 ^ 31"
    proof -
      have sp: "heap_split h xs [(a, s, False), (b, t, False)] ys' a p (a + s + t) t"
        using H(1) ys by (auto simp: heap_split_def)
      have "heap_raw h (xs @ [(a, s, False), (b, t, False)] @ ys') (free_addrs xs \<union> free_addrs ys)"
        using raw ys by simp
      from heap_split_facts(1,5) [OF this sp] show ?thesis by linarith
    qed
    have "mm_free_next a h = Some (a + (s + t), g)"
      using h1 H T L False b by (simp add: mm_free_next_def g_def Let_def add.assoc)
    moreover have "heap_raw g (xs @ (a, s + t, False) # ys') (free_addrs xs \<union> free_addrs ys')"
      by (rule raw_merge_chunk(2) [OF raw1])
        (use H(6) [of a] H(4) T L st ys b in \<open>auto simp: g_def mm_flags add.assoc\<close>)
    moreover have "next_alloc ys' \<and> coalesced ys'" using co ys by (simp add: coalesced_Cons)
    moreover have "nodes_only K h g" "mm_heapstart g = mm_heapstart h" "mm_heapend g = mm_heapend h"
      using L apartD(1) [OF K, of a s False] apart_next [OF raw2, of K] K ys by (simp_all add: g_def)
    moreover from this have "apart K g (xs @ (a, s + t, False) # ys')"
      using K ys by (fastforce simp: apart_def heap_chunks_def free_addrs_def)
    moreover have "coalesce (xs @ (a, s + t, False) # ys') = coalesce (xs @ (a, s, False) # ys)"
      using ys coalesce_merge by simp
    ultimately show ?thesis by blast
  qed
qed

lemma mm_free_prev_spec:
  assumes raw: "heap_raw h (xs @ (a, s, False) # ys) (free_addrs xs \<union> free_addrs ys)"
    and co: "coalesced xs" and K: "apart K h (xs @ (a, s, False) # ys)"
  shows "\<exists>h' a' s' xs'. mm_free_prev a (a + s) h = Some (a', h') \<and>
           heap_raw h' (xs' @ (a', s', False) # ys) (free_addrs xs' \<union> free_addrs ys) \<and>
           prev_alloc xs' \<and> coalesced xs' \<and> nodes_only K h h' \<and> apart K h' (xs' @ (a', s', False) # ys) \<and>
           coalesce (xs' @ (a', s', False) # ys) = coalesce (xs @ (a, s, False) # ys)"
proof -
  obtain p where H: "heap_split h xs [(a, s, False)] ys a p (a + s) s"
    "nsize h (Nd a) = s" "npreceding h (Nd a) = p + af False" "p < 2 ^ 31" "16 \<le> s" "s < 2 ^ 31"
    "npreceding h (Nd (a + s)) = s + af (next_alloc ys)"
    using heap_chunk [OF raw] by metis
  show ?thesis
  proof (cases "prev_alloc xs")
    case True
    have "alloc_flag (npreceding h (Nd (a - p))) \<noteq> 0"
    proof (cases xs rule: rev_cases)
      case Nil
      then show ?thesis using H(1) alloc_flag_af [of 0 True] by (auto simp: heap_split_def)
    next
      case (snoc xs' c)
      then obtain c' r where c: "xs = xs' @ [(c', r, True)]" using True by (cases c) auto
      have raw2: "heap_raw h (xs' @ (c', r, True) # (a, s, False) # ys) (free_addrs xs \<union> free_addrs ys)"
        using raw c by simp
      obtain q where "npreceding h (Nd c') = q + af True" "q < 2 ^ 31"
        using heap_chunk [OF raw2] by metis
      moreover have "a = c' + p" using H(1) c by (auto simp: heap_split_def)
      ultimately show ?thesis by simp
    qed
    then have "mm_free_prev a (a + s) h = Some (a, h)" using H by (simp add: mm_free_prev_def)
    then show ?thesis using raw True co K nodes_only_refl by blast
  next
    case False
    then obtain xs' c r where xs: "xs = xs' @ [(c, r, False)]"
      by (cases xs rule: rev_cases) auto
    have a: "a = c + r" "p = r" using H(1) xs by (auto simp: heap_split_def)
    have raw2: "heap_raw h (xs' @ (c, r, False) # (a, s, False) # ys) (free_addrs xs \<union> free_addrs ys)"
      using raw xs by simp
    obtain q where T: "heap_split h xs' [(c, r, False)] ((a, s, False) # ys) c q (c + r) r"
      "nsize h (Nd c) = r" "16 \<le> r" "npreceding h (Nd c) = q + af False" "q < 2 ^ 31"
      "\<And>x. c \<le> x \<Longrightarrow> x < c + r \<Longrightarrow> x \<notin> free_addrs xs' \<and> x \<notin> free_addrs ((a, s, False) # ys)"
      using heap_chunk [OF raw2] by metis
    have F: "free_addrs xs \<union> free_addrs ys - {c} = free_addrs xs' \<union> free_addrs ys"
      using T(6) [of c] T(3) xs by auto
    obtain h1 where h1: "mm_unlink (Nd c) h = Some h1" "links_only K h h1"
      and raw1: "heap_raw h1 (xs' @ (c, r, False) # (a, s, False) # ys) (free_addrs xs' \<union> free_addrs ys)"
      using raw_unlink [OF raw2, of c K] apartD(2) [OF K] xs F by auto
    note L = links_onlyD [OF h1(2)] nodes_only_links [OF h1(2)]
    define g where "g = set_preceding (Nd (a + s))
      (r + s OR alloc_flag (npreceding h1 (Nd (a + s)))) (set_size (Nd c) (r + s) h1)"
    have rs: "r + s < 2 ^ 31"
    proof -
      have sp: "heap_split h xs' [(c, r, False), (a, s, False)] ys c q (c + r + s) s"
        using T(1) by (auto simp: heap_split_def)
      have "heap_raw h (xs' @ [(c, r, False), (a, s, False)] @ ys) (free_addrs xs \<union> free_addrs ys)"
        using raw2 by simp
      from heap_split_facts(1,5) [OF this sp] show ?thesis by linarith
    qed
    have "mm_free_prev a (a + s) h = Some (c, g)"
      using h1 H T L a by (simp add: mm_free_prev_def g_def Let_def)
    moreover have "heap_raw g (xs' @ (c, r + s, False) # ys) (free_addrs xs' \<union> free_addrs ys)"
      by (rule raw_merge_chunk(2) [OF raw1])
        (use T(6) [of c] T H L rs a in \<open>auto simp: g_def mm_flags\<close>)
    moreover have "prev_alloc xs' \<and> coalesced xs'"
      using co xs by (simp add: coalesced_append coalesced_Cons)
    moreover have "nodes_only K h g" "mm_heapstart g = mm_heapstart h" "mm_heapend g = mm_heapend h"
      using L apartD(1) [OF K, of c r False] apart_next [OF raw K] xs by (simp_all add: g_def)
    moreover from this have "apart K g (xs' @ (c, r + s, False) # ys)"
      using K xs by (fastforce simp: apart_def heap_chunks_def free_addrs_def)
    moreover have "coalesce (xs' @ (c, r + s, False) # ys) = coalesce (xs @ (a, s, False) # ys)"
      using xs coalesce_merge [of xs' c r a s ys] by simp
    ultimately show ?thesis by blast
  qed
qed

lemma mm_free_chunk_spec:
  assumes inv: "heap_inv h (xs @ (a, s, True) # ys)"
  shows "\<exists>h'. mm_free_chunk (a + 8) h = Some h' \<and>
           heap_inv h' (coalesce (xs @ (a, s, False) # ys)) \<and> nodes_only (payload (xs @ ys)) h h'"
proof -
  note raw = heap_invD(1) [OF inv]
  define K where "K = payload (xs @ ys)"
  have co: "coalesced xs" "coalesced ys"
    using heap_invD(2) [OF inv] by (auto simp: coalesced_append coalesced_Cons)
  define g where "g = set_preceding (Nd a) (clear_alloc (npreceding h (Nd a))) h"
  have rawg: "heap_raw g (xs @ (a, s, False) # ys) (free_addrs xs \<union> free_addrs ys)"
    by (rule raw_flag [OF raw [simplified]]) (auto simp: g_def)
  have Kg: "apart K g (xs @ (a, s, False) # ys)"
    using apart_payload [OF rawg] by (simp add: K_def payload_append)
  from mm_free_next_spec [OF rawg co(2) Kg] obtain h2 s' ys' where
    h2: "mm_free_next a g = Some (a + s', h2)" and raw2: "heap_raw h2 (xs @ (a, s', False) # ys') (free_addrs xs \<union> free_addrs ys')"
    and ys': "next_alloc ys'" "coalesced ys'" and no2: "nodes_only K g h2"
    and K2: "apart K h2 (xs @ (a, s', False) # ys')"
    and eq2: "coalesce (xs @ (a, s', False) # ys') = coalesce (xs @ (a, s, False) # ys)"
    by blast
  from mm_free_prev_spec [OF raw2 co(1) K2] obtain h3 a' t xs' where
    h3: "mm_free_prev a (a + s') h2 = Some (a', h3)" and raw3: "heap_raw h3 (xs' @ (a', t, False) # ys') (free_addrs xs' \<union> free_addrs ys')"
    and xs': "prev_alloc xs'" "coalesced xs'" and no3: "nodes_only K h2 h3"
    and K3: "apart K h3 (xs' @ (a', t, False) # ys')"
    and eq3: "coalesce (xs' @ (a', t, False) # ys') = coalesce (xs @ (a, s', False) # ys')"
    by blast
  have "a' \<notin> free_addrs xs' \<union> free_addrs ys'"
    using heap_chunk [OF raw3] by (metis Un_iff add_gr_0 le_refl less_add_same_cancel1 less_le_trans zero_less_numeral)
  from raw_addfree [OF raw3, of a' t, OF _ this, of _ K] apartD(2) [OF K3] obtain h4 where
    h4: "mm_addfreechunk (Nd a') h3 = Some h4" and lo: "links_only K h3 h4"
    and raw4: "heap_raw h4 (xs' @ (a', t, False) # ys') (insert a' (free_addrs xs' \<union> free_addrs ys'))"
    by auto
  have "coalesced (xs' @ (a', t, False) # ys')"
    using xs' ys' by (simp add: coalesced_append coalesced_Cons)
  then have "heap_inv h4 (coalesce (xs' @ (a', t, False) # ys'))"
    using raw4 by (simp add: heap_inv_def coalesce_id)
  moreover have "mm_free_chunk (a + 8) h = Some h4"
    using h2 h3 h4 by (simp add: mm_free_chunk_def mm_consts g_def Let_def)
  moreover have "nodes_only K h h4"
    using nodes_only_trans [OF nodes_only_trans [OF _ no2] nodes_only_trans [OF no3 nodes_only_links [OF lo]], of h]
      apartD(1) [OF Kg, of a s False] by (simp add: g_def)
  ultimately show ?thesis using eq2 eq3 by (simp add: K_def)
qed

end
