(* ===== verification/MM_Alloc.thy ===== *)
theory MM_Alloc
  imports MM_Correct
begin

text \<open>
  Allocation and release as the heap's users see them: the heap semaphore, releases that an
  interrupt handler postpones, and the theorems about \<open>mm_malloc\<close>, \<open>mm_free\<close> and
  \<open>mm_calloc\<close>.
\<close>

section \<open>The semaphore around an operation\<close>

text \<open>The caller is a task, and the semaphore is free or already held by this task.\<close>

definition can_lock :: "mm_env \<Rightarrow> mm_heap \<Rightarrow> bool" where
  "can_lock env h \<longleftrightarrow>
     \<not> env_interrupt env \<and> 0 \<le> env_pid env \<and> set (env_wakeups env) \<subseteq> {- EINTR} \<and>
     (mm_holder h = env_pid env \<and> 0 < mm_counts_held h \<or>
      mm_holder h = NO_HOLDER \<and> mm_counts_held h = 0 \<and> 0 < mm_semcount h)"

definition locked :: "mm_env \<Rightarrow> mm_heap \<Rightarrow> mm_heap" where
  "locked env h =
     (if mm_holder h = env_pid env then h\<lparr>mm_counts_held := mm_counts_held h + 1\<rparr>
      else h\<lparr>mm_semcount := mm_semcount h - 1, mm_holder := env_pid env, mm_counts_held := 1\<rparr>)"

lemma mm_sem_waitloop_ok:
  "set rs \<subseteq> {- EINTR} \<Longrightarrow> 0 < c \<Longrightarrow> mm_sem_waitloop rs c = Some (c - 1)"
  by (induction rs) auto

lemma mm_takesemaphore_ok: "can_lock env h \<Longrightarrow> mm_takesemaphore env h = Some (locked env h)"
  by (auto simp: can_lock_def mm_takesemaphore_def locked_def NO_HOLDER_def mm_sem_waitloop_ok)

lemma mm_trysemaphore_ok: "can_lock env h \<Longrightarrow> mm_trysemaphore env h = (0, locked env h)"
  by (auto simp: can_lock_def mm_trysemaphore_def locked_def NO_HOLDER_def)

lemma nodes_only_unlock:
  assumes "can_lock env h" "nodes_only K (locked env h) h2"
  shows "nodes_only K h (mm_givesemaphore h2)"
  using assms
  by (auto simp: can_lock_def nodes_only_def locked_def mm_givesemaphore_def NO_HOLDER_def
      split: if_splits)

lemma sem_fields [simp]:
  "nsize (locked env h) = nsize h" "npreceding (locked env h) = npreceding h"
  "nflink (locked env h) = nflink h" "nblink (locked env h) = nblink h"
  "mm_heapstart (locked env h) = mm_heapstart h" "mm_heapend (locked env h) = mm_heapend h"
  "hdata (locked env h) = hdata h" "dflink (locked env h) = dflink h" "mm_heapsize (locked env h) = mm_heapsize h"
  "nsize (mm_givesemaphore h) = nsize h" "npreceding (mm_givesemaphore h) = npreceding h"
  "nflink (mm_givesemaphore h) = nflink h" "nblink (mm_givesemaphore h) = nblink h"
  "mm_heapstart (mm_givesemaphore h) = mm_heapstart h"
  "mm_heapend (mm_givesemaphore h) = mm_heapend h"
  "hdata (mm_givesemaphore h) = hdata h" "dflink (mm_givesemaphore h) = dflink h" "mm_heapsize (mm_givesemaphore h) = mm_heapsize h"
  by (simp_all add: locked_def mm_givesemaphore_def)

lemma flist_fields:
  assumes "nsize h' = nsize h" "nflink h' = nflink h" "nblink h' = nblink h"
  shows "flist h' fl F = flist h fl F"
  using assms by (simp add: flist_def)

lemma heap_inv_fields:
  assumes "nsize h' = nsize h" "npreceding h' = npreceding h" "nflink h' = nflink h"
    "nblink h' = nblink h" "mm_heapstart h' = mm_heapstart h" "mm_heapend h' = mm_heapend h"
  shows "heap_inv h' cs = heap_inv h cs"
  using assms flist_fields [OF assms(1,3,4)]
  by (simp add: heap_inv_def heap_raw_def heap_chunks_def)

lemma heap_inv_sem [simp]:
  "heap_inv (locked env h) cs = heap_inv h cs"
  "heap_inv (mm_givesemaphore h) cs = heap_inv h cs"
  "heap_inv (h\<lparr>mm_delaylist := d\<rparr>) cs = heap_inv h cs"
  "heap_inv (h\<lparr>dflink := df\<rparr>) cs = heap_inv h cs"
  "heap_inv (h\<lparr>hdata := m\<rparr>) cs = heap_inv h cs"
  by (rule heap_inv_fields; simp)+

lemma can_lock_nodes_only:
  assumes "can_lock env h" "nodes_only K h h'"
  shows "can_lock env h'"
  using assms by (simp add: can_lock_def nodes_only_def)

section \<open>Release\<close>

definition mark_free :: "nat set \<Rightarrow> chunk list \<Rightarrow> chunk list" where
  "mark_free A cs = map (\<lambda>(a, s, al). (a, s, al \<and> a + 8 \<notin> A)) cs"

text \<open>The heap after the blocks at the payload addresses \<open>A\<close> are released.\<close>

definition released :: "nat set \<Rightarrow> chunk list \<Rightarrow> chunk list" where
  "released A cs = coalesce (mark_free A cs)"

lemma coalesce_idem [simp]: "coalesce (coalesce cs) = coalesce cs"
proof -
  have "coalesced (coalesce cs) \<and> (cs \<noteq> [] \<longrightarrow> next_alloc (coalesce cs) = next_alloc cs)" for cs
    by (induction cs rule: coalesce_induct) (auto simp: coalesced_Cons next_alloc_def)
  then show ?thesis using coalesce_id by blast
qed

lemma coalesce_tail: "coalesce (x # coalesce cs) = coalesce (x # cs)"
proof (induction cs arbitrary: x rule: coalesce_induct)
  case (merge a s b t cs)
  obtain c r f where x: "x = (c, r, f)" by (cases x)
  have "coalesce (x # coalesce ((a, s + t, False) # cs)) = coalesce (x # (a, s + t, False) # cs)"
    by (rule merge.IH)
  also have "\<dots> = coalesce (x # (a, s, False) # (b, t, False) # cs)"
    using x by (cases f) (simp_all add: add.assoc)
  finally show ?case by simp
next
  case (allocated a s cs)
  obtain c r f where x: "x = (c, r, f)" by (cases x)
  then show ?case by (cases f) simp_all
next
  case (single c)
  then show ?case by (cases c; cases x) (auto split: if_splits)
next
  case (blocked a b t cs)
  obtain c r f where x: "x = (c, r, f)" by (cases x)
  obtain y z w where a: "a = (y, z, w)" by (cases a)
  then show ?case using x by (cases f; cases w) simp_all
qed simp

lemma mark_free_simps [simp]:
  "mark_free A [] = []"
  "mark_free A ((a, s, al) # cs) = (a, s, al \<and> a + 8 \<notin> A) # mark_free A cs"
  "mark_free A (xs @ ys) = mark_free A xs @ mark_free A ys"
  "mark_free {} cs = cs"
  "mark_free A (mark_free B cs) = mark_free (A \<union> B) cs"
  by (auto simp: mark_free_def split: prod.splits)

lemma coalesce_mark_free: "coalesce (mark_free A (coalesce cs)) = coalesce (mark_free A cs)"
proof (induction cs rule: coalesce_induct)
  case (allocated a s cs)
  then show ?case using coalesce_tail [of "(a, s, a + 8 \<notin> A)"] by simp metis
next
  case (blocked a b t cs)
  obtain y z w where a: "a = (y, z, w)" by (cases a)
  then show ?case using blocked coalesce_tail [of "(y, z, w \<and> y + 8 \<notin> A)"] by (cases w) (simp_all, metis+)
qed auto

lemma released_released: "released A (released B cs) = released (A \<union> B) cs"
  by (simp add: released_def coalesce_mark_free)

lemma layout_distinct: "layout S P a p cs e q \<Longrightarrow> sized cs \<Longrightarrow> distinct (map fst cs)"
proof (induction cs arbitrary: a p)
  case (Cons c cs)
  obtain b s al where c: "c = (b, s, al)" by (cases c)
  then have l: "layout S P (a + s) s cs e q" "sized cs" "0 < s" "b = a" using Cons.prems by auto
  have "a + s \<le> x" if "x \<in> fst ` set cs" for x using layout_in_range [OF l(1)] that by fastforce
  then have "b \<notin> fst ` set cs" using l(3,4) by force
  then show ?case using Cons.IH [OF l(1,2)] c by simp
qed simp

lemma heap_distinct:
  assumes "heap_raw h cs F"
  shows "distinct (map fst cs)"
proof -
  have "heap_raw h ([] @ cs @ []) F" using assms by simp
  then obtain a p b m where "heap_split h [] cs [] a p b m" using heap_split_exists by blast
  then show ?thesis
    using layout_distinct assms unfolding heap_split_def heap_raw_def by blast
qed

lemma mark_free_others: "(\<And>a. a + 8 \<in> A \<Longrightarrow> a \<notin> fst ` set cs) \<Longrightarrow> mark_free A cs = cs"
  by (induction cs) (force simp: mark_free_def)+

lemma mark_free_one:
  assumes "heap_inv h (xs @ (a, s, True) # ys)"
  shows "mark_free {a + 8} (xs @ (a, s, True) # ys) = xs @ (a, s, False) # ys"
proof -
  have "a \<notin> fst ` set xs" "a \<notin> fst ` set ys" using heap_distinct [OF heap_invD(1) [OF assms]] by auto
  then have "mark_free {a + 8} xs = xs" "mark_free {a + 8} ys = ys"
    by (intro mark_free_others; simp)+
  then show ?thesis by simp
qed

lemma coalesce_alloc: "(a, s, True) \<in> set (coalesce cs) \<longleftrightarrow> (a, s, True) \<in> set cs"
  by (induction cs rule: coalesce_induct) auto

lemma mark_free_alloc:
  "(a, s, True) \<in> set (mark_free A cs) \<longleftrightarrow> (a, s, True) \<in> set cs \<and> a + 8 \<notin> A"
  by (induction cs) auto

lemma released_alloc:
  "(a, s, True) \<in> set (released A cs) \<longleftrightarrow> (a, s, True) \<in> set cs \<and> a + 8 \<notin> A"
  by (simp add: released_def coalesce_alloc mark_free_alloc)

lemma payload_coalesce: "payload (coalesce cs) = payload cs"
  by (rule payload_cong) (simp add: coalesce_alloc)

lemma payload_released: "A \<subseteq> B \<Longrightarrow> payload (released B cs) \<subseteq> payload (released A cs)"
  by (auto simp: payload_def released_alloc)

lemma payload_start: "heap_inv h cs \<Longrightarrow> (a, s, True) \<in> set cs \<Longrightarrow> a + 8 \<in> payload cs"
  using raw_size(2) [OF heap_invD(1)] by (force simp: payload_def)

lemma mm_free_spec:
  assumes lock: "can_lock env h" and inv: "heap_inv h cs" and a: "(a, s, True) \<in> set cs"
  shows "\<exists>h'. mm_free env (a + 8) h = Some h' \<and> heap_inv h' (released {a + 8} cs) \<and>
    nodes_only (payload (released {a + 8} cs)) h h'"
proof -
  obtain xs ys where cs: "cs = xs @ (a, s, True) # ys" using a by (metis in_set_conv_decomp)
  have "heap_inv (locked env h) (xs @ (a, s, True) # ys)" using inv cs by simp
  from mm_free_chunk_spec [OF this] obtain h2 where
    h2: "mm_free_chunk (a + 8) (locked env h) = Some h2"
    "heap_inv h2 (coalesce (xs @ (a, s, False) # ys))" "nodes_only (payload (xs @ ys)) (locked env h) h2" by blast
  have "mm_free env (a + 8) h = Some (mm_givesemaphore h2)"
    using lock h2(1) mm_trysemaphore_ok [OF lock] by (simp add: mm_free_def can_lock_def)
  moreover have "released {a + 8} cs = coalesce (xs @ (a, s, False) # ys)"
    using mark_free_one [of h xs a s ys] inv cs by (simp add: released_def del: mark_free_simps)
  ultimately show ?thesis
    using h2 nodes_only_unlock [OF lock h2(3)] by (auto simp: payload_coalesce payload_append)
qed

text \<open>The blocks waiting on the delay list.\<close>

definition delayed :: "mm_heap \<Rightarrow> nat list \<Rightarrow> chunk list \<Rightarrow> bool" where
  "delayed h ds cs \<longleftrightarrow>
     path (dflink h) (mm_delaylist h) ds None \<and>
     (\<forall>d \<in> set ds. \<exists>a s. d = a + 8 \<and> (a, s, True) \<in> set cs)"

lemma mm_free_delayloop_spec:
  assumes "can_lock env h" "heap_inv h cs" "path (dflink h) tmp ds None"
    and "\<forall>d \<in> set ds. \<exists>a s. d = a + 8 \<and> (a, s, True) \<in> set cs"
  shows "\<exists>h'. mm_free_delayloop env tmp h = Some h' \<and> heap_inv h' (released (set ds) cs) \<and>
           nodes_only (payload (released (set ds) cs)) h h'"
  using assms
proof (induction ds arbitrary: h tmp cs)
  case Nil
  then have "released {} cs = cs" by (simp add: released_def coalesce_id heap_invD(2))
  then show ?case using Nil by (simp add: mm_free_delayloop.simps)
next
  case (Cons d ds)
  obtain a s where d: "d = a + 8" "(a, s, True) \<in> set cs" using Cons.prems(4) by auto
  have p: "tmp = Some d" "path (dflink h) (dflink h d) ds None" "d \<notin> set ds"
    using Cons.prems(3) path_distinct [OF Cons.prems(3)] by auto
  from mm_free_spec [OF Cons.prems(1,2) d(2)] obtain h1 where
    h1: "mm_free env d h = Some h1" "heap_inv h1 (released {d} cs)" "nodes_only (payload (released {d} cs)) h h1"
    using d(1) by blast
  let ?K = "payload (released (set (d # ds)) cs)"
  have no1: "nodes_only ?K h h1" by (rule nodes_only_subset [OF h1(3) payload_released]) simp
  have ds: "\<exists>a s. d' = a + 8 \<and> (a, s, True) \<in> set (released {d} cs)" if "d' \<in> set ds" for d'
    using Cons.prems(4) p(3) that by (fastforce simp: released_alloc)
  have "\<exists>h'. mm_free_delayloop env (dflink h d) h1 = Some h' \<and>
      heap_inv h' (released (set ds) (released {d} cs)) \<and>
      nodes_only (payload (released (set ds) (released {d} cs))) h1 h'"
  proof (rule Cons.IH [OF can_lock_nodes_only [OF Cons.prems(1) h1(3)] h1(2)])
    have "dflink h1 d' = dflink h d'" if "d' \<in> set ds" for d'
      using ds [OF that] payload_start [OF h1(2)] nodes_onlyD(1) [OF h1(3)] by blast
    then show "path (dflink h1) (dflink h d) ds None" using p(2) path_cong [of ds "dflink h1" "dflink h"] by simp
    show "\<forall>d' \<in> set ds. \<exists>a s. d' = a + 8 \<and> (a, s, True) \<in> set (released {d} cs)"
      using ds by blast
  qed
  then show ?case using h1(1) p nodes_only_trans [OF no1]
    by (subst mm_free_delayloop.simps) (auto simp: released_released)
qed

lemma mm_free_delaylist_spec:
  assumes "can_lock env h" "heap_inv h cs" "delayed h ds cs"
  shows "\<exists>h'. mm_free_delaylist env h = Some h' \<and> heap_inv h' (released (set ds) cs) \<and>
           nodes_only (payload (released (set ds) cs)) (h\<lparr>mm_delaylist := None\<rparr>) h'"
  using mm_free_delayloop_spec [of env "h\<lparr>mm_delaylist := None\<rparr>" cs "mm_delaylist h" ds] assms
  by (simp add: mm_free_delaylist_def delayed_def can_lock_def)

section \<open>Allocation\<close>

text \<open>The chunk size that serves a request of \<open>sz\<close> bytes.\<close>

definition chunk_size :: "nat \<Rightarrow> nat" where
  "chunk_size sz = (sz + 23) div 16 * 16"

lemma chunk_size_props: "sz + 8 \<le> chunk_size sz" "16 dvd chunk_size sz" "0 < sz \<Longrightarrow> 16 \<le> chunk_size sz"
  by (auto simp: chunk_size_def)

lemma chunk_size_align:
  assumes "sz + 23 < 2 ^ 32"
  shows "MM_ALIGN_UP ((sz + SIZEOF_MM_ALLOCNODE) mod 2 ^ 32) = chunk_size sz"
proof -
  have "(sz + SIZEOF_MM_ALLOCNODE) mod 2 ^ 32 = sz + 8" using assms by (simp add: mm_consts)
  moreover have "MM_ALIGN_UP (sz + 8) = (sz + 8 + 15) div 16 * 16"
    by (rule MM_ALIGN_UP_eq) (use assms in simp)
  ultimately show ?thesis by (simp add: chunk_size_def add.assoc)
qed

lemma mm_size2ndx_max: "s \<ge> MM_MAX_CHUNK \<Longrightarrow> mm_size2ndx s = MM_NNODES - 1"
  by (simp add: mm_size2ndx_def)

lemma mm_malloc_aligned:
  assumes lock: "can_lock env h" and inv: "heap_inv h cs" and del: "delayed h ds cs"
    and sz: "0 < sz" and al: "MM_ALIGN_UP ((sz + SIZEOF_MM_ALLOCNODE) mod 2 ^ 32) = n"
    and n: "16 \<le> n" "16 dvd n"
  defines "cs1 \<equiv> released (set ds) cs"
  shows "\<exists>ret h'. mm_malloc env sz h = Some (ret, h') \<and>
    nodes_only (payload cs1) (h\<lparr>mm_delaylist := None\<rparr>) h' \<and>
    (ret = 0 \<and> heap_inv h' cs1 \<and> (\<forall>(a, s, al) \<in> set cs1. al \<or> s < n) \<or>
     (\<exists>xs a s ys. cs1 = xs @ (a, s, False) # ys \<and> ret = a + 8 \<and> n \<le> s \<and>
        heap_inv h' (xs @ take_chunk a s n @ ys) \<and>
        (\<forall>(b, t, bl) \<in> set cs1. bl \<or> t < n \<or> s \<le> t)))"
proof -
  obtain h1 where h1: "mm_free_delaylist env h = Some h1" "heap_inv h1 cs1"
    "nodes_only (payload cs1) (h\<lparr>mm_delaylist := None\<rparr>) h1"
    using mm_free_delaylist_spec [OF lock inv del] unfolding cs1_def by blast
  have "can_lock env (h\<lparr>mm_delaylist := None\<rparr>)" using lock by (simp add: can_lock_def)
  then have lock1: "can_lock env h1" using can_lock_nodes_only h1(3) by blast
  let ?h2 = "locked env h1"
  have inv2: "heap_inv ?h2 cs1" using h1(2) by simp
  have ndx: "(if n \<ge> MM_MAX_CHUNK then MM_NNODES - 1 else mm_size2ndx n) = mm_size2ndx n"
    by (simp add: mm_size2ndx_max)
  have run: "mm_malloc env sz h =
      do { found \<leftarrow> mm_findfit ?h2 n (nflink ?h2 (NL (mm_size2ndx n)));
           (ret, h3) \<leftarrow> (case found of None \<Rightarrow> Some (0, ?h2)
                         | Some (Nd node) \<Rightarrow> mm_take_node node n ?h2 | Some (NL i) \<Rightarrow> None);
           Some (ret, mm_givesemaphore h3) }"
    using h1(1) mm_takesemaphore_ok [OF lock1] sz unfolding mm_malloc_def Let_def al ndx by simp
  obtain fl where fl: "flist ?h2 fl (free_addrs cs1)"
    using heap_invD(1) [OF inv2] unfolding heap_raw_def by blast
  have size: "nsize h1 (Nd a) = s" if "(a, s, al) \<in> set cs1" for a s al
    using raw_size(1) [OF heap_invD(1) [OF h1(2)] that] .
  have trans: "nodes_only (payload cs1) (h\<lparr>mm_delaylist := None\<rparr>) (mm_givesemaphore h3)"
    if "nodes_only (payload cs1) ?h2 h3" for h3
    using nodes_only_trans [OF h1(3) nodes_only_unlock [OF lock1 that]] .
  from mm_findfit_best [OF fl, of n] n consider
    (none) "mm_findfit ?h2 n (nflink ?h2 (NL (mm_size2ndx n))) = Some None"
      "\<forall>b \<in> free_addrs cs1. nsize h1 (Nd b) < n"
  | (some) a where "mm_findfit ?h2 n (nflink ?h2 (NL (mm_size2ndx n))) = Some (Some (Nd a))"
      "a \<in> free_addrs cs1" "n \<le> nsize h1 (Nd a)"
      "\<forall>b \<in> free_addrs cs1. n \<le> nsize h1 (Nd b) \<longrightarrow> nsize h1 (Nd a) \<le> nsize h1 (Nd b)"
    by auto
  then show ?thesis
  proof cases
    case none
    have "al \<or> s < n" if "(a, s, al) \<in> set cs1" for a s al
      using none(2) size [OF that] that by (cases al) (auto simp: free_addrs_def)
    then show ?thesis using run none(1) trans [of ?h2] h1(2) by auto
  next
    case some
    obtain s where "(a, s, False) \<in> set cs1" using some(2) by (auto simp: free_addrs_def)
    then obtain xs ys where cs1: "cs1 = xs @ (a, s, False) # ys" by (metis in_set_conv_decomp)
    have s: "nsize h1 (Nd a) = s" using size [OF \<open>(a, s, False) \<in> set cs1\<close>] .
    obtain h3 where h3: "mm_take_node a n ?h2 = Some (a + 8, h3)"
      "heap_inv h3 (xs @ take_chunk a s n @ ys)" "nodes_only (payload cs1) ?h2 h3"
      using mm_take_node_spec [of ?h2 xs a s ys n] inv2 cs1 n some(3) s by (auto simp: payload_append)
    have best: "bl \<or> t < n \<or> s \<le> t" if "(b, t, bl) \<in> set cs1" for b t bl
      using some(4) size [OF that] that s by (cases bl) (auto simp: free_addrs_def)
    have "mm_malloc env sz h = Some (a + 8, mm_givesemaphore h3)" using run some(1) h3(1) by simp
    moreover have "heap_inv (mm_givesemaphore h3) (xs @ take_chunk a s n @ ys)" using h3(2) by simp
    ultimately show ?thesis using trans [OF h3(3)] cs1 some(3) s best by blast
  qed
qed

lemmas mm_malloc_spec =
  mm_malloc_aligned [OF _ _ _ _ chunk_size_align chunk_size_props(3) chunk_size_props(2)]

lemma mm_malloc_zero:
  assumes "can_lock env h" "heap_inv h cs" "delayed h ds cs"
  shows "\<exists>h'. mm_malloc env 0 h = Some (0, h') \<and> heap_inv h' (released (set ds) cs) \<and>
           nodes_only (payload (released (set ds) cs)) (h\<lparr>mm_delaylist := None\<rparr>) h'"
  using mm_free_delaylist_spec [OF assms] by (auto simp: mm_malloc_def)

section \<open>The allocator contract\<close>

text \<open>
  What a user of an allocator relies on.  \<open>rep h B\<close>: in state \<open>h\<close> the blocks in use are \<open>B\<close>, a
  map from block addresses to block sizes.
\<close>

fun alloc_all :: "(nat \<Rightarrow> 'h \<Rightarrow> (nat \<times> 'h) option) \<Rightarrow> nat list \<Rightarrow> 'h \<Rightarrow> (nat list \<times> 'h) option" where
  "alloc_all alloc [] h = Some ([], h)"
| "alloc_all alloc (n # ns) h =
     do { (r, h1) \<leftarrow> alloc n h; (rs, h2) \<leftarrow> alloc_all alloc ns h1; Some (r # rs, h2) }"

fun release_all :: "(nat \<Rightarrow> 'h \<Rightarrow> 'h option) \<Rightarrow> nat list \<Rightarrow> 'h \<Rightarrow> 'h option" where
  "release_all release [] h = Some h"
| "release_all release (r # rs) h = do { h1 \<leftarrow> release r h; release_all release rs h1 }"

locale allocator =
  fixes alloc :: "nat \<Rightarrow> 'h \<Rightarrow> (nat \<times> 'h) option"
    and release :: "nat \<Rightarrow> 'h \<Rightarrow> 'h option"
    and rep :: "'h \<Rightarrow> (nat \<rightharpoonup> nat) \<Rightarrow> bool"
    and limit :: nat
  assumes rep_disjoint: "rep h B \<Longrightarrow> B a = Some m \<Longrightarrow> B b = Some n \<Longrightarrow> a < b \<Longrightarrow> a + m \<le> b"
    and rep_null: "rep h B \<Longrightarrow> B 0 = None"
    and alloc_law: "rep h B \<Longrightarrow> n < limit \<Longrightarrow>
      \<exists>r h'. alloc n h = Some (r, h') \<and>
        (r = 0 \<and> rep h' B \<or> r \<noteq> 0 \<and> B r = None \<and> (\<exists>m. n \<le> m \<and> rep h' (B(r \<mapsto> m))))"
    and release_law: "rep h B \<Longrightarrow> B a = Some m \<Longrightarrow>
      \<exists>h'. release a h = Some h' \<and> rep h' (B(a := None))"
    and release_null: "release 0 h = Some h"
begin

text \<open>Blocks handed out and not given back stay where they are and never overlap.\<close>

lemma alloc_all_blocks:
  assumes "rep h B" "\<forall>n \<in> set ns. n < limit"
  shows "\<exists>rs h' B'. alloc_all alloc ns h = Some (rs, h') \<and> rep h' B' \<and> length rs = length ns \<and>
    B \<subseteq>\<^sub>m B' \<and> dom B' = dom B \<union> (set rs - {0}) \<and>
    (\<forall>i < length rs. rs ! i \<noteq> 0 \<longrightarrow> (\<exists>m. B' (rs ! i) = Some m \<and> ns ! i \<le> m \<and> rs ! i \<notin> dom B)) \<and>
    distinct (filter (\<lambda>r. r \<noteq> 0) rs)"
  using assms
proof (induction ns arbitrary: h B)
  case Nil
  then show ?case by auto
next
  case (Cons n ns)
  obtain r h1 B1 where h1: "alloc n h = Some (r, h1)" "rep h1 B1" "B \<subseteq>\<^sub>m B1"
    "dom B1 = dom B \<union> ({r} - {0})" "r \<noteq> 0 \<longrightarrow> r \<notin> dom B \<and> (\<exists>m. B1 r = Some m \<and> n \<le> m)"
  proof -
    from alloc_law [OF Cons.prems(1), of n] Cons.prems(2) obtain r h' where
      r: "alloc n h = Some (r, h')"
      "r = 0 \<and> rep h' B \<or> r \<noteq> 0 \<and> B r = None \<and> (\<exists>m. n \<le> m \<and> rep h' (B(r \<mapsto> m)))" by auto
    from r(2) show thesis
    proof
      assume "r = 0 \<and> rep h' B"
      then show thesis using that [OF r(1), of B] by auto
    next
      assume "r \<noteq> 0 \<and> B r = None \<and> (\<exists>m. n \<le> m \<and> rep h' (B(r \<mapsto> m)))"
      then obtain m where "r \<noteq> 0" "B r = None" "n \<le> m" "rep h' (B(r \<mapsto> m))" by blast
      moreover have "B \<subseteq>\<^sub>m B(r \<mapsto> m)" using \<open>B r = None\<close> by (auto simp: map_le_def)
      ultimately show thesis using that [OF r(1), of "B(r \<mapsto> m)"] by (auto simp: domIff)
    qed
  qed
  from Cons.IH [OF h1(2)] Cons.prems(2) obtain rs h' B' where
    ih: "alloc_all alloc ns h1 = Some (rs, h')" "rep h' B'" "length rs = length ns"
    "B1 \<subseteq>\<^sub>m B'" "dom B' = dom B1 \<union> (set rs - {0})"
    "\<forall>i < length rs. rs ! i \<noteq> 0 \<longrightarrow> (\<exists>m. B' (rs ! i) = Some m \<and> ns ! i \<le> m \<and> rs ! i \<notin> dom B1)"
    "distinct (filter (\<lambda>r. r \<noteq> 0) rs)" by auto
  have fresh: "r \<notin> set rs" if "r \<noteq> 0"
    using that ih(6) h1(4) by (auto simp: in_set_conv_nth)
  have "\<forall>i < length (r # rs). (r # rs) ! i \<noteq> 0 \<longrightarrow>
      (\<exists>m. B' ((r # rs) ! i) = Some m \<and> (n # ns) ! i \<le> m \<and> (r # rs) ! i \<notin> dom B)"
  proof (intro allI impI)
    fix i assume i: "i < length (r # rs)" "(r # rs) ! i \<noteq> 0"
    show "\<exists>m. B' ((r # rs) ! i) = Some m \<and> (n # ns) ! i \<le> m \<and> (r # rs) ! i \<notin> dom B"
    proof (cases i)
      case 0
      then obtain m where "B1 r = Some m" "n \<le> m" "r \<notin> dom B" using h1(5) i(2) by auto
      then show ?thesis using 0 ih(4) by (force simp: map_le_def)
    next
      case (Suc j)
      then show ?thesis using ih(6) i h1(4) by auto
    qed
  qed
  moreover have "alloc_all alloc (n # ns) h = Some (r # rs, h')" using h1(1) ih(1) by simp
  moreover have "B \<subseteq>\<^sub>m B'" using h1(3) ih(4) map_le_trans by blast
  moreover have "dom B' = dom B \<union> (set (r # rs) - {0})" using ih(5) h1(4) by auto
  moreover have "distinct (filter (\<lambda>r. r \<noteq> 0) (r # rs))" using ih(7) fresh by auto
  moreover have "length (r # rs) = length (n # ns)" using ih(3) by simp
  ultimately show ?case using ih(2) by blast
qed

lemma release_all_blocks:
  assumes "rep h B" "set rs - {0} \<subseteq> dom B" "distinct (filter (\<lambda>r. r \<noteq> 0) rs)"
  shows "\<exists>h'. release_all release rs h = Some h' \<and> rep h' (B |` (- set rs))"
  using assms
proof (induction rs arbitrary: h B)
  case Nil
  then show ?case by simp
next
  case (Cons r rs)
  show ?case
  proof (cases "r = 0")
    case True
    have "B |` (- insert 0 (set rs)) = B |` (- set rs)"
      using rep_null [OF Cons.prems(1)] by (auto simp: restrict_map_def)
    then show ?thesis using True Cons release_null by simp
  next
    case False
    then obtain m where "B r = Some m" using Cons.prems(2) by auto
    from release_law [OF Cons.prems(1) this] obtain h1 where
      h1: "release r h = Some h1" "rep h1 (B(r := None))" by blast
    have "set rs - {0} \<subseteq> dom (B(r := None))" using Cons.prems(2,3) False by auto
    moreover have "distinct (filter (\<lambda>r. r \<noteq> 0) rs)" using Cons.prems(3) False by simp
    ultimately obtain h' where
      "release_all release rs h1 = Some h'" "rep h' ((B(r := None)) |` (- set rs))"
      using Cons.IH [OF h1(2)] by blast
    moreover have "(B(r := None)) |` (- set rs) = B |` (- set (r # rs))"
      by (auto simp: restrict_map_def)
    ultimately show ?thesis using h1(1) by auto
  qed
qed

text \<open>Releasing everything that was allocated restores the blocks in use.\<close>

lemma alloc_release_all:
  assumes "rep h B" "\<forall>n \<in> set ns. n < limit"
  shows "\<exists>rs h1 h2. alloc_all alloc ns h = Some (rs, h1) \<and> release_all release rs h1 = Some h2 \<and>
           rep h2 B"
proof -
  from alloc_all_blocks [OF assms] obtain rs h1 B1 where
    a: "alloc_all alloc ns h = Some (rs, h1)" "rep h1 B1" "B \<subseteq>\<^sub>m B1"
    "dom B1 = dom B \<union> (set rs - {0})"
    "\<forall>i < length rs. rs ! i \<noteq> 0 \<longrightarrow> (\<exists>m. B1 (rs ! i) = Some m \<and> ns ! i \<le> m \<and> rs ! i \<notin> dom B)"
    "distinct (filter (\<lambda>r. r \<noteq> 0) rs)" by blast
  from release_all_blocks [OF a(2) _ a(6)] a(4) obtain h2 where
    h2: "release_all release rs h1 = Some h2" "rep h2 (B1 |` (- set rs))" by blast
  have "B1 |` (- set rs) = B"
  proof
    fix x
    show "(B1 |` (- set rs)) x = B x"
    proof (cases "x \<in> set rs")
      case True
      then have "x = 0 \<or> x \<notin> dom B" using a(5) by (metis in_set_conv_nth)
      then have "B x = None" using rep_null [OF assms(1)] by (auto simp: domIff)
      then show ?thesis using True by (simp add: restrict_map_def)
    next
      case False
      moreover have "B1 x = B x"
      proof (cases "x \<in> dom B")
        case True
        then show ?thesis using a(3) by (simp add: map_le_def)
      next
        case F: False
        then have "x \<notin> dom B1" using False a(4) by simp
        then show ?thesis using F by (simp add: domIff)
      qed
      ultimately show ?thesis by (simp add: restrict_map_def)
    qed
  qed
  then show ?thesis using a(1) h2 by auto
qed

end

section \<open>\<open>mm_malloc\<close> and \<open>mm_free\<close> keep the contract\<close>

text \<open>The blocks in use: the allocated chunks, except those that wait on the delay list.\<close>

definition live :: "chunk list \<Rightarrow> nat set \<Rightarrow> (nat \<rightharpoonup> nat)" where
  "live cs D = map_of (map (\<lambda>(a, s, al). (a + 8, s - 8)) (filter (\<lambda>(a, s, al). al \<and> a + 8 \<notin> D) cs))"

lemma live_iff:
  assumes "distinct (map fst cs)"
  shows "live cs D b = Some m \<longleftrightarrow> (\<exists>a s. b = a + 8 \<and> m = s - 8 \<and> (a, s, True) \<in> set cs \<and> b \<notin> D)"
proof -
  let ?l = "map (\<lambda>(a, s, al). (a + 8, s - 8)) (filter (\<lambda>(a, s, al). al \<and> a + 8 \<notin> D) cs)"
  have "map fst ?l = map ((\<lambda>a. a + 8) \<circ> fst) (filter (\<lambda>(a, s, al). al \<and> a + 8 \<notin> D) cs)"
    by (auto split: prod.splits)
  moreover have "distinct (map ((\<lambda>a. a + 8) \<circ> fst) (filter (\<lambda>(a, s, al). al \<and> a + 8 \<notin> D) cs))"
    using distinct_map_filter [OF assms] by (auto simp: distinct_map comp_inj_on inj_on_def)
  ultimately have "distinct (map fst ?l)" by (simp only:)
  then have "live cs D b = Some m \<longleftrightarrow> (b, m) \<in> set ?l"
    unfolding live_def by (rule map_of_eq_Some_iff)
  then show ?thesis by force
qed

lemma live_eqI:
  assumes "distinct (map fst cs)" "\<And>a s. (a, s, True) \<in> set cs \<Longrightarrow> a + 8 \<notin> D \<Longrightarrow> B (a + 8) = Some (s - 8)"
    and "\<And>b m. B b = Some m \<Longrightarrow> \<exists>a s. b = a + 8 \<and> m = s - 8 \<and> (a, s, True) \<in> set cs \<and> b \<notin> D"
  shows "live cs D = B"
proof
  fix b
  show "live cs D b = B b"
  proof (cases "live cs D b")
    case None
    then have "B b \<noteq> Some m" for m
      using assms(3) [of b m] live_iff [OF assms(1), of D b m] by auto
    then show ?thesis using None by (cases "B b") auto
  next
    case (Some m)
    then obtain a s where "b = a + 8" "m = s - 8" "(a, s, True) \<in> set cs" "b \<notin> D"
      using live_iff [OF assms(1)] by blast
    then show ?thesis using Some assms(2) by simp
  qed
qed

lemma heap_ordered:
  assumes "heap_raw h cs F" "(a, s, al) \<in> set cs" "(b, t, bl) \<in> set cs" "a < b"
  shows "a + s \<le> b"
proof -
  obtain xs ys where cs: "cs = xs @ (a, s, al) # ys" using assms(2) by (metis in_set_conv_decomp)
  then have raw: "heap_raw h (xs @ [(a, s, al)] @ ys) F" using assms(1) by simp
  obtain p where "heap_split h xs [(a, s, al)] ys a p (a + s) s"
    using heap_chunk assms(1) cs by metis
  note F = heap_split_facts(9,10) [OF raw this]
  show ?thesis using F(1) [of b t bl] F(2) [of b t bl] assms(3,4) cs by auto
qed

definition blocks_rep :: "mm_env \<Rightarrow> mm_heap \<Rightarrow> (nat \<rightharpoonup> nat) \<Rightarrow> bool" where
  "blocks_rep env h B \<longleftrightarrow>
     can_lock env h \<and> (\<exists>cs ds. heap_inv h cs \<and> delayed h ds cs \<and> B = live cs (set ds))"

lemma blocks_rep_disjoint:
  assumes "blocks_rep env h B" "B a = Some m" "B b = Some n" "a < b"
  shows "a + m \<le> b"
proof -
  obtain cs ds where cs: "heap_inv h cs" "B = live cs (set ds)"
    using assms(1) by (auto simp: blocks_rep_def)
  note raw = heap_invD(1) [OF cs(1)]
  note iff = live_iff [OF heap_distinct [OF raw]]
  obtain a' s where a: "a = a' + 8" "m = s - 8" "(a', s, True) \<in> set cs"
    using assms(2) cs(2) iff by auto
  obtain b' t where b: "b = b' + 8" "(b', t, True) \<in> set cs"
    using assms(3) cs(2) iff by auto
  show ?thesis using heap_ordered [OF raw a(3) b(2)] assms(4) a b by simp
qed

lemma blocks_rep_null: "blocks_rep env h B \<Longrightarrow> B 0 = None"
proof -
  assume "blocks_rep env h B"
  then obtain cs ds where cs: "heap_inv h cs" "B = live cs (set ds)" by (auto simp: blocks_rep_def)
  show ?thesis using live_iff [OF heap_distinct [OF heap_invD(1) [OF cs(1)]], of _ 0] cs(2)
    by (cases "B 0") auto
qed

lemma live_released:
  assumes "heap_inv h cs" "heap_inv h' (released A cs)"
  shows "live (released A cs) D = live cs (A \<union> D)"
  using heap_distinct [OF heap_invD(1) [OF assms(1)]] heap_distinct [OF heap_invD(1) [OF assms(2)]]
  by (intro live_eqI) (auto simp: released_alloc live_iff)

lemma delayed_None: "mm_delaylist h = None \<Longrightarrow> delayed h [] cs"
  by (simp add: delayed_def)

lemma can_lock_undelayed:
  "can_lock env h \<Longrightarrow> nodes_only K (h\<lparr>mm_delaylist := None\<rparr>) h' \<Longrightarrow> can_lock env h' \<and> mm_delaylist h' = None"
  by (simp add: can_lock_def nodes_only_def)

lemma live_take:
  assumes inv: "heap_inv h (xs @ (a, s, False) # ys)" and inv': "heap_inv h' (xs @ take_chunk a s n @ ys)"
  shows "live (xs @ (a, s, False) # ys) {} (a + 8) = None"
    and "live (xs @ take_chunk a s n @ ys) {} =
           (live (xs @ (a, s, False) # ys) {})(a + 8 \<mapsto> (if n < s then n else s) - 8)"
proof -
  note d = heap_distinct [OF heap_invD(1) [OF inv]] heap_distinct [OF heap_invD(1) [OF inv']]
  note l = live_iff [OF d(1), of "{}"]
  have nin: "(a, t, True) \<notin> set (xs @ (a, s, False) # ys)" for t
    using d(1) by force
  then have "live (xs @ (a, s, False) # ys) {} (a + 8) \<noteq> Some m" for m using l [of "a + 8" m] by simp
  then show N: "live (xs @ (a, s, False) # ys) {} (a + 8) = None" by (cases "live (xs @ (a, s, False) # ys) {} (a + 8)") auto
  show "live (xs @ take_chunk a s n @ ys) {} =
      (live (xs @ (a, s, False) # ys) {})(a + 8 \<mapsto> (if n < s then n else s) - 8)"
  proof (rule live_eqI [OF d(2)])
    fix b t assume bt: "(b, t, True) \<in> set (xs @ take_chunk a s n @ ys)" "b + 8 \<notin> {}"
    show "((live (xs @ (a, s, False) # ys) {})(a + 8 \<mapsto> (if n < s then n else s) - 8)) (b + 8) = Some (t - 8)"
    proof (cases "b = a")
      case True
      then have "t = (if n < s then n else s)" using nin bt by (auto simp: take_chunk_def split: if_splits)
      then show ?thesis using True by simp
    next
      case False
      then show ?thesis using bt l [of "b + 8" "t - 8"] by (auto simp: take_chunk_def split: if_splits)
    qed
  next
    fix b m assume "((live (xs @ (a, s, False) # ys) {})(a + 8 \<mapsto> (if n < s then n else s) - 8)) b = Some m"
    then show "\<exists>a' s'. b = a' + 8 \<and> m = s' - 8 \<and> (a', s', True) \<in> set (xs @ take_chunk a s n @ ys) \<and> b \<notin> {}"
      using l [of b m] by (auto simp: take_chunk_def split: if_splits)
  qed
qed

lemma blocks_rep_alloc_chunk:
  assumes rep: "blocks_rep env h B" and n: "n < 2 ^ 32 - 23"
  shows "\<exists>r h'. mm_malloc env n h = Some (r, h') \<and>
    (r = 0 \<and> blocks_rep env h' B \<or>
     r \<noteq> 0 \<and> B r = None \<and> (\<exists>m. n \<le> m \<and> chunk_size n \<le> m + 8 \<and> blocks_rep env h' (B(r \<mapsto> m))))"
proof -
  obtain cs ds where cs: "heap_inv h cs" "delayed h ds cs" "B = live cs (set ds)"
    and lock: "can_lock env h" using rep by (auto simp: blocks_rep_def)
  let ?cs = "released (set ds) cs"
  have B: "B = live ?cs {}" if "heap_inv h' ?cs" for h'
    using live_released [OF cs(1) that, of "{}"] cs(3) by simp
  have unchanged: "blocks_rep env h' B"
    if "heap_inv h' ?cs" "nodes_only (payload ?cs) (h\<lparr>mm_delaylist := None\<rparr>) h'" for h'
    using can_lock_undelayed [OF lock that(2)] delayed_None [of h' ?cs] B [OF that(1)] that(1)
    unfolding blocks_rep_def by (metis list.set(1))
  show ?thesis
  proof (cases "n = 0")
    case True
    from mm_malloc_zero [OF lock cs(1,2)] show ?thesis using True unchanged by auto
  next
    case False
    let ?n = "chunk_size n"
    obtain h1 where "heap_inv h1 ?cs" using mm_malloc_zero [OF lock cs(1,2)] by blast
    note B1 = B [OF this]
    have n': "0 < n" "n + 23 < 2 ^ 32" using False n by auto
    from mm_malloc_spec [OF lock cs(1,2) n'(1,2,1)] obtain r h' where
      r: "mm_malloc env n h = Some (r, h')" "nodes_only (payload ?cs) (h\<lparr>mm_delaylist := None\<rparr>) h'"
      and "r = 0 \<and> heap_inv h' ?cs \<or> (\<exists>xs a s ys. ?cs = xs @ (a, s, False) # ys \<and> r = a + 8 \<and>
        ?n \<le> s \<and> heap_inv h' (xs @ take_chunk a s ?n @ ys))" by blast
    then consider "r = 0" "heap_inv h' ?cs"
      | xs a s ys where "?cs = xs @ (a, s, False) # ys" "r = a + 8" "?n \<le> s"
          "heap_inv h' (xs @ take_chunk a s ?n @ ys)" by blast
    then show ?thesis
    proof cases
      case 1
      then show ?thesis using r unchanged by blast
    next
      case 2
      have "heap_inv h1 (xs @ (a, s, False) # ys)" using \<open>heap_inv h1 ?cs\<close> 2(1) by simp
      note lt = live_take [OF this 2(4), folded 2(1), folded B1]
      have "blocks_rep env h' (B(a + 8 \<mapsto> (if ?n < s then ?n else s) - 8))"
        using can_lock_undelayed [OF lock r(2)] delayed_None [of h'] lt(2) 2(4)
        unfolding blocks_rep_def by (metis list.set(1))
      moreover have "n \<le> (if ?n < s then ?n else s) - 8" "?n \<le> (if ?n < s then ?n else s) - 8 + 8"
        using chunk_size_props(1) [of n] 2(3) by auto
      ultimately show ?thesis using r(1) lt(1) 2(2) by auto
    qed
  qed
qed

lemma blocks_rep_alloc:
  assumes "blocks_rep env h B" "n < 2 ^ 32 - 23"
  shows "\<exists>r h'. mm_malloc env n h = Some (r, h') \<and>
    (r = 0 \<and> blocks_rep env h' B \<or>
     r \<noteq> 0 \<and> B r = None \<and> (\<exists>m. n \<le> m \<and> blocks_rep env h' (B(r \<mapsto> m))))"
  using blocks_rep_alloc_chunk [OF assms] by blast

lemma delayed_released:
  assumes "delayed h ds cs" "nodes_only (payload (released {b} cs)) h h'" "b \<notin> set ds"
    and inv: "heap_inv h' (released {b} cs)"
  shows "delayed h' ds (released {b} cs)"
proof -
  have ds: "\<exists>a s. d = a + 8 \<and> (a, s, True) \<in> set (released {b} cs)" if "d \<in> set ds" for d
    using assms(1,3) that by (fastforce simp: delayed_def released_alloc)
  then have "dflink h' d = dflink h d" if "d \<in> set ds" for d
    using that payload_start [OF inv] nodes_onlyD(1) [OF assms(2)] by blast
  then show ?thesis
    using assms(1) ds path_cong [of ds "dflink h'" "dflink h"] nodes_onlyD(6) [OF assms(2)]
    by (simp add: delayed_def)
qed

lemma blocks_rep_free:
  assumes rep: "blocks_rep env h B" and b: "B b = Some m"
  shows "\<exists>h'. mm_free env b h = Some h' \<and> blocks_rep env h' (B(b := None))"
proof -
  obtain cs ds where cs: "heap_inv h cs" "delayed h ds cs" "B = live cs (set ds)"
    and lock: "can_lock env h" using rep by (auto simp: blocks_rep_def)
  obtain a s where a: "b = a + 8" "(a, s, True) \<in> set cs" "b \<notin> set ds"
    using b cs(3) live_iff [OF heap_distinct [OF heap_invD(1) [OF cs(1)]]] by blast
  from mm_free_spec [OF lock cs(1) a(2)] obtain h' where
    h': "mm_free env b h = Some h'" "heap_inv h' (released {b} cs)"
    "nodes_only (payload (released {b} cs)) h h'"
    using a(1) by blast
  have "live (released {b} cs) (set ds) = B(b := None)"
    unfolding live_released [OF cs(1) h'(2)] cs(3)
    using heap_distinct [OF heap_invD(1) [OF cs(1)]]
    by (intro live_eqI) (auto simp: live_iff split: if_splits)
  then show ?thesis
    using h' can_lock_nodes_only [OF lock h'(3)] delayed_released [OF cs(2) h'(3) a(3) h'(2)]
    unfolding blocks_rep_def by metis
qed

text \<open>
  A release from an interrupt handler puts the block on the delay list; for the tasks it is
  released, and the next allocation returns it to the free list.
\<close>

lemma blocks_rep_free_irq:
  assumes rep: "blocks_rep env h B" and b: "B b = Some m"
  shows "\<exists>h'. mm_free (env\<lparr>env_interrupt := True\<rparr>) b h = Some h' \<and> blocks_rep env h' (B(b := None))"
proof -
  obtain cs ds where cs: "heap_inv h cs" "delayed h ds cs" "B = live cs (set ds)"
    and lock: "can_lock env h" using rep by (auto simp: blocks_rep_def)
  obtain a s where a: "b = a + 8" "(a, s, True) \<in> set cs" "b \<notin> set ds"
    using b cs(3) live_iff [OF heap_distinct [OF heap_invD(1) [OF cs(1)]]] by blast
  let ?h' = "mm_add_delaylist b h"
  have "heap_inv ?h' cs"
    using cs(1) heap_inv_fields [of ?h' h cs] by (simp add: mm_add_delaylist_def)
  moreover have "delayed ?h' (b # ds) cs"
    using cs(2) a by (auto simp: delayed_def mm_add_delaylist_def)
  moreover have "can_lock env ?h'" using lock by (simp add: can_lock_def mm_add_delaylist_def)
  moreover have "live cs (set (b # ds)) = B(b := None)"
    unfolding cs(3) using heap_distinct [OF heap_invD(1) [OF cs(1)]]
    by (intro live_eqI) (auto simp: live_iff split: if_splits)
  ultimately have "blocks_rep env ?h' (B(b := None))" unfolding blocks_rep_def by metis
  moreover have "mm_free (env\<lparr>env_interrupt := True\<rparr>) b h = Some ?h'" using a(1) by (simp add: mm_free_def)
  ultimately show ?thesis by blast
qed

lemma mm_free_null: "mm_free env 0 h = Some h"
  by (simp add: mm_free_def)

interpretation task_heap: allocator "mm_malloc env" "mm_free env" "blocks_rep env" "2 ^ 32 - 23" for env
  by unfold_locales
    (fact blocks_rep_disjoint blocks_rep_null blocks_rep_alloc blocks_rep_free mm_free_null)+

interpretation irq_heap: allocator "mm_malloc env" "mm_free (env\<lparr>env_interrupt := True\<rparr>)"
    "blocks_rep env" "2 ^ 32 - 23" for env
  by unfold_locales
    (fact blocks_rep_disjoint blocks_rep_null blocks_rep_alloc blocks_rep_free_irq mm_free_null)+

end
