(* ===== verification/MM_Init.thy ===== *)
theory MM_Init
  imports MM_Alloc
begin

text \<open>Setting up a heap, and the survey of its chunks by \<open>mm_mallinfo\<close>.\<close>

section \<open>Initialisation\<close>

lemma set_links_NL:
  "set_nflink (NL i) v h = h\<lparr>nflink := (nflink h)(NL i := v)\<rparr>"
  "set_nblink (NL i) v h = h\<lparr>nblink := (nblink h)(NL i := v)\<rparr>"
  by (simp_all add: set_nflink_def set_nblink_def node_word_def)

lemma set_hdata:
  assumes "clear K a 8" "x \<in> K"
  shows "hdata (set_size (Nd a) v h) x = hdata h x" "hdata (set_preceding (Nd a) v h) x = hdata h x"
  by (rule nodes_onlyD(2) [OF _ assms(2)], simp add: assms(1))+

lemma mm_link_nodelist_path:
  assumes "k < n" "path (nflink h) (Some (NL 0)) (map NL [0..<Suc k]) None"
    and "path (nblink h) (Some (NL k)) (rev (map NL [0..<Suc k])) None"
    and "\<And>i. k < i \<Longrightarrow> i < n \<Longrightarrow> nflink h (NL i) = None"
  defines "h' \<equiv> mm_link_nodelist [Suc k..<n] h"
  shows "path (nflink h') (Some (NL 0)) (map NL [0..<n]) None \<and>
         path (nblink h') (Some (NL (n - 1))) (rev (map NL [0..<n])) None \<and>
         h' = h\<lparr>nflink := nflink h', nblink := nblink h'\<rparr>"
  using assms(1-4) unfolding h'_def
proof (induction "n - k" arbitrary: k h)
  case 0
  then show ?case by simp
next
  case (Suc d)
  show ?case
  proof (cases "Suc k = n")
    case True
    show ?thesis using Suc.prems unfolding True [symmetric] by (simp del: upt_Suc)
  next
    case False
    then have k: "Suc k < n" using Suc.prems(1) by simp
    let ?g = "set_nblink (NL (Suc k)) (Some (NL k)) (set_nflink (NL k) (Some (NL (Suc k))) h)"
    have up: "[Suc k..<n] = Suc k # [Suc (Suc k)..<n]" using k by (simp add: upt_conv_Cons)
    have nx: "nflink h (NL (Suc k)) = None" using Suc.prems(4) [of "Suc k"] k by simp
    have "path ((nflink h)(NL k := Some (NL (Suc k)))) (Some (NL 0)) (map NL [0..<k] @ [NL k]) (Some (NL (Suc k)))"
      using Suc.prems(2) by (auto simp: image_iff)
    then have f: "path (nflink ?g) (Some (NL 0)) (map NL [0..<Suc (Suc k)]) None"
      using nx by (simp add: set_links_NL)
    have "NL (Suc k) \<notin> set (rev (map NL [0..<Suc k]))" by auto
    then have b: "path (nblink ?g) (Some (NL (Suc k))) (rev (map NL [0..<Suc (Suc k)])) None"
      using Suc.prems(3) path_upd [of "NL (Suc k)" "rev (map NL [0..<Suc k])" "nblink h"]
      by (simp add: set_links_NL)
    have "path (nflink (mm_link_nodelist [Suc (Suc k)..<n] ?g)) (Some (NL 0)) (map NL [0..<n]) None \<and>
        path (nblink (mm_link_nodelist [Suc (Suc k)..<n] ?g)) (Some (NL (n - 1))) (rev (map NL [0..<n])) None \<and>
        mm_link_nodelist [Suc (Suc k)..<n] ?g =
          ?g\<lparr>nflink := nflink (mm_link_nodelist [Suc (Suc k)..<n] ?g),
             nblink := nblink (mm_link_nodelist [Suc (Suc k)..<n] ?g)\<rparr>"
      by (rule Suc.hyps(1)) (use Suc k f b in \<open>auto simp: set_links_NL\<close>)
    moreover have "mm_link_nodelist [Suc k..<n] h = mm_link_nodelist [Suc (Suc k)..<n] ?g"
      using up by simp
    moreover have "?g\<lparr>nflink := F, nblink := B\<rparr> = h\<lparr>nflink := F, nblink := B\<rparr>" for F B
      by (simp add: set_links_NL)
    ultimately show ?thesis by simp
  qed
qed

lemma fkey_NL_mono: "sorted (map (fkey S) (map NL [0..<n]))"
  unfolding sorted_iff_nth_mono
  using fkey_NL_less [of S] by (auto simp: not_less [symmetric])

lemma mm_initialize_flist:
  fixes h :: mm_heap
  defines "g \<equiv> mm_link_nodelist [1..<MM_NNODES] (mm_clear_nodelist h)"
  shows "flist g (map NL [0..<MM_NNODES]) {}" "\<And>a. nsize g (Nd a) = nsize h (Nd a)"
    "mm_delaylist g = mm_delaylist h" "mm_heapsize g = mm_heapsize h" "hdata g = hdata h"
proof -
  let ?c = "mm_clear_nodelist h"
  have N: "MM_NNODES = 19" by (simp add: mm_consts)
  have "path (nflink g) (Some (NL 0)) (map NL [0..<MM_NNODES]) None \<and>
      path (nblink g) (Some (NL (MM_NNODES - 1))) (rev (map NL [0..<MM_NNODES])) None \<and>
      g = ?c\<lparr>nflink := nflink g, nblink := nblink g\<rparr>"
    by (rule mm_link_nodelist_path [of 0 MM_NNODES ?c, folded One_nat_def, folded g_def]) (auto simp: N mm_clear_nodelist_def Let_def)
  then obtain F B where p: "path (nflink g) (Some (NL 0)) (map NL [0..<MM_NNODES]) None"
      "path (nblink g) (Some (NL (MM_NNODES - 1))) (rev (map NL [0..<MM_NNODES])) None"
      and g: "g = ?c\<lparr>nflink := F, nblink := B\<rparr>" by blast
  have "last_opt (map NL [0..<MM_NNODES]) = Some (NL (MM_NNODES - 1))"
    by (simp add: last_opt_def N last_map)
  moreover have "nsize g (NL i) = 0" if "i < MM_NNODES" for i
    using that g by (simp add: mm_clear_nodelist_def Let_def)
  ultimately show "flist g (map NL [0..<MM_NNODES]) {}"
    using p fkey_NL_mono unfolding flist_def by (auto simp del: path_append)
  show "\<And>a. nsize g (Nd a) = nsize h (Nd a)"
    "mm_delaylist g = mm_delaylist h" "mm_heapsize g = mm_heapsize h" "hdata g = hdata h"
    using g by (simp_all add: mm_clear_nodelist_def Let_def)
qed

lemma sub32_eq:
  assumes "b \<le> a" "a < 2 ^ 32"
  shows "sub32 a b = a - b"
proof -
  have "a + 2 ^ 32 - b = (a - b) + 2 ^ 32" using assms(1) by simp
  then have "sub32 a b = (a - b) mod 2 ^ 32" unfolding sub32_def by (simp only: mod_add_self2)
  then show ?thesis using assms(2) by simp
qed

text \<open>Where the chunks of a fresh heap lie.\<close>

definition heap_base :: "nat \<Rightarrow> nat" where
  "heap_base heapstart = (heapstart + 15) div 16 * 16"

definition heap_limit :: "nat \<Rightarrow> nat \<Rightarrow> nat" where
  "heap_limit heapstart heapsize = (heapstart + heapsize) div 16 * 16"

lemma mm_initialize_spec:
  assumes "0 < start" "start + sz < 2 ^ 32" "sz < 2 ^ 31"
    and "heap_base start + 32 \<le> heap_limit start sz"
  shows "\<exists>h'. mm_initialize start sz h = Some h' \<and>
    heap_inv h' [(heap_base start + 8, heap_limit start sz - heap_base start - 16, False)] \<and>
    delayed h' [] [] \<and> mm_semcount h' = 1 \<and> mm_holder h' = NO_HOLDER \<and> mm_counts_held h' = 0 \<and>
    mm_heapsize h' = heap_limit start sz - heap_base start \<and>
    (\<forall>x. x < heap_base start \<or> heap_base start + 24 \<le> x \<and> x < heap_limit start sz - 8 \<or> heap_limit start sz \<le> x \<longrightarrow>
       hdata h' x = hdata h x)"
proof -
  define b where "b = heap_base start"
  define e where "e = heap_limit start sz"
  define n where "n = e - b - 16"
  have b: "start \<le> b" "16 dvd b" "0 < b" and e: "e \<le> start + sz" "16 dvd e"
    using assms(1) by (auto simp: b_def e_def heap_base_def heap_limit_def)
  have be: "b + 32 \<le> e" using assms(4) by (simp add: b_def e_def)
  have n: "16 \<le> n" "16 dvd n" "n < 2 ^ 31" "b + n + 16 = e"
    using b e be assms(3) by (auto simp: n_def dvd_diff_nat)
  have base: "MM_ALIGN_UP start = b"
    using MM_ALIGN_UP_eq [of start] b e be assms(2) by (simp add: b_def heap_base_def)
  have lim: "MM_ALIGN_DOWN ((start + sz) mod 2 ^ 32) = e"
    using assms(2) by (simp add: MM_ALIGN_DOWN_eq e_def heap_limit_def minus_mod_eq_div_mult)
  have e32: "e < 2 ^ 32" using e assms(2) by linarith
  have subs: "sub32 e b = n + 16" "sub32 (n + 16) (2 * SIZEOF_MM_ALLOCNODE) = n"
    "sub32 e SIZEOF_MM_ALLOCNODE = b + 8 + n"
    using n e32 sub32_eq [of b e] sub32_eq [of 16 "n + 16"] sub32_eq [of 8 e] by (auto simp: mm_consts)
  define h1 where "h1 = mm_link_nodelist [1..<MM_NNODES] (mm_clear_nodelist (h\<lparr>mm_heapsize := 0, mm_delaylist := None\<rparr>))"
  note I = mm_initialize_flist [of "h\<lparr>mm_heapsize := 0, mm_delaylist := None\<rparr>", folded h1_def]
  define h2 where "h2 = (mm_seminitialize h1)\<lparr>mm_heapsize := n + 16, mm_heapstart := b\<rparr>"
  define h3 where "h3 = set_preceding (Nd (b + 8 + n)) (n OR MM_ALLOC_BIT)
    (set_size (Nd (b + 8 + n)) 8 ((set_preceding (Nd (b + 8)) 8 (set_size (Nd (b + 8)) n
      (set_preceding (Nd b) MM_ALLOC_BIT (set_size (Nd b) 8 h2))))\<lparr>mm_heapend := b + 8 + n\<rparr>))"
  have "mm_initialize start sz h = mm_addregion start sz (mm_seminitialize h1)"
    by (simp add: mm_initialize_def Let_def h1_def)
  also have "\<dots> = mm_addfreechunk (Nd (b + 8)) h3"
    unfolding mm_addregion_def Let_def base lim subs h3_def h2_def
    using I(4) n by (simp add: mm_seminitialize_def set_size_def set_preceding_def mm_consts)
  finally have run: "mm_initialize start sz h = mm_addfreechunk (Nd (b + 8)) h3" .
  have "flist h3 (map NL [0..<MM_NNODES]) {}"
    by (rule flist_cong [OF I(1)]) (simp_all add: h3_def h2_def mm_seminitialize_def set_size_def set_preceding_def)
  moreover have "layout (nsize h3) (npreceding h3) b 0 [(b, 8, True), (b + 8, n, False), (b + 8 + n, 8, True)] (b + 8 + n + 8) 8"
    using n by (simp add: h3_def set_size_def set_preceding_def or_af af_def)
  ultimately have raw: "heap_raw h3 [(b + 8, n, False)] {}"
    using b e32 n be e assms(3) unfolding heap_raw_def heap_chunks_def
    by (auto simp: h3_def h2_def mm_consts set_size_def set_preceding_def simp del: layout.simps)
  define K where "K = {x. x < b \<or> b + 24 \<le> x \<and> x < e - 8 \<or> e \<le> x}"
  have K: "clear K b 8" "clear K (b + 8) 16" "clear K (b + 8) 8" "clear K (b + 8 + n) 8"
    using n by (auto simp: clear_def K_def)
  from raw_addfree [OF raw, of "b + 8" n False K] K(2) obtain h4 where
    h4: "mm_addfreechunk (Nd (b + 8)) h3 = Some h4" "heap_raw h4 [(b + 8, n, False)] {b + 8}"
    "links_only K h3 h4" by auto
  note L = links_onlyD [OF h4(3)]
  have "heap_inv h4 [(b + 8, n, False)]" using h4(2) by (simp add: heap_inv_def)
  moreover have "delayed h4 [] []" "mm_semcount h4 = 1" "mm_holder h4 = NO_HOLDER"
    "mm_counts_held h4 = 0" "mm_heapsize h4 = e - b"
    using L(1-10) I n by (simp_all add: h3_def h2_def set_size_def set_preceding_def mm_seminitialize_def delayed_def)
  moreover have "hdata h4 x = hdata h x" if "x \<in> K" for x
    using L(12) [OF that] I(5) K set_hdata [OF _ that]
    by (simp add: h3_def h2_def mm_seminitialize_def)
  ultimately show ?thesis using run h4(1) unfolding K_def b_def [symmetric] e_def [symmetric] n_def by auto
qed

section \<open>The survey of the chunks\<close>

fun total_size :: "chunk list \<Rightarrow> bool \<Rightarrow> nat" where
  "total_size [] al = 0"
| "total_size ((a, s, f) # cs) al = (if f = al then s else 0) + total_size cs al"

fun max_free :: "chunk list \<Rightarrow> nat \<Rightarrow> nat" where
  "max_free [] m = m"
| "max_free ((a, s, f) # cs) m = max_free cs (if \<not> f \<and> s > m then s else m)"

fun count_free :: "chunk list \<Rightarrow> nat" where
  "count_free [] = 0"
| "count_free ((a, s, f) # cs) = (if f then 0 else 1) + count_free cs"

lemma mm_mallinfo_loop_layout:
  assumes "layout (nsize h) (npreceding h) a p cs (mm_heapend h) q"
    and "\<forall>(b, s, f) \<in> set cs. 0 < s" "p + (mm_heapend h - a) < 2 ^ 31"
  shows "mm_mallinfo_loop h a info =
    Some (info\<lparr>ordblks := ordblks info + count_free cs,
               mxordblk := max_free cs (mxordblk info),
               uordblks := uordblks info + total_size cs True,
               fordblks := fordblks info + total_size cs False\<rparr>)"
  using assms
proof (induction cs arbitrary: a p info)
  case Nil
  then show ?case by (simp add: mm_mallinfo_loop.simps)
next
  case (Cons c cs)
  obtain b s f where c: "c = (b, s, f)" by (cases c)
  have l: "b = a" "nsize h (Nd a) = s" "npreceding h (Nd a) = p + af f" "0 < s"
    "layout (nsize h) (npreceding h) (a + s) s cs (mm_heapend h) q" using Cons.prems c by auto
  have le: "a + s \<le> mm_heapend h" using layout_le [OF l(5)] .
  have flag: "alloc_flag (npreceding h (Nd a)) = af f" using l(3) Cons.prems(3) by simp
  have "s + (mm_heapend h - (a + s)) < 2 ^ 31" using Cons.prems(3) le by linarith
  note IH = Cons.IH [OF l(5) _ this]
  show ?case using le l(2,4) Cons.prems(2) c
    by (subst mm_mallinfo_loop.simps) (simp add: flag IH)
qed

lemma total_size_layout:
  "layout S P a p cs e q \<Longrightarrow> total_size cs True + total_size cs False + a = e"
proof (induction cs arbitrary: a p)
  case (Cons c cs)
  obtain b s f where "c = (b, s, f)" by (cases c)
  then show ?case using Cons.prems Cons.IH [of "a + s" s] by auto
qed simp

lemma mm_mallinfo_spec:
  assumes lock: "can_lock env h" and inv: "heap_inv h cs"
  shows "\<exists>info h'. mm_mallinfo env h = Some (info, h') \<and> nodes_only UNIV h h' \<and> heap_inv h' cs \<and>
    arena info = mm_heapsize h \<and> ordblks info = count_free cs \<and> mxordblk info = max_free cs 0 \<and>
    uordblks info = 2 * SIZEOF_MM_ALLOCNODE + total_size cs True \<and>
    fordblks info = total_size cs False \<and>
    uordblks info + fordblks info = mm_heapend h + SIZEOF_MM_ALLOCNODE - mm_heapstart h"
proof -
  have "heap_raw h ([] @ cs @ []) (free_addrs cs)" using heap_invD(1) [OF inv] by simp
  then obtain a p b m where sp: "heap_split h [] cs [] a p b m" using heap_split_exists by blast
  then have l: "layout (nsize h) (npreceding h) (mm_heapstart h + 8) 8 cs (mm_heapend h) m"
    and g: "nsize h (Nd (mm_heapstart h)) = 8" "npreceding h (Nd (mm_heapstart h)) = af True"
    by (auto simp: heap_split_def)
  have sz: "sized cs" and lt: "mm_heapend h + 8 - mm_heapstart h < 2 ^ 31"
    using heap_invD(1) [OF inv] by (auto simp: heap_raw_def)
  let ?h1 = "locked env h"
  have l1: "layout (nsize ?h1) (npreceding ?h1) (mm_heapstart h) 0 ((mm_heapstart h, 8, True) # cs) (mm_heapend ?h1) m"
    using l g by simp
  have pos: "\<forall>(b, s, f) \<in> set ((mm_heapstart h, 8, True) # cs). 0 < s"
    using sz by (auto simp: sized_def)
  have "0 + (mm_heapend ?h1 - mm_heapstart h) < 2 ^ 31" using lt by simp
  note loop = mm_mallinfo_loop_layout [OF l1 pos this]
  have tot: "total_size cs True + total_size cs False + (mm_heapstart h + 8) = mm_heapend h"
    using total_size_layout [OF l] .
  have no: "nodes_only UNIV h (mm_givesemaphore ?h1)" using nodes_only_unlock [OF lock] by simp
  have "mm_mallinfo env h = Some (\<lparr>arena = mm_heapsize h, ordblks = count_free cs,
      mxordblk = max_free cs 0, uordblks = 16 + total_size cs True, fordblks = total_size cs False\<rparr>,
      mm_givesemaphore ?h1)"
    using mm_takesemaphore_ok [OF lock] loop by (simp add: mm_mallinfo_def Let_def mm_consts)
  then show ?thesis using no inv tot by (simp add: mm_consts)
qed

end
