(* ===== verification/MM_Resize.thy ===== *)
theory MM_Resize
  imports MM_Init
begin

text \<open>
  Resizing: \<open>mm_shrinkchunk\<close>, \<open>mm_realloc\<close>, \<open>mm_memalign\<close> and \<open>mm_extend\<close>, and the cleared
  allocation of \<open>mm_calloc\<close>.
\<close>

section \<open>When an allocation fails\<close>

text \<open>A free chunk is large enough for a request of \<open>n\<close> bytes, once the delayed releases are carried out.\<close>

definition has_room :: "mm_heap \<Rightarrow> nat \<Rightarrow> bool" where
  "has_room h n \<longleftrightarrow>
     (\<exists>cs ds a s. heap_inv h cs \<and> delayed h ds cs \<and> (a, s, False) \<in> set (released (set ds) cs) \<and> chunk_size n \<le> s)"

lemma has_room_less: "has_room h n \<Longrightarrow> k \<le> n \<Longrightarrow> has_room h k"
proof -
  assume "k \<le> n"
  then have "chunk_size k \<le> chunk_size n" unfolding chunk_size_def by (intro mult_le_mono div_le_mono) auto
  then show "has_room h n \<Longrightarrow> has_room h k" unfolding has_room_def by (meson le_trans)
qed

lemma mm_malloc_null:
  assumes "blocks_rep env h B" "0 < n" "n < 2 ^ 32 - 23" "mm_malloc env n h = Some (0, h')"
  shows "\<not> has_room h n"
proof
  assume "has_room h n"
  then obtain cs ds a s where r: "heap_inv h cs" "delayed h ds cs" "(a, s, False) \<in> set (released (set ds) cs)"
    "chunk_size n \<le> s" unfolding has_room_def by blast
  have lock: "can_lock env h" using assms(1) by (simp add: blocks_rep_def)
  have n: "n + 23 < 2 ^ 32" using assms(3) by simp
  from mm_malloc_spec [OF lock r(1,2) assms(2) n assms(2)] assms(4)
  have "\<forall>(a, s, al) \<in> set (released (set ds) cs). al \<or> s < chunk_size n" by auto
  with r(3,4) show False by fastforce
qed

section \<open>Moving the border between two chunks\<close>

lemma raw_pair:
  assumes inv: "heap_raw h (xs @ (a, s, al) # (b, t, bl) # ys) F"
  obtains p where "heap_split h xs [(a, s, al), (b, t, bl)] ys a p (a + s + t) t" "b = a + s"
    "nsize h (Nd a) = s" "nsize h (Nd b) = t" "npreceding h (Nd a) = p + af al"
    "npreceding h (Nd b) = s + af bl" "p < 2 ^ 31" "s + t < 2 ^ 31"
    "npreceding h (Nd (a + s + t)) = t + af (next_alloc ys)" "16 \<le> s" "16 \<le> t" "16 dvd s" "16 dvd t"
    "\<And>x. a \<le> x \<Longrightarrow> x < a + s + t \<Longrightarrow> x \<notin> free_addrs xs \<and> x \<notin> free_addrs ys"
proof -
  obtain p where H: "heap_split h xs [(a, s, al)] ((b, t, bl) # ys) a p (a + s) s"
    "nsize h (Nd a) = s" "npreceding h (Nd a) = p + af al" "p < 2 ^ 31" "16 \<le> s" "16 dvd s"
    using heap_chunk [OF inv] by metis
  have b: "b = a + s" "npreceding h (Nd b) = s + af bl" "nsize h (Nd b) = t"
    using H(1) by (auto simp: heap_split_def)
  have sp: "heap_split h xs [(a, s, al), (b, t, bl)] ys a p (a + s + t) t"
    using H(1) by (auto simp: heap_split_def)
  have inv3: "heap_raw h (xs @ [(a, s, al), (b, t, bl)] @ ys) F" using inv by simp
  note F = heap_split_facts [OF inv3 sp]
  show ?thesis
    using that [OF sp b(1) H(2) b(3) H(3) b(2) H(4)] H F(1,5,11) raw_size(2,3) [OF inv, of b t bl]
      free_addrs_notin [OF inv3 sp]
    by auto
qed

lemma raw_shift:
  assumes inv: "heap_raw h (xs @ (a, s, al) # (b, t, bl) # ys) F" and F: "a \<notin> F" "a + n \<notin> F"
    and n: "16 \<le> n" "16 dvd n" "n < s + t"
    and g: "nsize g = (nsize h)(Nd a := n, Nd (a + n) := s + t - n)"
      "npreceding g = (npreceding h)(Nd a := clear_alloc (npreceding h (Nd a)) + af al1,
         Nd (a + n) := n + af al2,
         Nd (a + s + t) := s + t - n + alloc_flag (npreceding h (Nd (a + s + t))))"
      "mm_heapstart g = mm_heapstart h" "mm_heapend g = mm_heapend h"
      "nflink g = nflink h" "nblink g = nblink h"
  shows "heap_raw g (xs @ (a, n, al1) # (a + n, s + t - n, al2) # ys) F"
proof -
  obtain p where H: "heap_split h xs [(a, s, al), (b, t, bl)] ys a p (a + s + t) t"
    "npreceding h (Nd a) = p + af al" "p < 2 ^ 31" "s + t < 2 ^ 31"
    "npreceding h (Nd (a + s + t)) = t + af (next_alloc ys)" "16 dvd s" "16 dvd t"
    using raw_pair [OF inv] by metis
  have big: "16 \<le> s + t - n" using dvd16_less [OF n(2) _ n(3)] H(6,7) by simp
  have inv3: "heap_raw h (xs @ [(a, s, al), (b, t, bl)] @ ys) F" using inv by simp
  have "heap_raw g (xs @ [(a, n, al1), (a + n, s + t - n, al2)] @ ys) F"
    by (rule raw_replace [where r = "s + t - n", OF inv3 H(1)]) (use F g H n big in \<open>auto simp: dvd_diff_nat\<close>)
  then show ?thesis by simp
qed

section \<open>Shrinking a chunk\<close>

lemma mm_shrinkchunk_spec:
  assumes inv: "heap_inv h (xs @ (a, s, True) # ys)" and n: "16 \<le> n" "16 dvd n" "n < s"
  shows "\<exists>h'. mm_shrinkchunk a n h = Some h' \<and>
           heap_inv h' (coalesce (xs @ (a, n, True) # (a + n, s - n, False) # ys)) \<and>
           nodes_only (payload (xs @ (a, n, True) # ys)) h h'"
proof (cases "next_alloc ys")
  case True
  note raw = heap_invD(1) [OF inv]
  define K where "K = payload (xs @ (a, n, True) # ys)"
  have co: "coalesced (xs @ (a, n, True) # (a + n, s - n, False) # ys)"
    using heap_invD(2) [OF inv] True by (simp add: coalesced_append coalesced_Cons)
  obtain p where H: "nsize h (Nd a) = s" "npreceding h (Nd a) = p + af True" "p < 2 ^ 31" "s < 2 ^ 31"
    "npreceding h (Nd (a + s)) = s + af (next_alloc ys)" "16 \<le> s" "16 dvd s"
    "\<And>x. a \<le> x \<Longrightarrow> x < a + s \<Longrightarrow> x \<notin> free_addrs xs \<and> x \<notin> free_addrs ys"
    using heap_chunk [OF raw] by metis
  have big: "n + 16 \<le> s" using dvd16_less [OF n(2) H(7) n(3)] .
  define g where "g = set_preceding (Nd (a + s)) (s - n OR MM_ALLOC_BIT)
    (set_size (Nd a) n (set_preceding (Nd (a + n)) n (set_size (Nd (a + n)) (s - n) h)))"
  have rawg: "heap_raw g (xs @ (a, n, True) # (a + n, s - n, False) # ys) (free_addrs xs \<union> free_addrs ys)"
    by (rule raw_split_chunk [OF raw [simplified]])
      (use n True H in \<open>auto simp: g_def fun_upd_twist mm_flags fun_upd_idem_iff\<close>)
  have ap: "apart K g (xs @ (a, n, True) # (a + n, s - n, False) # ys)"
    by (rule apart_subset [OF apart_payload [OF rawg]]) (auto simp: K_def payload_def)
  have cl: "clear K a 8" "clear K (a + n) 8" "clear K (a + s) 8"
    using apartD(1) [OF ap] apart_next [of g "xs @ [(a, n, True)]" "a + n" "s - n" False ys _ K] ap rawg n(3) by auto
  from raw_addfree [OF rawg, of "a + n" "s - n" False K] H(8) [of "a + n"] n(3) apartD(2) [OF ap] obtain h2 where
    h2: "mm_addfreechunk (Nd (a + n)) g = Some h2" "links_only K g h2"
      "heap_raw h2 (xs @ (a, n, True) # (a + n, s - n, False) # ys)
         (insert (a + n) (free_addrs xs \<union> free_addrs ys))" by auto
  have "mm_shrinkchunk a n h = Some h2"
    using h2(1) H True big n unfolding g_def by (simp add: mm_shrinkchunk_def Let_def mm_consts)
  moreover have "heap_inv h2 (coalesce (xs @ (a, n, True) # (a + n, s - n, False) # ys))"
    unfolding coalesce_id [OF co] using h2(3) co by (simp add: heap_inv_def)
  moreover have "nodes_only K h h2"
    using nodes_only_trans [OF _ nodes_only_links [OF h2(2)]] cl by (simp add: g_def)
  ultimately show ?thesis unfolding K_def by blast
next
  case False
  then obtain b t ys' where ys: "ys = (b, t, False) # ys'" by (cases ys) auto
  have raw: "heap_raw h (xs @ (a, s, True) # (b, t, False) # ys') (free_addrs xs \<union> insert b (free_addrs ys'))"
    using heap_invD(1) [OF inv] ys by simp
  have co: "coalesced (xs @ (a, n, True) # (a + n, s + t - n, False) # ys')"
    using heap_invD(2) [OF inv] ys by (simp add: coalesced_append coalesced_Cons)
  have eq: "coalesce (xs @ (a, n, True) # (a + n, s - n, False) # ys) =
      xs @ (a, n, True) # (a + n, s + t - n, False) # ys'"
    using coalesce_id [OF co] coalesce_merge [of "xs @ [(a, n, True)]" "a + n" "s - n" b t ys'] n ys by simp
  obtain p where H: "b = a + s" "nsize h (Nd a) = s" "nsize h (Nd b) = t" "npreceding h (Nd a) = p + af True"
    "npreceding h (Nd b) = s + af False" "p < 2 ^ 31" "s + t < 2 ^ 31"
    "npreceding h (Nd (a + s + t)) = t + af (next_alloc ys')" "16 \<le> s" "16 \<le> t"
    "\<And>x. a \<le> x \<Longrightarrow> x < a + s + t \<Longrightarrow> x \<notin> free_addrs xs \<and> x \<notin> free_addrs ys'"
    using raw_pair [OF raw] by metis
  define K where "K = payload (xs @ (a, n, True) # ys)"
  have "K \<subseteq> payload (xs @ (a, s, True) # (b, t, False) # ys')"
    using payload_shrink [of n s xs a ys] n ys by (simp add: K_def)
  note ap0 = apart_subset [OF apart_payload [OF raw] this]
  have "free_addrs xs \<union> insert b (free_addrs ys') - {b} = free_addrs xs \<union> free_addrs ys'"
    using H(11) [of b] H(1,10) by auto
  then obtain h1 where h1: "mm_unlink (Nd b) h = Some h1" "links_only K h h1"
    "heap_raw h1 (xs @ (a, s, True) # (b, t, False) # ys') (free_addrs xs \<union> free_addrs ys')"
    using raw_unlink [OF raw, of b K] apartD(2) [OF ap0] by auto
  note L = links_onlyD [OF h1(2)] nodes_only_links [OF h1(2)]
  define g where "g = set_preceding (Nd (a + s + t)) (s + t - n OR alloc_flag (npreceding h1 (Nd (a + s + t))))
    (set_size (Nd a) n (set_preceding (Nd (a + n)) n (set_size (Nd (a + n)) (s + t - n) h1)))"
  have rawg: "heap_raw g (xs @ (a, n, True) # (a + n, s + t - n, False) # ys') (free_addrs xs \<union> free_addrs ys')"
    by (rule raw_shift [OF h1(3)])
      (use n H L in \<open>auto simp: g_def fun_upd_twist mm_flags fun_upd_idem_iff\<close>)
  have ap: "apart K g (xs @ (a, n, True) # (a + n, s + t - n, False) # ys')"
    by (rule apart_subset [OF apart_payload [OF rawg]]) (auto simp: K_def ys payload_def)
  have cl: "clear K a 8" "clear K (a + n) 8" "clear K (a + s + t) 8"
    using apartD(1) [OF ap] apart_next [of g "xs @ [(a, n, True)]" "a + n" "s + t - n" False ys' _ K] ap rawg n(3)
    by (auto simp: add.assoc)
  from raw_addfree [OF rawg, of "a + n" "s + t - n" False K] H(11) [of "a + n"] n(3) apartD(2) [OF ap] obtain h2 where
    h2: "mm_addfreechunk (Nd (a + n)) g = Some h2" "links_only K g h2"
      "heap_raw h2 (xs @ (a, n, True) # (a + n, s + t - n, False) # ys')
         (insert (a + n) (free_addrs xs \<union> free_addrs ys'))" by auto
  have "mm_shrinkchunk a n h = Some h2"
    using h2(1) h1(1) H n L unfolding g_def by (simp add: mm_shrinkchunk_def Let_def mm_consts add.commute)
  moreover have "heap_inv h2 (coalesce (xs @ (a, n, True) # (a + n, s - n, False) # ys))"
    unfolding eq using h2(3) co by (simp add: heap_inv_def)
  moreover have "nodes_only K h h2"
    using nodes_only_trans [OF _ nodes_only_links [OF h2(2)]] L cl by (simp add: g_def)
  ultimately show ?thesis unfolding K_def by blast
qed

section \<open>Growing a chunk into its neighbours\<close>

lemma realloc_takes_spec:
  assumes "realloc_takes needed p n = (tp, tn)" "0 < needed" "needed \<le> p + n"
  shows "tp + tn = needed" "tp \<le> p" "tn \<le> n"
  using assms by (auto simp: realloc_takes_def Let_def split: if_splits)

lemma realloc_takes_dvd:
  assumes "realloc_takes needed p n = (tp, tn)" "16 dvd needed" "16 dvd p" "16 dvd n"
  shows "16 dvd tp" "16 dvd tn"
  using assms by (auto simp: realloc_takes_def Let_def dvd_diff_nat split: if_splits)

definition rest :: "nat \<Rightarrow> nat \<Rightarrow> chunk list" where
  "rest a s = (if 0 < s then [(a, s, False)] else [])"

lemma takeprev_clear:
  assumes raw: "heap_raw h (xs @ (c, r, False) # (a, s, True) # ys) F"
    and tp: "0 < tp" "tp \<le> r" "16 dvd tp"
  defines "K \<equiv> payload (xs @ (a, s, True) # ys)"
  shows "f \<in> insert c (free_addrs xs \<union> free_addrs ys) \<Longrightarrow> clear K f 16"
    "clear K c 8" "clear K (a - tp) 8" "clear K (a + s) 8"
proof -
  obtain p where H: "heap_split h xs [(c, r, False)] ((a, s, True) # ys) c p (c + r) r" "16 \<le> r"
    using heap_chunk [OF raw] by metis
  have a: "a = c + r" using H(1) by (simp add: heap_split_def)
  have "16 \<le> tp" using tp by (auto elim: dvdE)
  have raw1: "heap_raw h (xs @ [(c, r, False)] @ (a, s, True) # ys) F" using raw by simp
  have "apart K h (xs @ [(c, r, False), (a - tp, tp, False)] @ (a, s, True) # ys)"
    unfolding K_def by (rule apart_run(1) [OF raw1 H(1)]) (use H(2) a tp \<open>16 \<le> tp\<close> in auto)
  then show "f \<in> insert c (free_addrs xs \<union> free_addrs ys) \<Longrightarrow> clear K f 16"
    "clear K c 8" "clear K (a - tp) 8"
    by (auto simp: apart_def heap_chunks_def)
  have "apart K h ((xs @ [(c, r, False)]) @ (a, s, True) # ys)"
    by (rule apart_subset [OF apart_payload]) (use raw in \<open>auto simp: K_def payload_def\<close>)
  then show "clear K (a + s) 8"
    using apart_next [of h "xs @ [(c, r, False)]" a s True ys F] raw by simp
qed

lemma takeprev_copy:
  assumes raw: "heap_raw h (xs @ (c, r, False) # (a, s, True) # ys) F"
    and tp: "0 < tp" "tp \<le> r" "16 dvd tp"
    and no: "nodes_only (payload (xs @ (a, s, True) # ys)) h g"
  defines "m \<equiv> memcpy (a - tp + 8) (a + 8) (s - 8) (hdata g)"
  shows "nodes_only (payload (xs @ ys)) h (g\<lparr>hdata := m\<rparr>) \<and>
    (\<forall>i < s - 8. m (a - tp + 8 + i) = hdata h (a + 8 + i))"
proof -
  obtain p where H: "heap_split h xs [(c, r, False), (a, s, True)] ys c p (c + r + s) s" "a = c + r" "16 \<le> s"
    using raw_pair [OF raw] by metis
  have raw1: "heap_raw h (xs @ [(c, r, False), (a, s, True)] @ ys) F" using raw by simp
  have "clear (payload (xs @ ys)) c (r + s)" using apart_run(3) [OF raw1 H(1), of "[]"] by simp
  then have "m x = hdata g x" if "x \<in> payload (xs @ ys)" for x
    unfolding m_def using that H(2,3) tp by (intro memcpy_outside) (auto dest: clearD)
  moreover have "nodes_only (payload (xs @ ys)) h g" using nodes_only_subset [OF no payload_without] .
  ultimately have "nodes_only (payload (xs @ ys)) h (g\<lparr>hdata := m\<rparr>)" by (simp add: nodes_only_def)
  moreover have "m (a - tp + 8 + i) = hdata h (a + 8 + i)" if "i < s - 8" for i
  proof -
    have "a + 8 + i \<in> payload (xs @ (a, s, True) # ys)" using that by (intro payloadI [of a s]) auto
    then show ?thesis
      unfolding m_def using memcpy_inside [of "a - tp + 8" "a + 8" "s - 8" i] that nodes_onlyD(2) [OF no] by simp
  qed
  ultimately show ?thesis by blast
qed

lemma realloc_takeprev_spec:
  assumes inv: "heap_inv h (xs @ (c, r, False) # (a, s, True) # ys)"
    and tp: "0 < tp" "tp \<le> r" "16 dvd tp"
  shows "\<exists>h'. realloc_takeprev a s c r (a + s) tp h = Some (a - tp, h') \<and>
    heap_inv h' (xs @ rest c (r - tp) @ (a - tp, s + tp, True) # ys) \<and>
    nodes_only (payload (xs @ ys)) h h' \<and>
    (\<forall>i < s - 8. hdata h' (a - tp + 8 + i) = hdata h (a + 8 + i)) \<and>
    nsize h' (Nd (a - tp)) = s + tp"
proof -
  have raw: "heap_raw h (xs @ (c, r, False) # (a, s, True) # ys) (insert c (free_addrs xs \<union> free_addrs ys))"
    using heap_invD(1) [OF inv] by simp
  have al: "prev_alloc xs" "coalesced xs" "coalesced ys"
    using heap_invD(2) [OF inv] by (auto simp: coalesced_append coalesced_Cons)
  obtain p where H: "a = c + r" "nsize h (Nd c) = r" "nsize h (Nd a) = s" "npreceding h (Nd c) = p + af False"
    "npreceding h (Nd a) = r + af True" "p < 2 ^ 31" "r + s < 2 ^ 31"
    "npreceding h (Nd (c + r + s)) = s + af (next_alloc ys)" "16 \<le> r" "16 \<le> s" "16 dvd r" "16 dvd s"
    "\<And>x. c \<le> x \<Longrightarrow> x < c + r + s \<Longrightarrow> x \<notin> free_addrs xs \<and> x \<notin> free_addrs ys"
    using raw_pair [OF raw] by metis
  let ?F = "free_addrs xs \<union> free_addrs ys"
  define K where "K = payload (xs @ (a, s, True) # ys)"
  note cl = takeprev_clear [OF raw tp, folded K_def]
  have "insert c ?F - {c} = ?F" using H(13) [of c] H(9) by auto
  then obtain h1 where h1: "mm_unlink (Nd c) h = Some h1" "links_only K h h1"
    "heap_raw h1 (xs @ (c, r, False) # (a, s, True) # ys) ?F"
    using raw_unlink [OF raw, of c K] cl(1) by auto
  have copy: "nodes_only (payload (xs @ ys)) h (g\<lparr>hdata := memcpy (a - tp + 8) (a + 8) (s - 8) (hdata g)\<rparr>) \<and>
      (\<forall>i < s - 8. memcpy (a - tp + 8) (a + 8) (s - 8) (hdata g) (a - tp + 8 + i) = hdata h (a + 8 + i))"
    if "nodes_only K h g" for g
    by (rule takeprev_copy [OF raw tp]) (use that K_def in simp)
  note L = links_onlyD [OF h1(2)] nodes_only_links [OF h1(2)]
  show ?thesis
  proof (cases "tp < r")
    case True
    have n: "16 \<le> r - tp" "16 dvd r - tp" using dvd16_less [OF tp(3) H(11) True] H(11) tp(3) by (auto simp: dvd_diff_nat)
    define g where "g = set_preceding (Nd (a + s)) (s + tp OR alloc_flag (npreceding h1 (Nd (a + s))))
      (set_preceding (Nd (a - tp)) (r - tp OR MM_ALLOC_BIT)
        (set_size (Nd (a - tp)) (s + tp) (set_size (Nd c) (r - tp) h1)))"
    have e: "c + (r - tp) = a - tp" "r + s - (r - tp) = s + tp" using H(1) True by auto
    have "heap_raw g (xs @ (c, r - tp, False) # (c + (r - tp), r + s - (r - tp), True) # ys) ?F"
    proof (rule raw_shift [OF h1(3)])
      show "c \<notin> ?F" "c + (r - tp) \<notin> ?F" using H(9) H(13) [of c] H(13) [of "c + (r - tp)"] tp by auto
      show "nsize g = (nsize h1)(Nd c := r - tp, Nd (c + (r - tp)) := r + s - (r - tp))"
        unfolding e by (simp add: g_def)
      show "npreceding g = (npreceding h1)(Nd c := clear_alloc (npreceding h1 (Nd c)) + af False,
          Nd (c + (r - tp)) := r - tp + af True,
          Nd (c + r + s) := r + s - (r - tp) + alloc_flag (npreceding h1 (Nd (c + r + s))))"
        unfolding e using H L True by (simp add: g_def mm_flags fun_upd_idem)
    qed (use n H in \<open>auto simp: g_def\<close>)
    then have rawg: "heap_raw g (xs @ (c, r - tp, False) # (a - tp, s + tp, True) # ys) ?F"
      unfolding e .
    from raw_addfree [OF this, of c "r - tp" False K] H(13) [of c] H(9) cl(1) obtain h2 where
      h2: "mm_addfreechunk (Nd c) g = Some h2" "links_only K g h2"
        "heap_raw h2 (xs @ (c, r - tp, False) # (a - tp, s + tp, True) # ys) (insert c ?F)" by auto
    note L2 = links_onlyD [OF h2(2)] nodes_only_links [OF h2(2)]
    define h3 where "h3 = h2\<lparr>hdata := memcpy (a - tp + 8) (a + 8) (s - 8) (hdata h2)\<rparr>"
    have ne: "a - tp \<noteq> c" "a + s \<noteq> a - tp" using H(1,10) True tp by linarith+
    have "realloc_takeprev a s c r (a + s) tp h = Some (a - tp, h3)"
      using h1(1) h2(1) H(2) L True ne unfolding g_def h3_def
      by (simp add: realloc_takeprev_def Let_def mm_consts)
    moreover have "heap_inv h3 (xs @ rest c (r - tp) @ (a - tp, s + tp, True) # ys)"
    proof -
      have "heap_inv h2 (xs @ (c, r - tp, False) # (a - tp, s + tp, True) # ys)"
        using h2(3) al by (simp add: heap_inv_def coalesced_append coalesced_Cons)
      then show ?thesis using True by (simp add: h3_def rest_def)
    qed
    moreover have "nodes_only K h h2"
      using nodes_only_trans [OF _ L2(13)] L(13) cl(2-4) by (simp add: g_def)
    note copy [OF this]
    moreover have "nsize h3 (Nd (a - tp)) = s + tp" using L2(1) by (simp add: h3_def g_def)
    ultimately show ?thesis unfolding h3_def by auto
  next
    case False
    then have e: "tp = r" "a - r = c" using tp H(1) by auto
    have ne: "a + s \<noteq> c" using H(1,10) by linarith
    define g1 where "g1 = set_preceding (Nd c) (npreceding h1 (Nd c) OR MM_ALLOC_BIT) h1"
    define g2 where "g2 = set_preceding (Nd (a + s)) (r + s OR alloc_flag (npreceding h1 (Nd (a + s))))
      (set_preceding (Nd c) (npreceding h1 (Nd c) OR MM_ALLOC_BIT) (set_size (Nd c) (r + s) h1))"
    have "heap_raw g1 (xs @ (c, r, True) # (a, s, True) # ys) ?F"
      by (rule raw_flag [OF h1(3)]) (use H L in \<open>auto simp: g1_def mm_flags\<close>)
    moreover have "c \<notin> ?F" using H(9) H(13) [of c] by auto
    ultimately have "heap_raw g2 (xs @ (c, r + s, True) # ys) ?F"
      by (rule raw_merge_chunk(2)) (use H L in \<open>auto simp: g1_def g2_def mm_flags\<close>)
    then have "heap_inv g2 (xs @ (c, r + s, True) # ys)"
      using al by (simp add: heap_inv_def coalesced_append coalesced_Cons)
    moreover define h3 where "h3 = g2\<lparr>hdata := memcpy (a - tp + 8) (a + 8) (s - 8) (hdata g2)\<rparr>"
    ultimately have "heap_inv h3 (xs @ rest c (r - tp) @ (a - tp, s + tp, True) # ys)"
      using e by (simp add: rest_def add.commute)
    moreover have "realloc_takeprev a s c r (a + s) tp h = Some (a - tp, h3)"
      using h1(1) H(2) L e ne unfolding g2_def h3_def by (simp add: realloc_takeprev_def Let_def mm_consts)
    moreover have "nodes_only K h g2" using L(13) cl(2-4) by (simp add: g2_def)
    note copy [OF this]
    moreover have "nsize h3 (Nd (a - tp)) = s + tp" using e by (simp add: h3_def g2_def)
    ultimately show ?thesis unfolding h3_def by auto
  qed
qed

lemma takenext_clear:
  assumes raw: "heap_raw h (xs @ (a, s, True) # (b, t, False) # ys) F"
    and tn: "0 < tn" "tn \<le> t" "16 dvd tn"
  defines "K \<equiv> payload (xs @ (a, s, True) # ys)"
  shows "f \<in> insert b (free_addrs xs \<union> free_addrs ys) \<Longrightarrow> clear K f 16"
    "clear K a 8" "clear K (b + t) 8" "tn < t \<Longrightarrow> clear K (a + (s + tn)) 16"
proof -
  let ?xs = "xs @ [(a, s, True)]"
  have raw1: "heap_raw h (?xs @ (b, t, False) # ys) F" and raw2: "heap_raw h (?xs @ [(b, t, False)] @ ys) F"
    using raw by simp_all
  obtain p where H: "heap_split h ?xs [(b, t, False)] ys b p (b + t) t" "16 dvd t" "16 \<le> t"
    using heap_chunk [OF raw1] by metis
  have b: "b = a + s" using raw_pair [OF raw] by metis
  have K: "K = payload (?xs @ ys)" by (simp add: K_def)
  have ap: "apart K h (?xs @ [(b, t, False)] @ ys)"
    unfolding K by (rule apart_run(1) [OF raw2 H(1)]) (use H in auto)
  then show "f \<in> insert b (free_addrs xs \<union> free_addrs ys) \<Longrightarrow> clear K f 16" "clear K a 8"
    by (auto simp: apart_def heap_chunks_def)
  show "clear K (b + t) 8" unfolding K using apart_run(2) [OF raw2 H(1), of "[]"] by simp
  show "clear K (a + (s + tn)) 16" if "tn < t"
  proof (rule clear_part)
    show "clear K b (b + t - b)" unfolding K using apart_run(3) [OF raw2 H(1), of "[]"] by simp
    show "b \<le> a + (s + tn)" "a + (s + tn) + 16 \<le> b + (b + t - b)"
      using dvd16_less [OF tn(3) H(2) that] b by auto
  qed
qed

lemma realloc_takenext_spec:
  assumes inv: "heap_inv h (xs @ (a, s, True) # (b, t, False) # ys)"
    and tn: "0 < tn" "tn \<le> t" "16 dvd tn"
  shows "\<exists>h'. realloc_takenext a s b t tn h = Some h' \<and>
    heap_inv h' (xs @ (a, s + tn, True) # rest (a + s + tn) (t - tn) @ ys) \<and>
    nodes_only (payload (xs @ (a, s, True) # ys)) h h'"
proof -
  have raw: "heap_raw h (xs @ (a, s, True) # (b, t, False) # ys) (insert b (free_addrs xs \<union> free_addrs ys))"
    using heap_invD(1) [OF inv] by simp
  have al: "next_alloc ys" "coalesced xs" "coalesced ys"
    using heap_invD(2) [OF inv] by (auto simp: coalesced_append coalesced_Cons)
  obtain p where H: "b = a + s" "nsize h (Nd a) = s" "nsize h (Nd b) = t" "npreceding h (Nd a) = p + af True"
    "npreceding h (Nd b) = s + af False" "p < 2 ^ 31" "s + t < 2 ^ 31"
    "npreceding h (Nd (a + s + t)) = t + af (next_alloc ys)" "16 \<le> s" "16 \<le> t" "16 dvd s" "16 dvd t"
    "\<And>x. a \<le> x \<Longrightarrow> x < a + s + t \<Longrightarrow> x \<notin> free_addrs xs \<and> x \<notin> free_addrs ys"
    using raw_pair [OF raw] by metis
  let ?F = "free_addrs xs \<union> free_addrs ys"
  define K where "K = payload (xs @ (a, s, True) # ys)"
  note cl = takenext_clear [OF raw tn, folded K_def]
  have "insert b ?F - {b} = ?F" using H(13) [of b] H(1,10) by auto
  then obtain h1 where h1: "mm_unlink (Nd b) h = Some h1" "links_only K h h1"
    "heap_raw h1 (xs @ (a, s, True) # (b, t, False) # ys) ?F"
    using raw_unlink [OF raw, of b K] cl(1) by auto
  note L = links_onlyD [OF h1(2)] nodes_only_links [OF h1(2)]
  have aF: "a \<notin> ?F" using H(9) H(13) [of a] by auto
  show ?thesis
  proof (cases "tn < t")
    case True
    define g where "g = set_preceding (Nd (b + t)) (t - tn OR alloc_flag (npreceding h1 (Nd (b + t))))
      (set_preceding (Nd (a + (s + tn))) (s + tn)
        (set_size (Nd (a + (s + tn))) (t - tn) (set_size (Nd a) (s + tn) h1)))"
    have e: "s + t - (s + tn) = t - tn" by simp
    have "heap_raw g (xs @ (a, s + tn, True) # (a + (s + tn), s + t - (s + tn), False) # ys) ?F"
    proof (rule raw_shift [OF h1(3)])
      show "a + (s + tn) \<notin> ?F" using H(13) [of "a + (s + tn)"] True by auto
      show "nsize g = (nsize h1)(Nd a := s + tn, Nd (a + (s + tn)) := s + t - (s + tn))"
        unfolding e by (simp add: g_def)
      show "npreceding g = (npreceding h1)(Nd a := clear_alloc (npreceding h1 (Nd a)) + af True,
          Nd (a + (s + tn)) := s + tn + af False,
          Nd (a + s + t) := s + t - (s + tn) + alloc_flag (npreceding h1 (Nd (a + s + t))))"
        unfolding e using H L True by (simp add: g_def mm_flags fun_upd_idem)
    qed (use tn True H aF in \<open>auto simp: g_def\<close>)
    then have "heap_raw g (xs @ (a, s + tn, True) # (a + (s + tn), t - tn, False) # ys) ?F" unfolding e .
    from raw_addfree [OF this, of "a + (s + tn)" "t - tn" False K] H(13) [of "a + (s + tn)"] True cl(1,4) obtain h2 where
      h2: "mm_addfreechunk (Nd (a + (s + tn))) g = Some h2" "links_only K g h2"
        "heap_raw h2 (xs @ (a, s + tn, True) # (a + (s + tn), t - tn, False) # ys) (insert (a + (s + tn)) ?F)"
      by auto
    have ne: "b + t \<noteq> a + (s + tn)" using H(1) True by simp
    have "realloc_takenext a s b t tn h = Some h2"
      using h1(1) h2(1) H(1) L True tn ne unfolding g_def
      by (simp add: realloc_takenext_def Let_def mm_consts)
    moreover have "heap_inv h2 (xs @ (a, s + tn, True) # rest (a + s + tn) (t - tn) @ ys)"
      using h2(3) al True by (simp add: rest_def heap_inv_def coalesced_append coalesced_Cons add.assoc)
    moreover have "nodes_only K h h2"
      using nodes_only_trans [OF _ nodes_only_links [OF h2(2)]] L(13) cl(2,3) clear_part [OF cl(4) [OF True], of _ 8]
      by (simp add: g_def)
    ultimately show ?thesis unfolding K_def by blast
  next
    case False
    then have e: "tn = t" using tn by simp
    define g where "g = set_preceding (Nd (b + t)) (s + t OR alloc_flag (npreceding h1 (Nd (b + t))))
      (set_size (Nd a) (s + t) h1)"
    have "heap_raw g (xs @ (a, s + t, True) # ys) ?F"
      by (rule raw_merge_chunk(2) [OF h1(3) aF]) (use H L in \<open>auto simp: g_def mm_flags\<close>)
    then have "heap_inv g (xs @ (a, s + tn, True) # rest (a + s + tn) (t - tn) @ ys)"
      using al e by (simp add: rest_def heap_inv_def coalesced_append coalesced_Cons)
    moreover have "realloc_takenext a s b t tn h = Some g"
      using h1(1) H(1) L e unfolding g_def by (simp add: realloc_takenext_def Let_def)
    moreover have "nodes_only K h g" using L(13) cl(2,3) by (simp add: g_def)
    ultimately show ?thesis unfolding K_def by blast
  qed
qed

text \<open>The free space next to a chunk.\<close>

definition next_free :: "chunk list \<Rightarrow> nat" where
  "next_free ys = (case ys of [] \<Rightarrow> 0 | (b, t, al) # _ \<Rightarrow> if al then 0 else t)"

definition same_alloc :: "chunk list \<Rightarrow> chunk list \<Rightarrow> bool" where
  "same_alloc xs ys \<longleftrightarrow> (\<forall>b t. (b, t, True) \<in> set xs \<longleftrightarrow> (b, t, True) \<in> set ys)"

lemma realloc_neighbours:
  assumes inv: "heap_inv h (xs @ (a, s, True) # ys)"
  shows "(if alloc_flag (npreceding h (Nd (a + s))) = 0 then nsize h (Nd (a + s)) else 0) = next_free ys"
    and "(if alloc_flag (npreceding h (Nd (a - clear_alloc (npreceding h (Nd a))))) = 0
          then nsize h (Nd (a - clear_alloc (npreceding h (Nd a)))) else 0) = next_free (rev xs)"
proof -
  note raw = heap_invD(1) [OF inv]
  obtain p where H: "heap_split h xs [(a, s, True)] ys a p (a + s) s" "npreceding h (Nd a) = p + af True"
    "p < 2 ^ 31" "s < 2 ^ 31" "npreceding h (Nd (a + s)) = s + af (next_alloc ys)"
    using heap_chunk [OF raw] by metis
  show "(if alloc_flag (npreceding h (Nd (a + s))) = 0 then nsize h (Nd (a + s)) else 0) = next_free ys"
    using H by (cases ys) (auto simp: next_free_def heap_split_def)
  have prev: "clear_alloc (npreceding h (Nd a)) = p" using H by simp
  show "(if alloc_flag (npreceding h (Nd (a - clear_alloc (npreceding h (Nd a))))) = 0
      then nsize h (Nd (a - clear_alloc (npreceding h (Nd a)))) else 0) = next_free (rev xs)"
    unfolding prev
  proof (cases xs rule: rev_cases)
    case Nil
    then show "(if alloc_flag (npreceding h (Nd (a - p))) = 0 then nsize h (Nd (a - p)) else 0) = next_free (rev xs)"
      using H(1) alloc_flag_af [of 0 True] by (auto simp: heap_split_def next_free_def)
  next
    case (snoc xs' d)
    obtain c r f where d: "d = (c, r, f)" by (cases d)
    have raw2: "heap_raw h (xs' @ (c, r, f) # (a, s, True) # ys) (free_addrs (xs @ (a, s, True) # ys))"
      using raw snoc d by simp
    obtain q where "npreceding h (Nd c) = q + af f" "q < 2 ^ 31" "nsize h (Nd c) = r"
      using heap_chunk [OF raw2] by metis
    moreover have "a = c + r" "p = r" using H(1) snoc d by (auto simp: heap_split_def)
    ultimately show "(if alloc_flag (npreceding h (Nd (a - p))) = 0 then nsize h (Nd (a - p)) else 0) = next_free (rev xs)"
      using snoc d by (simp add: next_free_def)
  qed
qed

lemma next_free_pos: "0 < next_free ys \<Longrightarrow> \<exists>b t ys'. ys = (b, t, False) # ys' \<and> t = next_free ys"
  by (auto simp: next_free_def split: list.splits if_splits)

lemma next_free_dvd: "sized ys \<Longrightarrow> 16 dvd next_free ys"
  by (auto simp: next_free_def sized_def split: list.splits)

lemma realloc_extend_prev:
  assumes inv: "heap_inv h (xs @ (a, s, True) # ys)" and tp: "0 < tp" "tp \<le> next_free (rev xs)" "16 dvd tp"
  shows "\<exists>h' xs'. realloc_takeprev a s (a - clear_alloc (npreceding h (Nd a))) (next_free (rev xs)) (a + s) tp h =
      Some (a - tp, h') \<and> heap_inv h' (xs' @ (a - tp, s + tp, True) # ys) \<and> same_alloc xs' xs \<and>
    nodes_only (payload (xs @ ys)) h h' \<and> (\<forall>i < s - 8. hdata h' (a - tp + 8 + i) = hdata h (a + 8 + i)) \<and>
    nsize h' (Nd (a - tp)) = s + tp \<and> tp \<le> a"
proof -
  obtain c r xs' where "rev xs = (c, r, False) # xs'" and r: "r = next_free (rev xs)"
    using next_free_pos [of "rev xs"] tp by auto
  then have xs: "xs = rev xs' @ [(c, r, False)]" by (metis rev.simps(2) rev_rev_ident)
  have inv2: "heap_inv h (rev xs' @ (c, r, False) # (a, s, True) # ys)" using inv xs by simp
  obtain p where "a = c + r" "npreceding h (Nd a) = r + af True" "r + s < 2 ^ 31"
    using raw_pair [OF heap_invD(1) [OF inv2]] by metis
  then have c: "a - clear_alloc (npreceding h (Nd a)) = c" "tp \<le> a" using tp r by auto
  from realloc_takeprev_spec [OF inv2 tp(1) _ tp(3)] tp(2) r obtain h' where
    h': "realloc_takeprev a s c r (a + s) tp h = Some (a - tp, h')"
    "heap_inv h' (rev xs' @ rest c (r - tp) @ (a - tp, s + tp, True) # ys)"
    "nodes_only (payload (rev xs' @ ys)) h h'" "\<forall>i < s - 8. hdata h' (a - tp + 8 + i) = hdata h (a + 8 + i)"
    "nsize h' (Nd (a - tp)) = s + tp" by auto
  moreover have "payload (xs @ ys) = payload (rev xs' @ ys)" by (simp add: xs payload_append)
  moreover have "same_alloc (rev xs' @ rest c (r - tp)) xs" using xs by (auto simp: same_alloc_def rest_def)
  ultimately show ?thesis using c r by (intro exI [of _ h'] exI [of _ "rev xs' @ rest c (r - tp)"]) simp
qed

lemma realloc_extend_next:
  assumes inv: "heap_inv h (xs @ (a, s, True) # ys)" and tn: "0 < tn" "tn \<le> next_free ys" "16 dvd tn"
  shows "\<exists>h' ys'. realloc_takenext a s (a + s) (next_free ys) tn h = Some h' \<and>
    heap_inv h' (xs @ (a, s + tn, True) # ys') \<and> same_alloc ys' ys \<and>
    nodes_only (payload (xs @ (a, s, True) # ys)) h h'"
proof -
  obtain b t ys' where ys: "ys = (b, t, False) # ys'" and t: "t = next_free ys"
    using next_free_pos [of ys] tn by auto
  have inv2: "heap_inv h (xs @ (a, s, True) # (b, t, False) # ys')" using inv ys by simp
  obtain p where b: "b = a + s" using raw_pair [OF heap_invD(1) [OF inv2]] by metis
  from realloc_takenext_spec [OF inv2 tn(1) _ tn(3)] tn(2) t obtain h' where
    h': "realloc_takenext a s b t tn h = Some h'"
    "heap_inv h' (xs @ (a, s + tn, True) # rest (a + s + tn) (t - tn) @ ys')"
    "nodes_only (payload (xs @ (a, s, True) # ys')) h h'" by auto
  moreover have "payload (xs @ (a, s, True) # ys') = payload (xs @ (a, s, True) # ys)"
    by (rule payload_cong) (simp add: ys)
  moreover have "same_alloc (rest (a + s + tn) (t - tn) @ ys') ys" using ys by (auto simp: same_alloc_def rest_def)
  ultimately show ?thesis using b t by (intro exI [of _ h'] exI [of _ "rest (a + s + tn) (t - tn) @ ys'"]) simp
qed

lemma realloc_extend_spec:
  assumes inv: "heap_inv h (xs @ (a, s, True) # ys)"
    and ns: "s < ns" "16 dvd ns" "ns \<le> next_free ys + next_free (rev xs) + s"
  shows "\<exists>a' h' xs' ys'.
    realloc_extend a s (a - clear_alloc (npreceding h (Nd a))) (next_free (rev xs)) (a + s) (next_free ys) ns h =
      Some (a' + 8, h') \<and> heap_inv h' (xs' @ (a', ns, True) # ys') \<and> same_alloc xs' xs \<and> same_alloc ys' ys \<and>
    nodes_only (payload (xs @ ys)) h h' \<and>
    (\<forall>i < s - 8. hdata h' (a' + 8 + i) = hdata h (a + 8 + i))"
proof -
  note raw = heap_invD(1) [OF inv]
  have sz: "sized xs" "sized ys" "16 dvd s" "16 \<le> s" using raw by (auto simp: heap_raw_def)
  obtain tp tn where t: "realloc_takes (ns - s) (next_free (rev xs)) (next_free ys) = (tp, tn)"
    by fastforce
  have sum: "tp + tn = ns - s" "tp \<le> next_free (rev xs)" "tn \<le> next_free ys"
    using realloc_takes_spec [OF t] ns by auto
  have "sized (rev xs)" using sz(1) by (simp add: sized_def)
  then have dv: "16 dvd tp" "16 dvd tn"
    using realloc_takes_dvd [OF t] ns(2) sz by (auto simp: dvd_diff_nat next_free_dvd)
  let ?p = "a - clear_alloc (npreceding h (Nd a))"
  obtain h1 xs1 where h1: "(if tp \<noteq> 0 then realloc_takeprev a s ?p (next_free (rev xs)) (a + s) tp h else Some (a, h)) = Some (a - tp, h1)"
    "heap_inv h1 (xs1 @ (a - tp, s + tp, True) # ys)" "same_alloc xs1 xs"
    "nodes_only (payload (xs @ ys)) h h1" "tp \<noteq> 0 \<longrightarrow> nsize h1 (Nd (a - tp)) = s + tp" "tp \<le> a"
    "\<forall>i < s - 8. hdata h1 (a - tp + 8 + i) = hdata h (a + 8 + i)"
  proof (cases "tp = 0")
    case True
    then show thesis using that [of h xs] inv by (simp add: same_alloc_def)
  next
    case False
    from realloc_extend_prev [OF inv _ sum(2) dv(1)] False obtain h' xs' where
      "realloc_takeprev a s ?p (next_free (rev xs)) (a + s) tp h = Some (a - tp, h')"
      "heap_inv h' (xs' @ (a - tp, s + tp, True) # ys)" "same_alloc xs' xs"
      "nodes_only (payload (xs @ ys)) h h'" "\<forall>i < s - 8. hdata h' (a - tp + 8 + i) = hdata h (a + 8 + i)"
      "nsize h' (Nd (a - tp)) = s + tp" "tp \<le> a" by auto
    then show thesis using that [of h' xs'] False by auto
  qed
  obtain h2 ys2 where h2: "(if tn \<noteq> 0 then realloc_takenext (a - tp) (s + tp) (a + s) (next_free ys) tn h1 else Some h1) = Some h2"
    "heap_inv h2 (xs1 @ (a - tp, s + tp + tn, True) # ys2)" "same_alloc ys2 ys"
    "nodes_only (payload (xs1 @ (a - tp, s + tp, True) # ys)) h1 h2"
  proof (cases "tn = 0")
    case True
    then show thesis using that [of h1 ys] h1(2) by (simp add: same_alloc_def)
  next
    case False
    have "a - tp + (s + tp) = a + s" using h1(6) by simp
    with realloc_extend_next [OF h1(2) _ sum(3) dv(2)] False that show thesis by auto
  qed
  have e: "s + tp + tn = ns" using sum(1) ns(1) by simp
  have "realloc_extend a s ?p (next_free (rev xs)) (a + s) (next_free ys) ns h = Some (a - tp + 8, h2)"
    using h1(1,5) h2(1) unfolding realloc_extend_def t Let_def by (auto simp: mm_consts split: if_splits)
  moreover have "heap_inv h2 (xs1 @ (a - tp, ns, True) # ys2)" using h2(2) e by simp
  moreover have "payload (xs @ ys) \<subseteq> payload (xs1 @ (a - tp, s + tp, True) # ys)"
    using h1(3) by (auto simp: same_alloc_def payload_def)
  then have "nodes_only (payload (xs @ ys)) h h2"
    by (rule nodes_only_trans [OF h1(4) nodes_only_subset [OF h2(4)]])
  moreover have "hdata h2 (a - tp + 8 + i) = hdata h (a + 8 + i)" if "i < s - 8" for i
  proof -
    have "a - tp + 8 + i \<in> payload (xs1 @ (a - tp, s + tp, True) # ys)"
      using that by (intro payloadI [of "a - tp" "s + tp"]) auto
    then show ?thesis using nodes_onlyD(2) [OF h2(4)] h1(7) that by auto
  qed
  ultimately show ?thesis using h1(3) h2(3) by blast
qed

section \<open>\<open>mm_realloc\<close>\<close>

lemma coalesce_split: "coalesce (xs @ (a, n, True) # zs) = coalesce xs @ (a, n, True) # coalesce zs"
proof (induction xs rule: coalesce_induct)
  case (single c)
  obtain x y f where "c = (x, y, f)" by (cases c)
  then show ?case by (cases f) simp_all
qed auto

text \<open>One block moved or resized, the other blocks as before.\<close>

lemma blocks_rep_replace:
  assumes inv: "heap_inv h (xs @ (a, s, True) # ys)" and del: "delayed h ds (xs @ (a, s, True) # ys)"
    and a: "a + 8 \<notin> set ds"
    and inv': "heap_inv h' (xs' @ (a', n, True) # ys')" and sa: "same_alloc xs' xs" "same_alloc ys' ys"
    and lock: "can_lock env h'" and no: "nodes_only (payload (xs @ ys)) h h'"
  defines "B \<equiv> live (xs @ (a, s, True) # ys) (set ds)"
  shows "blocks_rep env h' (B(a + 8 := None, a' + 8 \<mapsto> n - 8))" "(B(a + 8 := None)) (a' + 8) = None"
proof -
  let ?cs = "xs @ (a, s, True) # ys" and ?cs' = "xs' @ (a', n, True) # ys'"
  note d = heap_distinct [OF heap_invD(1) [OF inv]] heap_distinct [OF heap_invD(1) [OF inv']]
  have mem: "(c, t, True) \<in> set ?cs' \<longleftrightarrow> c = a' \<and> t = n \<or> (c, t, True) \<in> set xs \<union> set ys" for c t
    using sa by (auto simp: same_alloc_def)
  have new: "(a', t, True) \<notin> set xs \<union> set ys" for t
  proof -
    have "a' \<notin> fst ` set xs'" "a' \<notin> fst ` set ys'" using d(2) by auto
    then have "(a', t, True) \<notin> set xs'" "(a', t, True) \<notin> set ys'" by (metis fst_conv imageI)+
    then show ?thesis using sa by (auto simp: same_alloc_def)
  qed
  have old: "(a, t, True) \<notin> set xs \<union> set ys" for t
  proof -
    have "a \<notin> fst ` set xs" "a \<notin> fst ` set ys" using d(1) by auto
    then show ?thesis by (metis Un_iff fst_conv imageI)
  qed
  have del': "delayed h' ds ?cs'"
    unfolding delayed_def
  proof
    have "dflink h' d = dflink h d" if "d \<in> set ds" for d
    proof -
      obtain b t where b: "d = b + 8" "(b, t, True) \<in> set ?cs"
        using del \<open>d \<in> set ds\<close> unfolding delayed_def by blast
      then have "(b, t, True) \<in> set (xs @ ys)" using a \<open>d \<in> set ds\<close> by auto
      then have "d \<in> payload (xs @ ys)"
        using raw_size(2) [OF heap_invD(1) [OF inv] b(2)] b(1) by (auto intro: payloadI)
      then show ?thesis by (rule nodes_onlyD(1) [OF no])
    qed
    then show "path (dflink h') (mm_delaylist h') ds None"
      using del nodes_onlyD(6) [OF no] path_cong [of ds "dflink h'" "dflink h"] by (simp add: delayed_def)
    show "\<forall>d \<in> set ds. \<exists>b t. d = b + 8 \<and> (b, t, True) \<in> set ?cs'"
    proof
      fix d assume "d \<in> set ds"
      then obtain b t where b: "d = b + 8" "(b, t, True) \<in> set ?cs" using del unfolding delayed_def by blast
      then have "b \<noteq> a" using a \<open>d \<in> set ds\<close> by auto
      then show "\<exists>b t. d = b + 8 \<and> (b, t, True) \<in> set ?cs'" using b mem [of b t] by auto
    qed
  qed
  have nd: "a' + 8 \<notin> set ds"
  proof
    assume "a' + 8 \<in> set ds"
    then obtain c t where "a' + 8 = c + 8" "(c, t, True) \<in> set ?cs" using del unfolding delayed_def by blast
    then have "(a', t, True) \<in> set ?cs" by simp
    with new have "a' = a" by auto
    with \<open>a' + 8 \<in> set ds\<close> a show False by simp
  qed
  have "live ?cs' (set ds) = B(a + 8 := None, a' + 8 \<mapsto> n - 8)"
  proof (rule live_eqI [OF d(2)])
    fix c t assume ct: "(c, t, True) \<in> set ?cs'" "c + 8 \<notin> set ds"
    show "(B(a + 8 := None, a' + 8 \<mapsto> n - 8)) (c + 8) = Some (t - 8)"
    proof (cases "c = a'")
      case True
      then have "t = n" using ct(1) mem [of a' t] new [of t] by blast
      then show ?thesis using True by simp
    next
      case False
      then have c: "(c, t, True) \<in> set xs \<union> set ys" using ct mem by blast
      then have "c \<noteq> a" using old by auto
      moreover have "B (c + 8) = Some (t - 8)"
        unfolding B_def live_iff [OF d(1)] using c ct(2) by auto
      ultimately show ?thesis using False by simp
    qed
  next
    fix b m assume b: "(B(a + 8 := None, a' + 8 \<mapsto> n - 8)) b = Some m"
    show "\<exists>a'' s'. b = a'' + 8 \<and> m = s' - 8 \<and> (a'', s', True) \<in> set ?cs' \<and> b \<notin> set ds"
    proof (cases "b = a' + 8")
      case True
      then show ?thesis using b nd by (intro exI [of _ a'] exI [of _ n]) auto
    next
      case False
      then have "B b = Some m" "b \<noteq> a + 8" using b by (auto split: if_splits)
      then obtain c t where "b = c + 8" "m = t - 8" "(c, t, True) \<in> set ?cs" "b \<notin> set ds"
        unfolding B_def live_iff [OF d(1)] by blast
      then show ?thesis using \<open>b \<noteq> a + 8\<close> mem by auto
    qed
  qed
  then show "blocks_rep env h' (B(a + 8 := None, a' + 8 \<mapsto> n - 8))"
    using lock inv' del' unfolding blocks_rep_def by metis
  have "B (a' + 8) \<noteq> Some m" if "a' \<noteq> a" for m
    unfolding B_def live_iff [OF d(1)] using new that by auto
  then show "(B(a + 8 := None)) (a' + 8) = None" by (cases "B (a' + 8)") auto
qed

lemma blocks_rep_gap:
  assumes "blocks_rep env h B" "B a = Some m" "B b = Some n" "a < b"
  shows "a + m + 8 \<le> b"
proof -
  obtain cs ds where cs: "heap_inv h cs" "B = live cs (set ds)"
    using assms(1) by (auto simp: blocks_rep_def)
  note raw = heap_invD(1) [OF cs(1)]
  note iff = live_iff [OF heap_distinct [OF raw]]
  obtain a' s where a: "a = a' + 8" "m = s - 8" "(a', s, True) \<in> set cs"
    using assms(2) cs(2) iff by auto
  obtain b' t where b: "b = b' + 8" "(b', t, True) \<in> set cs"
    using assms(3) cs(2) iff by auto
  show ?thesis using heap_ordered [OF raw a(3) b(2)] assms(4) a b raw_size(2) [OF raw a(3)] by simp
qed

lemma blocks_rep_hdata [simp]: "blocks_rep env (h\<lparr>hdata := m\<rparr>) B = blocks_rep env h B"
  by (simp add: blocks_rep_def can_lock_def delayed_def)

text \<open>The bytes of the blocks in use, and that allocation and release keep them.\<close>

lemma live_payload:
  assumes "heap_inv h cs" "live cs D c = Some k" "c \<notin> A" "i < k"
  shows "c + i \<in> payload (released A cs)"
proof -
  obtain a s where a: "c = a + 8" "k = s - 8" "(a, s, True) \<in> set cs"
    using assms(2) live_iff [OF heap_distinct [OF heap_invD(1) [OF assms(1)]]] by blast
  then show ?thesis using assms(3,4) by (intro payloadI [of a s]) (auto simp: released_alloc)
qed

lemma live_payload_others:
  assumes "heap_inv h (xs @ (a, s, True) # ys)" "live (xs @ (a, s, True) # ys) D c = Some k" "c \<noteq> a + 8" "i < k"
  shows "c + i \<in> payload (xs @ ys)"
proof -
  have "payload (released {a + 8} (xs @ (a, s, True) # ys)) = payload (xs @ ys)"
    unfolding released_def mark_free_one [OF assms(1)] by (simp add: payload_coalesce payload_append)
  then show ?thesis using live_payload [OF assms(1,2), of "{a + 8}"] assms(3,4) by simp
qed

lemma mm_malloc_hdata:
  assumes "blocks_rep env h B" "n < 2 ^ 32 - 23" "mm_malloc env n h = Some (r, h')" "B c = Some k" "i < k"
  shows "hdata h' (c + i) = hdata h (c + i)"
proof -
  obtain cs ds where cs: "can_lock env h" "heap_inv h cs" "delayed h ds cs" and B: "B = live cs (set ds)"
    using assms(1) by (auto simp: blocks_rep_def)
  have "nodes_only (payload (released (set ds) cs)) (h\<lparr>mm_delaylist := None\<rparr>) h'"
  proof (cases "n = 0")
    case True
    then show ?thesis using mm_malloc_zero [OF cs] assms(3) by auto
  next
    case False
    then have n: "0 < n" "n + 23 < 2 ^ 32" using assms(2) by auto
    show ?thesis using mm_malloc_spec [OF cs n(1,2,1)] assms(3) by auto
  qed
  moreover have "c \<notin> set ds"
    using assms(4) B live_iff [OF heap_distinct [OF heap_invD(1) [OF cs(2)]]] by blast
  then have "c + i \<in> payload (released (set ds) cs)" using live_payload [OF cs(2)] assms(4,5) B by blast
  ultimately show ?thesis by (simp add: nodes_only_def)
qed

lemma mm_free_hdata:
  assumes "blocks_rep env h B" "B b = Some m" "mm_free env b h = Some h'" "B c = Some k" "i < k" "c \<noteq> b"
  shows "hdata h' (c + i) = hdata h (c + i)"
proof -
  obtain cs ds where cs: "can_lock env h" "heap_inv h cs" "B = live cs (set ds)"
    using assms(1) by (auto simp: blocks_rep_def)
  obtain a s where a: "b = a + 8" "(a, s, True) \<in> set cs"
    using assms(2) cs(3) live_iff [OF heap_distinct [OF heap_invD(1) [OF cs(2)]]] by blast
  have "c + i \<in> payload (released {b} cs)" using live_payload [OF cs(2), of _ c k "{b}" i] assms(4-6) cs(3) by auto
  then show ?thesis using mm_free_spec [OF cs(1,2) a(2)] a(1) assms(3) by (auto simp: nodes_only_def)
qed

lemma realloc_shrink_rep:
  assumes lock: "can_lock env h" and inv: "heap_inv h (xs @ (a, s, True) # ys)"
    and del: "delayed h ds (xs @ (a, s, True) # ys)" and a: "a + 8 \<notin> set ds"
    and n: "16 \<le> n" "16 dvd n" "n < s"
  shows "\<exists>h2. mm_shrinkchunk a n (locked env h) = Some h2 \<and>
    blocks_rep env (mm_givesemaphore h2)
      ((live (xs @ (a, s, True) # ys) (set ds))(a + 8 := None, a + 8 \<mapsto> n - 8)) \<and>
    nodes_only (payload (xs @ (a, n, True) # ys)) h (mm_givesemaphore h2)"
proof -
  have "heap_inv (locked env h) (xs @ (a, s, True) # ys)" using inv by simp
  from mm_shrinkchunk_spec [OF this n] obtain h2 where
    h2: "mm_shrinkchunk a n (locked env h) = Some h2"
    "nodes_only (payload (xs @ (a, n, True) # ys)) (locked env h) h2"
    "heap_inv h2 (coalesce (xs @ (a, n, True) # (a + n, s - n, False) # ys))" by blast
  have no: "nodes_only (payload (xs @ (a, n, True) # ys)) h (mm_givesemaphore h2)"
    using nodes_only_unlock [OF lock h2(2)] .
  have "heap_inv (mm_givesemaphore h2) (coalesce xs @ (a, n, True) # coalesce ((a + n, s - n, False) # ys))"
    using h2(3) by (simp add: coalesce_split)
  from blocks_rep_replace(1) [OF inv del a this] have
    "blocks_rep env (mm_givesemaphore h2)
      ((live (xs @ (a, s, True) # ys) (set ds))(a + 8 := None, a + 8 \<mapsto> n - 8))"
    using can_lock_nodes_only [OF lock no] nodes_only_subset [OF no payload_without]
    by (simp add: same_alloc_def coalesce_alloc)
  then show ?thesis using h2(1) no by auto
qed

lemma realloc_extend_rep:
  assumes lock: "can_lock env h" and inv: "heap_inv h (xs @ (a, s, True) # ys)"
    and del: "delayed h ds (xs @ (a, s, True) # ys)" and a: "a + 8 \<notin> set ds"
    and n: "s < n" "16 dvd n" "n \<le> next_free ys + next_free (rev xs) + s"
  defines "B \<equiv> live (xs @ (a, s, True) # ys) (set ds)"
  shows "\<exists>a' h2. realloc_extend a s (a - clear_alloc (npreceding h (Nd a))) (next_free (rev xs))
      (a + s) (next_free ys) n (locked env h) = Some (a' + 8, h2) \<and>
    blocks_rep env (mm_givesemaphore h2) (B(a + 8 := None, a' + 8 \<mapsto> n - 8)) \<and>
    (\<forall>i < s - 8. hdata (mm_givesemaphore h2) (a' + 8 + i) = hdata h (a + 8 + i)) \<and>
    (\<forall>c k i. c \<noteq> a + 8 \<longrightarrow> B c = Some k \<longrightarrow> i < k \<longrightarrow> hdata (mm_givesemaphore h2) (c + i) = hdata h (c + i))"
proof -
  have "heap_inv (locked env h) (xs @ (a, s, True) # ys)" using inv by simp
  from realloc_extend_spec [OF this n] obtain a' h2 xs' ys' where
    h2: "realloc_extend a s (a - clear_alloc (npreceding h (Nd a))) (next_free (rev xs))
      (a + s) (next_free ys) n (locked env h) = Some (a' + 8, h2)"
    "heap_inv h2 (xs' @ (a', n, True) # ys')" "same_alloc xs' xs" "same_alloc ys' ys"
    "nodes_only (payload (xs @ ys)) (locked env h) h2"
    and d: "\<forall>i < s - 8. hdata h2 (a' + 8 + i) = hdata h (a + 8 + i)" by auto
  let ?h = "mm_givesemaphore h2"
  note no = nodes_only_unlock [OF lock h2(5)]
  note lock2 = can_lock_nodes_only [OF lock no]
  have inv2: "heap_inv ?h (xs' @ (a', n, True) # ys')" using h2(2) by simp
  note R = blocks_rep_replace [OF inv del a inv2 h2(3,4) lock2 no, folded B_def]
  have "hdata ?h (c + i) = hdata h (c + i)" if c: "c \<noteq> a + 8" "B c = Some k" "i < k" for c k i
    by (rule nodes_onlyD(2) [OF no live_payload_others [OF inv c(2) [unfolded B_def] c(1,3)]])
  then show ?thesis using h2(1) R(1) d by auto
qed

text \<open>The fallback: a new block, the contents copied, the old block released.\<close>

lemma realloc_move_rep:
  assumes rep: "blocks_rep env h B" and b: "B b = Some m" and sz: "0 < sz" "sz + 23 < 2 ^ 32"
    and big: "m + 8 < chunk_size sz" and s: "16 dvd m + 8"
  shows "\<exists>r h'. (do { (newmem, h2) \<leftarrow> mm_malloc env sz h;
        if newmem \<noteq> 0
        then do { h3 \<leftarrow> mm_free env b (h2\<lparr>hdata := memcpy newmem b (m + 8) (hdata h2)\<rparr>); Some (newmem, h3) }
        else Some (newmem, h2) }) = Some (r, h') \<and>
    (r = 0 \<and> blocks_rep env h' B \<and> \<not> has_room h sz \<and>
     (\<forall>c k i. B c = Some k \<longrightarrow> i < k \<longrightarrow> hdata h' (c + i) = hdata h (c + i)) \<or>
     r \<noteq> 0 \<and> (\<exists>m'. sz \<le> m' \<and> blocks_rep env h' (B(b := None, r \<mapsto> m'))) \<and>
     (\<forall>i < m. hdata h' (r + i) = hdata h (b + i)) \<and>
     (\<forall>c k i. c \<noteq> b \<longrightarrow> B c = Some k \<longrightarrow> i < k \<longrightarrow> hdata h' (c + i) = hdata h (c + i)))"
proof -
  have lim: "sz < 2 ^ 32 - 23" using sz by simp
  from blocks_rep_alloc_chunk [OF rep lim] obtain r h2 where
    r: "mm_malloc env sz h = Some (r, h2)"
      "r = 0 \<and> blocks_rep env h2 B \<or> r \<noteq> 0 \<and> B r = None \<and>
        (\<exists>m'. sz \<le> m' \<and> chunk_size sz \<le> m' + 8 \<and> blocks_rep env h2 (B(r \<mapsto> m')))"
    by blast
  note hd = mm_malloc_hdata [OF rep lim r(1)]
  show ?thesis
  proof (cases "r = 0")
    case True
    then show ?thesis using r hd rep mm_malloc_null [OF rep sz(1) lim] by auto
  next
    case False
    then obtain m' where m': "B r = None" "sz \<le> m'" "blocks_rep env h2 (B(r \<mapsto> m'))" "chunk_size sz \<le> m' + 8"
      using r(2) by auto
    let ?g = "h2\<lparr>hdata := memcpy r b (m + 8) (hdata h2)\<rparr>"
    have g: "blocks_rep env ?g (B(r \<mapsto> m'))" using m'(3) by simp
    have "r \<noteq> b" using m'(1) b by auto
    then have Bb: "(B(r \<mapsto> m')) b = Some m" using b by simp
    have Br: "(B(r \<mapsto> m')) r = Some m'" by simp
    from blocks_rep_free [OF g Bb] obtain h3 where
      h3: "mm_free env b ?g = Some h3" "blocks_rep env h3 ((B(r \<mapsto> m'))(b := None))" by blast
    note kept = mm_free_hdata [OF g Bb h3(1)]
    have fits: "m + 8 \<le> m'" using dvd16_less [OF s chunk_size_props(2) big] m'(4) by simp
    have far: "r \<le> b \<or> b + (m + 8) \<le> r"
      using blocks_rep_gap [OF m'(3) Bb Br] \<open>r \<noteq> b\<close> by linarith
    have "hdata h3 (r + i) = hdata h (b + i)" if "i < m" for i
      using kept [OF Br, of i] \<open>r \<noteq> b\<close> fits that memcpy_inside [OF far, of i] hd [OF b that] by simp
    moreover have "hdata h3 (c + i) = hdata h (c + i)" if c: "c \<noteq> b" "B c = Some k" "i < k" for c k i
    proof -
      have "c \<noteq> r" using c m'(1) by auto
      then have Bc: "(B(r \<mapsto> m')) c = Some k" using c by simp
      have "c + i < r \<or> r + (m + 8) \<le> c + i"
        using blocks_rep_disjoint [OF m'(3) Bc Br] blocks_rep_disjoint [OF m'(3) Br Bc] \<open>c \<noteq> r\<close> c(3) fits
        by linarith
      then show ?thesis using kept [OF Bc c(3,1)] memcpy_outside [of "c + i" r "m + 8" b "hdata h2"] hd [OF c(2,3)]
        by simp
    qed
    moreover have "blocks_rep env h3 (B(b := None, r \<mapsto> m'))"
      using h3(2) \<open>r \<noteq> b\<close> by (simp add: fun_upd_twist)
    ultimately show ?thesis using r(1) False h3(1) m'(2) by auto
  qed
qed

lemma mm_givesemaphore_locked:
  assumes "can_lock env h"
  shows "mm_givesemaphore (locked env h) = h"
  using assms by (auto simp: can_lock_def locked_def mm_givesemaphore_def NO_HOLDER_def)

lemma mm_realloc_rep:
  assumes rep: "blocks_rep env h B" and b: "B b = Some m" and sz: "0 < sz" "sz + 23 < 2 ^ 32"
  shows "\<exists>r h'. mm_realloc env b sz h = Some (r, h') \<and>
    (r = 0 \<and> blocks_rep env h' B \<and> \<not> has_room h sz \<and>
     (\<forall>c k i. B c = Some k \<longrightarrow> i < k \<longrightarrow> hdata h' (c + i) = hdata h (c + i)) \<or>
     r \<noteq> 0 \<and> (\<exists>m'. sz \<le> m' \<and> blocks_rep env h' (B(b := None, r \<mapsto> m'))) \<and>
     (\<forall>i < min m sz. hdata h' (r + i) = hdata h (b + i)) \<and>
     (\<forall>c k i. c \<noteq> b \<longrightarrow> B c = Some k \<longrightarrow> i < k \<longrightarrow> hdata h' (c + i) = hdata h (c + i)))"
proof -
  obtain cs ds where cs: "heap_inv h cs" "delayed h ds cs" "B = live cs (set ds)"
    and lock: "can_lock env h" using rep by (auto simp: blocks_rep_def)
  obtain a s where a: "b = a + 8" "m = s - 8" "(a, s, True) \<in> set cs" "b \<notin> set ds"
    using b cs(3) live_iff [OF heap_distinct [OF heap_invD(1) [OF cs(1)]]] by blast
  obtain xs ys where split: "cs = xs @ (a, s, True) # ys" using a(3) by (metis in_set_conv_decomp)
  note inv = cs(1) [unfolded split] and del = cs(2) [unfolded split] and nds = a(4) [unfolded a(1)]
  note sizes = raw_size [OF heap_invD(1) [OF cs(1)] a(3)]
  define n where "n = chunk_size sz"
  note n = chunk_size_props [of sz, folded n_def] sz(1)
  let ?L = "locked env h"
  let ?move = "do { (newmem, h2) \<leftarrow> mm_malloc env sz h;
        if newmem \<noteq> 0
        then do { h3 \<leftarrow> mm_free env b (h2\<lparr>hdata := memcpy newmem b s (hdata h2)\<rparr>); Some (newmem, h3) }
        else Some (newmem, h2) }"
  have node: "b - SIZEOF_MM_ALLOCNODE = a" using a(1) by (simp add: mm_consts)
  have run: "mm_realloc env b sz h =
     (if n \<le> s then do { h2 \<leftarrow> (if n < s then mm_shrinkchunk a n ?L else Some ?L); Some (b, mm_givesemaphore h2) }
      else if next_free ys + next_free (rev xs) + s \<ge> n
      then do { (newmem, h2) \<leftarrow> realloc_extend a s (a - clear_alloc (npreceding h (Nd a))) (next_free (rev xs))
                    (a + s) (next_free ys) n ?L; Some (newmem, mm_givesemaphore h2) }
      else ?move)"
    unfolding mm_realloc_def Let_def chunk_size_align [OF sz(2)] n_def [symmetric] node
      mm_takesemaphore_ok [OF lock] Option.bind.simps sem_fields sizes(1)
      realloc_neighbours [OF inv] mm_givesemaphore_locked [OF lock]
    using a(1) sz(1) by simp
  consider (shrink) "n < s" | (same) "n = s" | (grow) "s < n" "n \<le> next_free ys + next_free (rev xs) + s"
    | (move) "s < n" "next_free ys + next_free (rev xs) + s < n" by linarith
  then show ?thesis
  proof cases
    case shrink
    from realloc_shrink_rep [OF lock inv del nds _ n(2) shrink, folded split] n(3,4) cs(3) a(1) obtain h2 where
      h2: "mm_shrinkchunk a n ?L = Some h2" "blocks_rep env (mm_givesemaphore h2) (B(b := None, b \<mapsto> n - 8))"
      "nodes_only (payload (xs @ (a, n, True) # ys)) h (mm_givesemaphore h2)" by auto
    note same = nodes_onlyD(2) [OF h2(3)]
    have "hdata (mm_givesemaphore h2) (b + i) = hdata h (b + i)" if "i < min m sz" for i
      by (rule same, rule payloadI [of a n]) (use that n(1) a(1) in auto)
    moreover have "hdata (mm_givesemaphore h2) (c + i) = hdata h (c + i)" if "c \<noteq> b" "B c = Some k" "i < k" for c k i
      by (rule same, rule subsetD [OF payload_without], rule live_payload_others [OF inv])
        (use that a(1) cs(3) split in auto)
    ultimately show ?thesis using run shrink n(1) a(1) h2(1,2)
      by (intro exI [of _ b] exI [of _ "mm_givesemaphore h2"]) (auto intro!: exI [of _ "n - 8"])
  next
    case same
    have "B(b := None, b \<mapsto> m) = B" using b by (simp add: fun_upd_idem)
    then show ?thesis using run same n(1) a rep mm_givesemaphore_locked [OF lock]
      by (intro exI [of _ b] exI [of _ h]) (auto intro!: exI [of _ m])
  next
    case grow
    from realloc_extend_rep [OF lock inv del nds grow(1) n(2) grow(2), folded split, folded cs(3)] obtain a' h2 where
      h2: "realloc_extend a s (a - clear_alloc (npreceding h (Nd a))) (next_free (rev xs))
        (a + s) (next_free ys) n ?L = Some (a' + 8, h2)"
      "blocks_rep env (mm_givesemaphore h2) (B(b := None, a' + 8 \<mapsto> n - 8))"
      "\<forall>i < m. hdata (mm_givesemaphore h2) (a' + 8 + i) = hdata h (b + i)"
      "\<forall>c k i. c \<noteq> b \<longrightarrow> B c = Some k \<longrightarrow> i < k \<longrightarrow> hdata (mm_givesemaphore h2) (c + i) = hdata h (c + i)"
      using a(1,2) by auto
    have "mm_realloc env b sz h = Some (a' + 8, mm_givesemaphore h2)" using run grow h2(1) by simp
    moreover have "sz \<le> n - 8" using n(1) by simp
    ultimately show ?thesis using h2(2-4) by auto
  next
    case move
    have "m + 8 = s" using a(2) sizes(2) by simp
    then have "mm_realloc env b sz h = ?move" using run move by simp
    then show ?thesis
      using realloc_move_rep [OF rep b sz, folded n_def] move(1) sizes(3) \<open>m + 8 = s\<close> by auto
  qed
qed

section \<open>\<open>mm_memalign\<close>\<close>

lemma memalign_lead_spec:
  assumes inv: "heap_inv h (xs @ (a, s, True) # ys)" and prev: "prev_alloc xs"
    and d: "16 \<le> d" "16 dvd d" "d < s"
  shows "\<exists>h'. memalign_lead al sz (a + 8) (a + 8 + d) h = Some (a + 8 + d, a + d, s - d - 8, h') \<and>
           heap_inv h' (xs @ (a, d, False) # (a + d, s - d, True) # ys) \<and> nodes_only (payload (xs @ ys)) h h'"
proof -
  note raw = heap_invD(1) [OF inv]
  define K where "K = payload (xs @ ys)"
  obtain p where H: "nsize h (Nd a) = s" "npreceding h (Nd a) = p + af True" "p < 2 ^ 31" "s < 2 ^ 31"
    "npreceding h (Nd (a + s)) = s + af (next_alloc ys)" "16 \<le> s" "16 dvd s"
    "\<And>x. a \<le> x \<Longrightarrow> x < a + s \<Longrightarrow> x \<notin> free_addrs xs \<and> x \<notin> free_addrs ys"
    using heap_chunk [OF raw] by metis
  define g where "g = set_preceding (Nd (a + s)) (s - d OR alloc_flag (npreceding h (Nd (a + s))))
    (set_preceding (Nd a) (clear_alloc (npreceding h (Nd a))) (set_size (Nd a) d
      (set_preceding (Nd (a + d)) (d OR MM_ALLOC_BIT) (set_size (Nd (a + d)) (s - d) h))))"
  have rawg: "heap_raw g (xs @ (a, d, False) # (a + d, s - d, True) # ys) (free_addrs xs \<union> free_addrs ys)"
    by (rule raw_split_chunk [OF raw [simplified]])
      (use d H in \<open>auto simp: g_def fun_upd_twist mm_flags\<close>)
  have ap: "apart K g (xs @ (a, d, False) # (a + d, s - d, True) # ys)"
    by (rule apart_subset [OF apart_payload [OF rawg]]) (auto simp: K_def payload_def)
  have cl: "clear K a 8" "clear K (a + d) 8" "clear K (a + s) 8"
    using apartD(1) [OF ap] apart_next [of g "xs @ [(a, d, False)]" "a + d" "s - d" True ys _ K] ap rawg d(3) by auto
  from raw_addfree [OF rawg, of a d False K] H(6) H(8) [of a] apartD(2) [OF ap] obtain h2 where
    h2: "mm_addfreechunk (Nd a) g = Some h2" "links_only K g h2"
      "heap_raw h2 (xs @ (a, d, False) # (a + d, s - d, True) # ys) (insert a (free_addrs xs \<union> free_addrs ys))"
    by auto
  have sub: "a + s - (a + d) = s - d" by simp
  have "memalign_lead al sz (a + 8) (a + 8 + d) h = Some (a + 8 + d, a + d, s - d - 8, h2)"
    using h2(1) H d unfolding g_def by (simp add: memalign_lead_def Let_def mm_consts sub)
  moreover have "heap_inv h2 (xs @ (a, d, False) # (a + d, s - d, True) # ys)"
    using h2(3) heap_invD(2) [OF inv] prev by (simp add: heap_inv_def coalesced_append coalesced_Cons)
  moreover have "nodes_only K h h2"
    using nodes_only_trans [OF _ nodes_only_links [OF h2(2)]] cl by (simp add: g_def)
  ultimately show ?thesis unfolding K_def by blast
qed

lemma round_up_mask:
  fixes x :: nat
  assumes "al = 2 ^ k"
  shows "al dvd (x + (al - 1)) - ((x + (al - 1)) AND (al - 1))"
    "x \<le> (x + (al - 1)) - ((x + (al - 1)) AND (al - 1))"
    "(x + (al - 1)) - ((x + (al - 1)) AND (al - 1)) < x + al"
proof -
  have al: "0 < al" using assms by simp
  have "(x + (al - 1)) AND (al - 1) = (x + (al - 1)) mod al"
    using assms by (simp add: take_bit_eq_mod [symmetric] take_bit_eq_mask mask_eq_exp_minus_1)
  moreover define y where "y = x + (al - 1)"
  ultimately have e: "(x + (al - 1)) - ((x + (al - 1)) AND (al - 1)) = y - y mod al" by simp
  have m: "y mod al < al" using al by simp
  show "al dvd (x + (al - 1)) - ((x + (al - 1)) AND (al - 1))"
    unfolding e by (rule dvd_minus_mod)
  show "x \<le> (x + (al - 1)) - ((x + (al - 1)) AND (al - 1))"
    "(x + (al - 1)) - ((x + (al - 1)) AND (al - 1)) < x + al"
    unfolding e using m al unfolding y_def by linarith+
qed

text \<open>From the raw block to the aligned one: the leading space and the tail are given back.\<close>

lemma memalign_trim:
  assumes lock: "can_lock env h" and inv: "heap_inv h (xs @ (a, s, True) # ys)" and prev: "prev_alloc xs"
    and no: "mm_delaylist h = None" and B: "B = live (xs @ (a, s, True) # ys) {}"
    and d: "16 dvd d" and n: "16 \<le> n" "16 dvd n" "d + n < s"
    and lead: "L = (if d \<noteq> 0 then memalign_lead al sz (a + 8) (a + 8 + d) (locked env h)
        else Some (a + 8, a, s0, locked env h))"
  shows "\<exists>h2 k h3. L = Some (a + 8 + d, a + d, k, h2) \<and> (d \<noteq> 0 \<longrightarrow> k = s - d - 8) \<and> (d = 0 \<longrightarrow> k = s0) \<and>
    mm_shrinkchunk (a + d) n h2 = Some h3 \<and>
    blocks_rep env (mm_givesemaphore h3) (B(a + 8 := None, a + 8 + d \<mapsto> n - 8)) \<and>
    nodes_only (payload (xs @ ys)) h (mm_givesemaphore h3)"
proof -
  let ?L = "locked env h"
  have invL: "heap_inv ?L (xs @ (a, s, True) # ys)" using inv by simp
  obtain h2 xs1 k where h2: "L = Some (a + 8 + d, a + d, k, h2)" "d \<noteq> 0 \<longrightarrow> k = s - d - 8" "d = 0 \<longrightarrow> k = s0"
    "heap_inv h2 (xs1 @ (a + d, s - d, True) # ys)"
    "nodes_only (payload (xs @ ys)) ?L h2" "same_alloc xs1 xs"
  proof (cases "d = 0")
    case True
    then show thesis using that [of s0 ?L xs] invL lead by (simp add: same_alloc_def)
  next
    case False
    then have "16 \<le> d" "d < s" using d n by (auto elim!: dvdE)
    from memalign_lead_spec [OF invL prev this(1) d this(2)] obtain h' where
      "memalign_lead al sz (a + 8) (a + 8 + d) ?L = Some (a + 8 + d, a + d, s - d - 8, h')"
      "heap_inv h' (xs @ (a, d, False) # (a + d, s - d, True) # ys)"
      "nodes_only (payload (xs @ ys)) ?L h'" by blast
    then show thesis using that [of "s - d - 8" h' "xs @ [(a, d, False)]"] lead False
      by (simp add: same_alloc_def)
  qed
  have "n < s - d" using n(3) by simp
  from mm_shrinkchunk_spec [OF h2(4) n(1,2) this] obtain h3 where
    h3: "mm_shrinkchunk (a + d) n h2 = Some h3"
    "nodes_only (payload (xs1 @ (a + d, n, True) # ys)) h2 h3"
    "heap_inv h3 (coalesce (xs1 @ (a + d, n, True) # (a + d + n, s - d - n, False) # ys))" by blast
  have inv3: "heap_inv (mm_givesemaphore h3) (coalesce xs1 @ (a + d, n, True) # coalesce ((a + d + n, s - d - n, False) # ys))"
    using h3(3) by (simp add: coalesce_split)
  have "payload (xs @ ys) \<subseteq> payload (xs1 @ (a + d, n, True) # ys)"
    using h2(6) by (auto simp: same_alloc_def payload_def)
  then have no3: "nodes_only (payload (xs @ ys)) h (mm_givesemaphore h3)"
    by (intro nodes_only_unlock [OF lock] nodes_only_trans [OF h2(5)] nodes_only_subset [OF h3(2)])
  have "blocks_rep env (mm_givesemaphore h3) (B(a + 8 := None, a + d + 8 \<mapsto> n - 8))"
    unfolding B
    by (rule blocks_rep_replace(1) [where ds = "[]", OF inv _ _ inv3, simplified])
      (use no h2(6) can_lock_nodes_only [OF lock no3] no3 in
        \<open>auto simp: same_alloc_def coalesce_alloc delayed_None\<close>)
  moreover have e: "a + d + 8 = a + 8 + d" by simp
  ultimately have "blocks_rep env (mm_givesemaphore h3) (B(a + 8 := None, a + 8 + d \<mapsto> n - 8))"
    by (simp only: e)
  then show ?thesis using h2(1-3) h3(1) no3 by blast
qed

lemma blocks_rep_aligned:
  assumes "blocks_rep env h B" "B b = Some m"
  shows "16 dvd b" "b \<noteq> 0"
proof -
  obtain cs ds where cs: "heap_inv h cs" "B = live cs (set ds)"
    using assms(1) by (auto simp: blocks_rep_def)
  note raw = heap_invD(1) [OF cs(1)]
  obtain a s where a: "b = a + 8" "(a, s, True) \<in> set cs"
    using assms(2) cs(2) live_iff [OF heap_distinct [OF raw]] by blast
  then obtain xs ys where "cs = xs @ (a, s, True) # ys" by (metis in_set_conv_decomp)
  then have "a mod 16 = 8" using heap_chunk raw by metis
  then show "16 dvd b" "b \<noteq> 0" using a(1) by presburger+
qed

lemma memalign_large:
  assumes rep: "blocks_rep env h B" and al: "al = 2 ^ k" "16 < al" and sz: "sz + 2 * al + 64 < 2 ^ 32"
  shows "\<exists>r h'. mm_memalign env al sz h = Some (r, h') \<and>
    (r = 0 \<and> blocks_rep env h' B \<and> (0 < sz \<longrightarrow> \<not> has_room h (sz + 2 * al + 15)) \<or>
     r \<noteq> 0 \<and> al dvd r \<and> B r = None \<and> (\<exists>m. sz \<le> m \<and> blocks_rep env h' (B(r \<mapsto> m))))"
proof -
  obtain cs ds where cs: "heap_inv h cs" "delayed h ds cs" "B = live cs (set ds)"
    and lock: "can_lock env h" using rep by (auto simp: blocks_rep_def)
  have al16: "16 dvd al"
  proof -
    have "4 < k" using al by (auto intro!: power_less_imp_less_exp [of 2 4 k])
    then show ?thesis using al(1) le_imp_power_dvd [of 4 k "2::nat"] by simp
  qed
  define z where "z = MM_ALIGN_UP sz"
  have z: "16 dvd z" "sz \<le> z" "z < sz + 16" using MM_ALIGN_UP_props [of sz] sz by (auto simp: z_def)
  have as: "(z + 2 * al) mod 2 ^ 32 = z + 2 * al" using z sz by simp
  define n0 where "n0 = chunk_size (z + 2 * al)"
  have n0: "z + 2 * al + 8 \<le> n0" using chunk_size_props(1) by (simp add: n0_def)
  have nz: "0 < z + 2 * al" "z + 2 * al + 23 < 2 ^ 32" using al z sz by auto
  define n1 where "n1 = z + 16"
  have n1: "MM_ALIGN_UP ((z + SIZEOF_MM_ALLOCNODE) mod 2 ^ 32) = n1"
    using chunk_size_align [of z] z sz by (auto simp: chunk_size_def n1_def elim!: dvdE)
  let ?cs = "released (set ds) cs"
  from mm_malloc_spec [OF lock cs(1,2) nz(1,2,1), folded n0_def] obtain raw h1 where
    m: "mm_malloc env (z + 2 * al) h = Some (raw, h1)" "nodes_only (payload ?cs) (h\<lparr>mm_delaylist := None\<rparr>) h1"
    and or: "raw = 0 \<and> heap_inv h1 ?cs \<or> (\<exists>xs a s ys. ?cs = xs @ (a, s, False) # ys \<and> raw = a + 8 \<and>
        n0 \<le> s \<and> heap_inv h1 (xs @ take_chunk a s n0 @ ys))" by blast
  have lock1: "can_lock env h1" and del1: "mm_delaylist h1 = None"
    using can_lock_undelayed [OF lock m(2)] by auto
  obtain g where g: "heap_inv g ?cs" using mm_malloc_zero [OF lock cs(1,2)] by blast
  have B: "B = live ?cs {}" using live_released [OF cs(1) g, of "{}"] cs(3) by simp
  have unf: "mm_memalign env al sz h =
      do { (rawchunk, h1) \<leftarrow> mm_malloc env (z + 2 * al) h;
           if rawchunk = 0 then Some (0, h1)
           else do {
             h2 \<leftarrow> mm_takesemaphore env h1;
             let alignedchunk = (rawchunk + (al - 1)) - ((rawchunk + (al - 1)) AND (al - 1));
             (alignedchunk1, node1, allocsize1, h3) \<leftarrow>
               (if alignedchunk \<noteq> rawchunk then memalign_lead al (z + 2 * al) rawchunk alignedchunk h2
                else Some (alignedchunk, rawchunk - SIZEOF_MM_ALLOCNODE, z + 2 * al, h2));
             h4 \<leftarrow> (if allocsize1 > n1 then mm_shrinkchunk node1 n1 h3 else Some h3);
             Some (alignedchunk1, mm_givesemaphore h4) } }"
    using al(2) unfolding mm_memalign_def Let_def z_def [symmetric] as n1 by (simp add: mm_consts)
  from or consider (null) "raw = 0" "heap_inv h1 ?cs" | (got) xs a s ys where "?cs = xs @ (a, s, False) # ys"
    "raw = a + 8" "n0 \<le> s" "heap_inv h1 (xs @ take_chunk a s n0 @ ys)" by blast
  then show ?thesis
  proof cases
    case null
    have "blocks_rep env h1 B"
      using lock1 delayed_None [OF del1, of ?cs] null(2) B unfolding blocks_rep_def by (metis list.set(1))
    moreover have "\<not> has_room h (sz + 2 * al + 15)"
    proof
      assume "has_room h (sz + 2 * al + 15)"
      then have "has_room h (z + 2 * al)" by (rule has_room_less) (use z(3) in simp)
      moreover have "z + 2 * al < 2 ^ 32 - 23" using z sz by simp
      ultimately show False using mm_malloc_null [OF rep nz(1)] m(1) null(1) by blast
    qed
    ultimately show ?thesis using unf m(1) null(1) by simp
  next
    case got
    define s1 where "s1 = (if n0 < s then n0 else s)"
    define ys1 where "ys1 = tl (take_chunk a s n0) @ ys"
    have tc: "take_chunk a s n0 @ ys = (a, s1, True) # ys1" by (simp add: take_chunk_def s1_def ys1_def)
    have inv1: "heap_inv h1 (xs @ (a, s1, True) # ys1)" using got(4) tc by simp
    have prev: "prev_alloc xs" using heap_invD(2) [OF g] got(1) by (simp add: coalesced_append coalesced_Cons)
    have gi: "heap_inv g (xs @ (a, s, False) # ys)" using g got(1) by simp
    note lt = live_take [OF gi got(4), unfolded tc, folded got(1), folded B, folded s1_def]
    have a16: "a mod 16 = 8" using heap_chunk [OF heap_invD(1) [OF inv1]] by metis
    define r where "r = (a + 8 + (al - 1)) - ((a + 8 + (al - 1)) AND (al - 1))"
    note r = round_up_mask [OF al(1), of "a + 8", folded r_def]
    define d where "d = r - (a + 8)"
    have rd: "r = a + 8 + d" using r(2) by (simp add: d_def)
    have "16 dvd r" using r(1) al16 dvd_trans by blast
    moreover have "16 dvd a + 8" using a16 by presburger
    ultimately have "16 dvd d" by (simp add: d_def dvd_diff_nat)
    moreover have "d < al" using r(2,3) unfolding d_def by linarith
    ultimately have d: "16 dvd d" "d < al" by auto
    have s1: "z + 2 * al + 8 \<le> s1" using n0 got(3) by (simp add: s1_def)
    have n: "16 \<le> n1" "16 dvd n1" "d + n1 < s1" using z d s1 al(2) by (auto simp: n1_def)
    from memalign_trim [OF lock1 inv1 prev del1 lt(2) [symmetric] d(1) n refl, of al "z + 2 * al" "z + 2 * al"]
    obtain h2 kk h3 where
      L: "(if d \<noteq> 0 then memalign_lead al (z + 2 * al) (a + 8) (a + 8 + d) (locked env h1)
          else Some (a + 8, a, z + 2 * al, locked env h1)) = Some (a + 8 + d, a + d, kk, h2)"
      and kk: "d \<noteq> 0 \<longrightarrow> kk = s1 - d - 8" "d = 0 \<longrightarrow> kk = z + 2 * al"
      and sh: "mm_shrinkchunk (a + d) n1 h2 = Some h3"
      and rp: "blocks_rep env (mm_givesemaphore h3) ((B(a + 8 \<mapsto> s1 - 8))(a + 8 := None, a + 8 + d \<mapsto> n1 - 8))"
      by blast
    have "n1 < kk" using kk s1 d al(2) by (cases "d = 0") (auto simp: n1_def)
    moreover have "(if r \<noteq> a + 8 then memalign_lead al (z + 2 * al) (a + 8) r (locked env h1)
        else Some (r, a + 8 - SIZEOF_MM_ALLOCNODE, z + 2 * al, locked env h1)) = Some (r, a + d, kk, h2)"
      using L rd by (cases "d = 0") (simp_all add: mm_consts)
    ultimately have "mm_memalign env al sz h = Some (r, mm_givesemaphore h3)"
      unfolding unf m(1) Option.bind.simps prod.case got(2) mm_takesemaphore_ok [OF lock1]
        Let_def r_def [symmetric]
      using sh by simp
    moreover have e: "(B(a + 8 \<mapsto> s1 - 8))(a + 8 := None) = B" using lt(1) by (simp add: fun_upd_idem)
    ultimately have "mm_memalign env al sz h = Some (r, mm_givesemaphore h3)"
      "blocks_rep env (mm_givesemaphore h3) (B(r \<mapsto> n1 - 8))" using rp rd by simp_all
    moreover have "B r = None"
    proof (cases "B r")
      case (Some m)
      then have "(B(a + 8 \<mapsto> s1 - 8)) r = Some m" "r \<noteq> a + 8" using lt(1) by auto
      moreover have "blocks_rep env h1 (B(a + 8 \<mapsto> s1 - 8))"
        using lock1 delayed_None [OF del1] inv1 lt(2) unfolding blocks_rep_def by (metis list.set(1))
      ultimately have "a + 8 + (s1 - 8) \<le> r" using blocks_rep_disjoint [of env h1 _ "a + 8" _ r] r(2) by fastforce
      then show ?thesis using r(3) s1 al(2) by linarith
    qed
    moreover have "sz \<le> n1 - 8" "r \<noteq> 0" using z(2) r(2) by (auto simp: n1_def)
    ultimately show ?thesis using r(1) by blast
  qed
qed

lemma mm_memalign_rep:
  assumes rep: "blocks_rep env h B" and al: "al = 2 ^ k" and sz: "sz + 2 * al + 64 < 2 ^ 32"
  shows "\<exists>r h'. mm_memalign env al sz h = Some (r, h') \<and>
    (r = 0 \<and> blocks_rep env h' B \<and> (0 < sz \<longrightarrow> \<not> has_room h (sz + 2 * al + 15)) \<or>
     r \<noteq> 0 \<and> al dvd r \<and> B r = None \<and> (\<exists>m. sz \<le> m \<and> blocks_rep env h' (B(r \<mapsto> m))))"
proof (cases "16 < al")
  case True
  then show ?thesis using memalign_large [OF rep al _ sz] by blast
next
  case False
  then have "al \<le> 2 ^ 4" by simp
  then have "k \<le> 4" unfolding al by (rule power_le_imp_le_exp [rotated]) simp
  then have "al dvd 2 ^ 4" unfolding al by (rule le_imp_power_dvd)
  then have d: "al dvd 16" by simp
  have lim: "sz < 2 ^ 32 - 23" using sz by simp
  from blocks_rep_alloc [OF rep lim] obtain r h' where
    r: "mm_malloc env sz h = Some (r, h')"
      "r = 0 \<and> blocks_rep env h' B \<or> r \<noteq> 0 \<and> B r = None \<and> (\<exists>m. sz \<le> m \<and> blocks_rep env h' (B(r \<mapsto> m)))"
    by blast
  have "al dvd r" if "blocks_rep env h' (B(r \<mapsto> m))" for m
    using blocks_rep_aligned(1) [OF that, of r m] d dvd_trans by auto
  moreover have "mm_memalign env al sz h = mm_malloc env sz h" using False by (simp add: mm_memalign_def mm_consts)
  moreover have "0 < sz \<longrightarrow> \<not> has_room h (sz + 2 * al + 15)" if "r = 0"
    using mm_malloc_null [OF rep _ lim] has_room_less [of h "sz + 2 * al + 15" sz] r(1) that by auto
  ultimately show ?thesis using r by auto
qed

section \<open>Cleared memory\<close>

lemma mm_zalloc_rep:
  assumes rep: "blocks_rep env h B" and n: "n < 2 ^ 32 - 23"
  shows "\<exists>r h'. mm_zalloc env n h = Some (r, h') \<and>
    (r = 0 \<and> blocks_rep env h' B \<and> (0 < n \<longrightarrow> \<not> has_room h n) \<or>
     r \<noteq> 0 \<and> B r = None \<and> (\<exists>m. n \<le> m \<and> blocks_rep env h' (B(r \<mapsto> m))) \<and>
     (\<forall>i < n. hdata h' (r + i) = 0) \<and>
     (\<forall>c k i. B c = Some k \<longrightarrow> i < k \<longrightarrow> hdata h' (c + i) = hdata h (c + i)))"
proof -
  from blocks_rep_alloc [OF rep n] obtain r h1 where
    r: "mm_malloc env n h = Some (r, h1)"
      "r = 0 \<and> blocks_rep env h1 B \<or> r \<noteq> 0 \<and> B r = None \<and> (\<exists>m. n \<le> m \<and> blocks_rep env h1 (B(r \<mapsto> m)))"
    by blast
  note hd = mm_malloc_hdata [OF rep n r(1)]
  show ?thesis
  proof (cases "r = 0")
    case True
    then show ?thesis using r mm_malloc_null [OF rep _ n] by (auto simp: mm_zalloc_def)
  next
    case False
    then obtain m where m: "B r = None" "n \<le> m" "blocks_rep env h1 (B(r \<mapsto> m))" using r(2) by auto
    let ?h = "h1\<lparr>hdata := memset r 0 n (hdata h1)\<rparr>"
    have "hdata ?h (c + i) = hdata h (c + i)" if c: "B c = Some k" "i < k" for c k i
    proof -
      have "c \<noteq> r" using c m(1) by auto
      then have Bc: "(B(r \<mapsto> m)) c = Some k" and Br: "(B(r \<mapsto> m)) r = Some m" using c by auto
      have "c + i < r \<or> r + n \<le> c + i"
        using blocks_rep_disjoint [OF m(3) Bc Br] blocks_rep_disjoint [OF m(3) Br Bc] \<open>c \<noteq> r\<close> c(2) m(2)
        by linarith
      then show ?thesis using memset_outside [of "c + i" r n] hd [OF c] by auto
    qed
    moreover have "\<forall>i < n. hdata ?h (r + i) = 0" using memset_inside [of r _ n 0] by simp
    moreover have "blocks_rep env ?h (B(r \<mapsto> m))" using m(3) by simp
    moreover have "mm_zalloc env n h = Some (r, ?h)" using r(1) False by (simp add: mm_zalloc_def)
    ultimately show ?thesis using False m(1,2) by blast
  qed
qed

lemma mm_calloc_rep:
  assumes rep: "blocks_rep env h B" and sz: "n * es < 2 ^ 32 - 23 \<or> 2 ^ 32 \<le> n * es"
  shows "\<exists>r h'. mm_calloc env n es h = Some (r, h') \<and>
    (r = 0 \<and> blocks_rep env h' B \<and> (0 < n * es \<and> n * es < 2 ^ 32 \<longrightarrow> \<not> has_room h (n * es)) \<or>
     r \<noteq> 0 \<and> n * es < 2 ^ 32 \<and> B r = None \<and> (\<exists>m. n * es \<le> m \<and> blocks_rep env h' (B(r \<mapsto> m))) \<and>
     (\<forall>i < n * es. hdata h' (r + i) = 0) \<and>
     (\<forall>c k i. B c = Some k \<longrightarrow> i < k \<longrightarrow> hdata h' (c + i) = hdata h (c + i)))"
proof (cases "0 < n \<and> 0 < es \<and> n * es < 2 ^ 32")
  case True
  then have lt: "n * es < 2 ^ 32 - 23" using sz by linarith
  have "n \<le> SIZE_MAX div es" using True by (simp add: less_eq_div_iff_mult_less_eq SIZE_MAX_def)
  then have "mm_calloc env n es h = mm_zalloc env (n * es) h" using True by (simp add: mm_calloc_def)
  then show ?thesis using mm_zalloc_rep [OF rep lt] True by auto
next
  case False
  then have "mm_calloc env n es h = Some (0, h)"
    by (auto simp: mm_calloc_def SIZE_MAX_def less_eq_div_iff_mult_less_eq)
  then show ?thesis using rep False by auto
qed

section \<open>Extending the heap\<close>

lemma layout_grow:
  assumes "layout S P a p (cs @ [(e, 8, True)]) (e + 8) 8" "sized cs" "0 < sz"
    and "S' = S(Nd e := sz, Nd (e + sz) := 8)" "P' = P(Nd (e + sz) := sz + af True)"
  shows "layout S' P' a p (cs @ [(e, sz, True), (e + sz, 8, True)]) (e + sz + 8) 8"
proof -
  obtain q where q: "layout S P a p cs e q" "P (Nd e) = q + af True" using assms(1) by auto
  have "layout S' P' a p cs e q \<longleftrightarrow> layout S P a p cs e q"
  proof (rule layout_cong)
    fix b s al assume "(b, s, al) \<in> set cs"
    then have "b + s \<le> e" "0 < s" using layout_in_range [OF q(1)] assms(2) by (auto simp: sized_def)
    then show "S' (Nd b) = S (Nd b) \<and> P' (Nd b) = P (Nd b)" using assms(4,5) by auto
  qed
  then show ?thesis using q assms(3,4,5) by auto
qed

lemma mm_extend_spec:
  assumes lock: "can_lock env h" and inv: "heap_inv h cs" and sz: "16 dvd sz" "0 < sz"
    and fit: "mm_heapend h + sz + 8 < 2 ^ 32" "mm_heapend h + sz + 8 - mm_heapstart h < 2 ^ 31"
  shows "\<exists>h'. mm_extend env (mm_heapend h + 8) sz h = Some h' \<and>
    heap_inv h' (coalesce (cs @ [(mm_heapend h, sz, False)])) \<and>
    mm_heapend h' = mm_heapend h + sz \<and> mm_heapstart h' = mm_heapstart h \<and>
    mm_heapsize h' = mm_heapsize h \<and> mm_delaylist h' = mm_delaylist h \<and>
    (\<forall>x \<in> payload cs. dflink h' x = dflink h x \<and> hdata h' x = hdata h x) \<and> can_lock env h'"
proof -
  let ?e = "mm_heapend h"
  note raw = heap_invD(1) [OF inv]
  have "heap_raw h ([] @ cs @ []) (free_addrs cs)" using raw by simp
  note raw' = this
  obtain a p b m where sp: "heap_split h [] cs [] a p b m" using heap_split_exists [OF raw'] by blast
  have le: "mm_heapstart h + 8 \<le> ?e" using heap_split_facts(1-3) [OF raw' sp] by linarith
  have s16: "16 \<le> sz" "sz < 2 ^ 31" using sz fit le by (auto elim!: dvdE)
  have ends: "(?e + 8 + sz) mod 2 ^ 32 = ?e + 8 + sz" using fit by simp
  have new: "sub32 (?e + 8 + sz) SIZEOF_MM_ALLOCNODE = ?e + sz"
    using sub32_eq [of 8 "?e + 8 + sz"] fit by (simp add: mm_consts)
  define h5 where "h5 = (set_preceding (Nd (?e + sz)) (sz OR MM_ALLOC_BIT)
    (set_size (Nd (?e + sz)) 8 (set_size (Nd ?e) sz (locked env h))))\<lparr>mm_heapend := ?e + sz\<rparr>"
  have f: "nsize h5 = (nsize h)(Nd ?e := sz, Nd (?e + sz) := 8)"
    "npreceding h5 = (npreceding h)(Nd (?e + sz) := sz + af True)"
    "nflink h5 = nflink h" "nblink h5 = nblink h" "mm_heapstart h5 = mm_heapstart h" "mm_heapend h5 = ?e + sz"
    using s16 by (simp_all add: h5_def or_af set_size_def set_preceding_def)
  obtain fl where fl: "flist h fl (free_addrs cs)" using raw by (auto simp: heap_raw_def)
  have out: "x < ?e" if "x \<in> free_addrs cs" for x
  proof -
    obtain s where "(x, s, False) \<in> set cs" using \<open>x \<in> free_addrs cs\<close> by (auto simp: free_addrs_def)
    moreover have "layout (nsize h) (npreceding h) a p cs ?e m" using sp by (auto simp: heap_split_def)
    ultimately show ?thesis using layout_in_range [of _ _ a p cs ?e m x s] raw_size(2) [OF raw] by fastforce
  qed
  have fl5: "flist h5 fl (free_addrs cs)"
    using fl by (rule flist_cong) (use f out in \<open>auto simp: less_not_refl2\<close>)
  have l: "layout (nsize h) (npreceding h) (mm_heapstart h) 0 (((mm_heapstart h, 8, True) # cs) @ [(?e, 8, True)]) (?e + 8) 8"
    using raw by (simp add: heap_raw_def heap_chunks_def mm_consts)
  have "layout (nsize h5) (npreceding h5) (mm_heapstart h) 0
      (((mm_heapstart h, 8, True) # cs) @ [(?e, sz, True), (?e + sz, 8, True)]) (?e + sz + 8) 8"
  proof -
    have l8: "layout (nsize h) (npreceding h) (mm_heapstart h + 8) 8 (cs @ [(?e, 8, True)]) (?e + 8) 8"
      and g: "nsize h (Nd (mm_heapstart h)) = 8" "npreceding h (Nd (mm_heapstart h)) = af True" using l by auto
    have "layout (nsize h5) (npreceding h5) (mm_heapstart h + 8) 8 (cs @ [(?e, sz, True), (?e + sz, 8, True)]) (?e + sz + 8) 8"
      by (rule layout_grow [OF l8]) (use raw sz f in \<open>auto simp: heap_raw_def\<close>)
    then show ?thesis using g f le by (auto simp del: layout_append)
  qed
  then have "heap_raw h5 (cs @ [(?e, sz, True)]) (free_addrs cs)"
    using raw fl5 f fit sz(1) s16 by (auto simp: heap_raw_def heap_chunks_def mm_consts simp del: layout.simps layout_append)
  then have inv5: "heap_inv h5 (cs @ [(?e, sz, True)])"
    using heap_invD(2) [OF inv] by (simp add: heap_inv_def coalesced_append)
  let ?g = "mm_givesemaphore h5"
  have invg: "heap_inv ?g (cs @ [(?e, sz, True)])" using inv5 by simp
  have K: "clear (payload cs) ?e 8" "clear (payload cs) (?e + sz) 8"
  proof -
    show e: "clear (payload cs) ?e 8" using apartD(3) [OF apart_payload [OF raw]] .
    have "layout (nsize h) (npreceding h) a p cs ?e m" using sp by (auto simp: heap_split_def)
    then have "x < ?e" if "x \<in> payload cs" for x
      using that layout_in_range [of _ _ a p cs ?e m] by (fastforce simp: payload_def)
    then show "clear (payload cs) (?e + sz) 8" by (fastforce simp: clear_def)
  qed
  have gd: "hdata ?g x = hdata h x" "dflink ?g x = dflink h x" if "x \<in> payload cs" for x
    using set_hdata [OF _ that] K by (simp_all add: h5_def) (simp add: set_size_def set_preceding_def)
  have gs: "mm_heapsize ?g = mm_heapsize h" "mm_delaylist ?g = mm_delaylist h" "mm_heapend ?g = ?e + sz" "mm_heapstart ?g = mm_heapstart h" and lockg: "can_lock env ?g"
    using lock by (auto simp: h5_def set_size_def set_preceding_def can_lock_def locked_def
        mm_givesemaphore_def NO_HOLDER_def)
  from mm_free_spec [OF lockg invg, of ?e sz] obtain h' where
    h': "mm_free env (?e + 8) ?g = Some h'" "heap_inv h' (released {?e + 8} (cs @ [(?e, sz, True)]))"
    "nodes_only (payload (released {?e + 8} (cs @ [(?e, sz, True)]))) ?g h'" by auto
  have eq: "released {?e + 8} (cs @ [(?e, sz, True)]) = coalesce (cs @ [(?e, sz, False)])"
    using mark_free_one [of h5 cs ?e sz "[]"] inv5 by (simp add: released_def del: mark_free_simps)
  have pl: "payload (coalesce (cs @ [(?e, sz, False)])) = payload cs"
    by (rule payload_cong) (simp add: coalesce_alloc)
  have "mm_extend env (?e + 8) sz h = Some h'"
    using h'(1) mm_takesemaphore_ok [OF lock] sz(2) unfolding mm_extend_def Let_def ends new h5_def
    by (simp add: mm_consts set_size_def set_preceding_def)
  then show ?thesis
    using h'(2) nodes_onlyD [OF h'(3) [unfolded eq pl]] gs gd can_lock_nodes_only [OF lockg h'(3)] eq by simp
qed

end
