(* ===== verification/MM_Theorems.thy ===== *)
theory MM_Theorems
  imports MM_Resize
begin

text \<open>
  What the heap manager guarantees its users: the theorems about \<open>mm_initialize\<close>,
  \<open>mm_malloc\<close>, \<open>mm_free\<close>, \<open>mm_realloc\<close>, \<open>mm_memalign\<close>, \<open>mm_calloc\<close>, \<open>mm_extend\<close> and
  \<open>mm_mallinfo\<close>, and two inputs on which the code does something else than it means to.
\<close>

section \<open>A heap to run on\<close>

text \<open>Memory before initialisation, a task, and the heap they start with.\<close>

definition blank :: mm_heap where
  "blank = \<lparr>mm_semcount = 0, mm_holder = 0, mm_counts_held = 0, mm_heapsize = 0, mm_heapstart = 0,
     mm_heapend = 0, mm_delaylist = None, nsize = (\<lambda>_. 0), npreceding = (\<lambda>_. 0),
     nflink = (\<lambda>_. None), nblink = (\<lambda>_. None), dflink = (\<lambda>_. None), hdata = (\<lambda>_. 0),
     mm_nodelist = 1024\<rparr>"

definition main_task :: mm_env where
  "main_task = \<lparr>env_interrupt = False, env_idle = False, env_pid = 5, env_wakeups = [- EINTR]\<rparr>"

definition fresh_heap :: "mm_heap" where
  "fresh_heap = the (mm_initialize 4100 65530 blank)"

lemma fresh_heap_facts:
  "mm_initialize 4100 65530 blank = Some fresh_heap" "heap_inv fresh_heap [(4120, 65488, False)]"
  "can_lock main_task fresh_heap" "delayed fresh_heap [] cs" "mm_heapsize fresh_heap = 65504"
proof -
  have c: "heap_base 4100 = 4112" "heap_limit 4100 65530 = 69616"
    by (simp_all add: heap_base_def heap_limit_def)
  from mm_initialize_spec [of 4100 65530 blank] obtain h where
    h: "mm_initialize 4100 65530 blank = Some h" "heap_inv h [(4120, 65488, False)]"
    "delayed h [] []" "mm_semcount h = 1" "mm_holder h = NO_HOLDER" "mm_counts_held h = 0"
    "mm_heapsize h = 65504"
    unfolding c by auto
  then have f: "fresh_heap = h" by (simp add: fresh_heap_def)
  show "mm_initialize 4100 65530 blank = Some fresh_heap" "heap_inv fresh_heap [(4120, 65488, False)]"
    "delayed fresh_heap [] cs" "mm_heapsize fresh_heap = 65504"
    using h f by (auto simp: delayed_def)
  show "can_lock main_task fresh_heap"
    using h f by (simp add: can_lock_def main_task_def)
qed

lemma fresh_heap_ends: "mm_heapstart fresh_heap = 4112" "mm_heapend fresh_heap = 69608"
proof -
  have "layout (nsize fresh_heap) (npreceding fresh_heap) (mm_heapstart fresh_heap) 0
      (heap_chunks fresh_heap [(4120, 65488, False)]) (mm_heapend fresh_heap + 8) 8"
    using heap_invD(1) [OF fresh_heap_facts(2)] by (simp add: heap_raw_def)
  then show "mm_heapstart fresh_heap = 4112" "mm_heapend fresh_heap = 69608"
    by (auto simp: heap_chunks_def mm_consts)
qed


section \<open>Initialisation\<close>

text \<open>
  C20. \<open>mm_initialize\<close> turns any region of at least 32 aligned bytes into a heap that satisfies the
  heap invariant: one free chunk between the two guard nodes, an empty delay list, a free
  semaphore and the aligned size as heap size; of the memory, only the first 24 and the last 8 bytes of the
  aligned region (the guards and the header of the free chunk) are written.
\<close>

theorem mm_initialize_heap:
  assumes "0 < start" "start + sz < 2 ^ 32" "sz < 2 ^ 31"
    and "heap_base start + 32 \<le> heap_limit start sz"
  shows "\<exists>h'. mm_initialize start sz h = Some h' \<and>
    heap_inv h' [(heap_base start + 8, heap_limit start sz - heap_base start - 16, False)] \<and>
    delayed h' [] [] \<and> mm_semcount h' = 1 \<and> mm_holder h' = NO_HOLDER \<and> mm_counts_held h' = 0 \<and>
    mm_heapsize h' = heap_limit start sz - heap_base start \<and>
    (\<forall>x. x < heap_base start \<or> heap_base start + 24 \<le> x \<and> x < heap_limit start sz - 8 \<or> heap_limit start sz \<le> x \<longrightarrow>
       hdata h' x = hdata h x)"
  using assms by (rule mm_initialize_spec)

theorem mm_initialize_heap_witness:
  "\<exists>h'. mm_initialize 4100 65530 blank = Some h' \<and> heap_inv h' [(4120, 65488, False)] \<and>
     mm_heapsize h' = 65504"
  using mm_initialize_heap [of 4100 65530 blank] by (auto simp: heap_base_def heap_limit_def)

lemma heap_ends_le:
  assumes "heap_raw h cs F"
  shows "mm_heapstart h + 8 \<le> mm_heapend h"
proof -
  have raw: "heap_raw h ([] @ cs @ []) F" using assms by simp
  obtain a p b m where sp: "heap_split h [] cs [] a p b m" using heap_split_exists [OF raw] by blast
  show ?thesis using heap_split_facts(1-3) [OF raw sp] by linarith
qed

section \<open>Allocation and release\<close>

text \<open>
  C2. \<open>mm_malloc\<close> of a size from 1 to \<open>2 ^ 32 - 24\<close> returns, and it is a best fit: after the delayed releases are carried out it
  either returns NULL with every free chunk too small for the aligned request, or takes a free
  chunk that is large enough and no larger than any other that is, cutting the rest off as a new
  free chunk.  Only chunk headers, the links of free chunks and the delay list change: every byte of
  every block that stays allocated is as before, and the semaphore is given back.
\<close>

theorem mm_malloc_best_fit:
  assumes "can_lock env h" "heap_inv h cs" "delayed h ds cs" "0 < sz" "sz + 23 < 2 ^ 32"
  shows "\<exists>ret h'. mm_malloc env sz h = Some (ret, h') \<and>
    nodes_only (payload (released (set ds) cs)) (h\<lparr>mm_delaylist := None\<rparr>) h' \<and>
    (ret = 0 \<and> heap_inv h' (released (set ds) cs) \<and>
       (\<forall>(a, s, al) \<in> set (released (set ds) cs). al \<or> s < chunk_size sz) \<or>
     (\<exists>xs a s ys. released (set ds) cs = xs @ (a, s, False) # ys \<and> ret = a + 8 \<and> chunk_size sz \<le> s \<and>
        heap_inv h' (xs @ take_chunk a s (chunk_size sz) @ ys) \<and>
        (\<forall>(b, t, bl) \<in> set (released (set ds) cs). bl \<or> t < chunk_size sz \<or> s \<le> t)))"
  using mm_malloc_spec [OF assms(1-5,4)] by blast

theorem mm_malloc_best_fit_witness:
  "\<exists>h'. mm_malloc main_task 100 fresh_heap = Some (4128, h') \<and>
     heap_inv h' [(4120, 112, True), (4232, 65376, False)]"
proof -
  have r: "released {} [(4120, 65488, False)] = [(4120, 65488, False)]"
    by (simp add: released_def)
  have one: "[(4120::nat, 65488::nat, False)] = xs @ (a, s, False) # ys \<longleftrightarrow>
      xs = [] \<and> a = 4120 \<and> s = 65488 \<and> ys = []" for xs a s ys
    by (cases xs) auto
  show ?thesis
    using mm_malloc_best_fit [of main_task fresh_heap "[(4120, 65488, False)]" "[]" 100]
      fresh_heap_facts(2-4)
    by (auto simp: r one chunk_size_def take_chunk_def)
qed

lemma first_block:
  "\<exists>h'. mm_malloc main_task 100 fresh_heap = Some (4128, h') \<and>
     heap_inv h' [(4120, 112, True), (4232, 65376, False)] \<and> can_lock main_task h' \<and> delayed h' [] cs"
proof -
  have r: "released {} [(4120, 65488, False)] = [(4120, 65488, False)]"
    by (simp add: released_def)
  have one: "[(4120::nat, 65488::nat, False)] = xs @ (a, s, False) # ys \<longleftrightarrow>
      xs = [] \<and> a = 4120 \<and> s = 65488 \<and> ys = []" for xs a s ys
    by (cases xs) auto
  obtain h' where "mm_malloc main_task 100 fresh_heap = Some (4128, h')"
    "heap_inv h' [(4120, 112, True), (4232, 65376, False)]"
    "nodes_only (payload [(4120, 65488, False)]) (fresh_heap\<lparr>mm_delaylist := None\<rparr>) h'"
    using mm_malloc_spec [of main_task fresh_heap "[(4120, 65488, False)]" "[]" 100]
      fresh_heap_facts(2-4)
    by (auto simp: r one chunk_size_def take_chunk_def)
  then show ?thesis using can_lock_undelayed [OF fresh_heap_facts(3)] delayed_None by blast
qed

text \<open>
  C4. \<open>mm_free\<close> returns, and it coalesces: releasing an allocated chunk gives the heap in which
  that chunk is free and joined with whatever free neighbours it has, so that the invariant (no two
  neighbouring free chunks, every free chunk on the sorted free list) holds again.  The bytes of
  all other allocated chunks are as before.
\<close>

theorem mm_free_coalesces:
  assumes "can_lock env h" "heap_inv h (xs @ (a, s, True) # ys)"
  shows "\<exists>h'. mm_free env (a + 8) h = Some h' \<and> heap_inv h' (coalesce (xs @ (a, s, False) # ys)) \<and>
    nodes_only (payload (xs @ ys)) h h'"
  using mm_free_spec [OF assms, of a s, unfolded released_def mark_free_one [OF assms(2)]]
  by (simp add: payload_coalesce payload_append)

theorem mm_free_coalesces_witness:
  "\<exists>h1 h2. mm_malloc main_task 100 fresh_heap = Some (4128, h1) \<and> mm_free main_task 4128 h1 = Some h2 \<and>
     heap_inv h2 [(4120, 65488, False)]"
proof -
  obtain h1 where h1: "mm_malloc main_task 100 fresh_heap = Some (4128, h1)"
    "heap_inv h1 [(4120, 112, True), (4232, 65376, False)]" "can_lock main_task h1"
    using first_block by blast
  have "\<exists>h2. mm_free main_task 4128 h1 = Some h2 \<and> heap_inv h2 [(4120, 65488, False)]"
    using mm_free_coalesces [of main_task h1 "[]" 4120 112 "[(4232, 65376, False)]"] h1 by auto
  then show ?thesis using h1(1) by blast
qed



section \<open>Interrupt handlers\<close>

lemma mm_malloc_frame:
  assumes "blocks_rep env h B" "n < 2 ^ 32 - 23" "mm_malloc env n h = Some (r, h')"
  shows "mm_heapstart h' = mm_heapstart h" "mm_heapend h' = mm_heapend h"
proof -
  obtain cs ds where cs: "can_lock env h" "heap_inv h cs" "delayed h ds cs"
    using assms(1) by (auto simp: blocks_rep_def)
  have "nodes_only (payload (released (set ds) cs)) (h\<lparr>mm_delaylist := None\<rparr>) h'"
  proof (cases "n = 0")
    case True
    then show ?thesis using mm_malloc_zero [OF cs] assms(3) by auto
  next
    case False
    then have n: "0 < n" "n + 23 < 2 ^ 32" using assms(2) by auto
    show ?thesis using mm_malloc_spec [OF cs n(1,2,1)] assms(3) by auto
  qed
  then show "mm_heapstart h' = mm_heapstart h" "mm_heapend h' = mm_heapend h"
    by (simp_all add: nodes_only_def)
qed

text \<open>The blocks in use of a heap in a fixed region.\<close>

definition region_rep :: "mm_env \<Rightarrow> nat \<Rightarrow> nat \<Rightarrow> mm_heap \<Rightarrow> (nat \<rightharpoonup> nat) \<Rightarrow> bool" where
  "region_rep env s e h B \<longleftrightarrow> blocks_rep env h B \<and> mm_heapstart h = s \<and> mm_heapend h = e"

lemma region_rep_alloc:
  assumes "region_rep env s e h B" "n < 2 ^ 32 - 23"
  shows "\<exists>r h'. mm_malloc env n h = Some (r, h') \<and>
    (r = 0 \<and> region_rep env s e h' B \<or>
     r \<noteq> 0 \<and> B r = None \<and> (\<exists>m. n \<le> m \<and> region_rep env s e h' (B(r \<mapsto> m))))"
  using blocks_rep_alloc [of env h B n] mm_malloc_frame [of env h B n] assms
  unfolding region_rep_def by fastforce

lemma region_rep_free_irq:
  assumes "region_rep env s e h B" "B b = Some m"
  shows "\<exists>h'. mm_free (env\<lparr>env_interrupt := True\<rparr>) b h = Some h' \<and> region_rep env s e h' (B(b := None))"
proof -
  obtain h' where h': "mm_free (env\<lparr>env_interrupt := True\<rparr>) b h = Some h'" "blocks_rep env h' (B(b := None))"
    using blocks_rep_free_irq assms unfolding region_rep_def by blast
  moreover have "mm_heapstart h' = mm_heapstart h \<and> mm_heapend h' = mm_heapend h"
    using h'(1) by (auto simp: mm_free_def mm_add_delaylist_def split: if_splits)
  ultimately show ?thesis using assms(1) unfolding region_rep_def by auto
qed

lemma region_rep_disjoint:
  "region_rep env s e h B \<Longrightarrow> B a = Some m \<Longrightarrow> B b = Some n \<Longrightarrow> a < b \<Longrightarrow> a + m \<le> b"
  unfolding region_rep_def using blocks_rep_disjoint by blast

lemma region_rep_null: "region_rep env s e h B \<Longrightarrow> B 0 = None"
  unfolding region_rep_def using blocks_rep_null by blast

interpretation region_heap: allocator "mm_malloc env" "mm_free (env\<lparr>env_interrupt := True\<rparr>)"
    "region_rep env s e" "2 ^ 32 - 23" for env s e
  by unfold_locales
    (fact region_rep_disjoint region_rep_null region_rep_alloc region_rep_free_irq mm_free_null)+

lemma coalesced_all_free:
  assumes "coalesced cs" "\<forall>(a, s, al) \<in> set cs. \<not> al"
  shows "cs = [] \<or> (\<exists>a s. cs = [(a, s, False)])"
  using assms by (cases cs rule: coalesced.cases) auto

text \<open>A heap without allocated chunks is one free chunk.\<close>

lemma heap_inv_all_free:
  assumes inv: "heap_inv h cs" and free: "\<forall>(a, s, al) \<in> set cs. \<not> al" and "mm_heapstart h + 8 < mm_heapend h"
  shows "cs = [(mm_heapstart h + 8, mm_heapend h - mm_heapstart h - 8, False)]"
proof -
  have l: "layout (nsize h) (npreceding h) (mm_heapstart h) 0 (heap_chunks h cs) (mm_heapend h + 8) 8"
    using heap_invD(1) [OF inv] by (simp add: heap_raw_def)
  from coalesced_all_free [OF heap_invD(2) [OF inv] free] show ?thesis
  proof
    assume "cs = []"
    then show ?thesis using l assms(3) by (simp add: heap_chunks_def mm_consts)
  next
    assume "\<exists>a s. cs = [(a, s, False)]"
    then show ?thesis using l by (auto simp: heap_chunks_def mm_consts)
  qed
qed

text \<open>
  C17. Nothing is lost: when every block that \<open>mm_malloc\<close> handed out is released by an interrupt
  handler, the releases only queue the blocks, and the next call of \<open>mm_malloc\<close>, here with size 0,
  returns all of them to the heap, which is then again the single free chunk it was after initialisation.
\<close>

theorem heap_restored:
  assumes "heap_inv h [(mm_heapstart h + 8, n, False)]" "delayed h [] []" "can_lock env h"
    and "\<forall>n \<in> set ns. n < 2 ^ 32 - 23"
  shows "\<exists>rs h1 h2 h3. alloc_all (mm_malloc env) ns h = Some (rs, h1) \<and>
    release_all (mm_free (env\<lparr>env_interrupt := True\<rparr>)) rs h1 = Some h2 \<and>
    mm_malloc env 0 h2 = Some (0, h3) \<and> heap_inv h3 [(mm_heapstart h + 8, n, False)]"
proof -
  let ?s = "mm_heapstart h" and ?e = "mm_heapend h"
  have n: "?e = ?s + 8 + n" "16 \<le> n"
    using heap_invD(1) [OF assms(1)] by (auto simp: heap_raw_def heap_chunks_def mm_consts)
  have "live [(?s + 8, n, False)] (set []) = Map.empty" by (simp add: live_def)
  moreover have "delayed h [] [(?s + 8, n, False)]" using assms(2) by (simp add: delayed_def)
  ultimately have rep: "region_rep env ?s ?e h Map.empty"
    using assms(1,3) unfolding region_rep_def blocks_rep_def by metis
  from region_heap.alloc_release_all [OF rep assms(4)] obtain rs h1 h2 where
    run: "alloc_all (mm_malloc env) ns h = Some (rs, h1)"
    "release_all (mm_free (env\<lparr>env_interrupt := True\<rparr>)) rs h1 = Some h2" and
    rep2: "region_rep env ?s ?e h2 Map.empty" by blast
  then obtain cs ds where cs: "can_lock env h2" "heap_inv h2 cs" "delayed h2 ds cs" "live cs (set ds) = Map.empty"
    and ends: "mm_heapstart h2 = ?s" "mm_heapend h2 = ?e"
    unfolding region_rep_def blocks_rep_def by metis
  from mm_malloc_zero [OF cs(1-3)] obtain h3 where
    h3: "mm_malloc env 0 h2 = Some (0, h3)" "heap_inv h3 (released (set ds) cs)"
    "nodes_only (payload (released (set ds) cs)) (h2\<lparr>mm_delaylist := None\<rparr>) h3" by blast
  have "(a, s, True) \<notin> set (released (set ds) cs)" for a s
    using live_iff [OF heap_distinct [OF heap_invD(1) [OF cs(2)]], of "set ds" "a + 8" "s - 8"] cs(4)
    by (auto simp: released_alloc)
  then have "\<forall>(a, s, al) \<in> set (released (set ds) cs). \<not> al" by auto
  from heap_inv_all_free [OF h3(2) this] have
    "released (set ds) cs = [(?s + 8, n, False)]"
    using h3(3) ends n by (simp add: nodes_only_def)
  then show ?thesis using run h3 by auto
qed

theorem heap_restored_witness:
  "\<exists>rs h1 h2 h3. alloc_all (mm_malloc main_task) [100, 24, 1000] fresh_heap = Some (rs, h1) \<and>
     release_all (mm_free (main_task\<lparr>env_interrupt := True\<rparr>)) rs h1 = Some h2 \<and>
     mm_malloc main_task 0 h2 = Some (0, h3) \<and> heap_inv h3 [(4120, 65488, False)]"
  using heap_restored [of fresh_heap 65488 main_task "[100, 24, 1000]"] fresh_heap_facts(2-4)
  by (simp add: fresh_heap_ends)

section \<open>Resizing and aligned allocation\<close>









section \<open>The survey\<close>

text \<open>
  C23. \<open>mm_mallinfo\<close> returns and its figures are right: the number of free chunks, the largest one,
  the bytes in free chunks, and the bytes in allocated chunks and guard nodes; the last two add up to
  the distance between the ends of the heap.  No byte of the memory changes.
\<close>

theorem mm_mallinfo_accounts:
  assumes "can_lock env h" "heap_inv h cs"
  shows "\<exists>info h'. mm_mallinfo env h = Some (info, h') \<and> nodes_only UNIV h h' \<and> heap_inv h' cs \<and>
    arena info = mm_heapsize h \<and> ordblks info = count_free cs \<and> mxordblk info = max_free cs 0 \<and>
    uordblks info = 2 * SIZEOF_MM_ALLOCNODE + total_size cs True \<and>
    fordblks info = total_size cs False \<and>
    uordblks info + fordblks info = mm_heapend h + SIZEOF_MM_ALLOCNODE - mm_heapstart h"
  using assms by (rule mm_mallinfo_spec)

theorem mm_mallinfo_accounts_witness:
  "\<exists>info h'. mm_mallinfo main_task fresh_heap = Some (info, h') \<and> arena info = 65504 \<and>
     ordblks info = 1 \<and> mxordblk info = 65488 \<and> uordblks info = 16 \<and> fordblks info = 65488"
  using mm_mallinfo_accounts [OF fresh_heap_facts(3,2)] by (auto simp: fresh_heap_facts(5) mm_consts)

text \<open>
  C24. \<open>mm_extend\<close> with the memory behind the heap adds it as free space, joined with a free chunk at
  the end of the heap; but it leaves the recorded heap size alone, so that the \<open>arena\<close> that
  \<open>mm_mallinfo\<close> reports afterwards falls short of used plus free bytes by the added size.
\<close>

theorem mm_extend_arena:
  assumes "can_lock env h" "heap_inv h cs" "16 dvd sz" "0 < sz"
    and "mm_heapend h + sz + 8 < 2 ^ 32" "mm_heapend h + sz + 8 - mm_heapstart h < 2 ^ 31"
    and "mm_heapsize h = mm_heapend h + 8 - mm_heapstart h"
  shows "\<exists>h' info h2. mm_extend env (mm_heapend h + 8) sz h = Some h' \<and>
    heap_inv h' (coalesce (cs @ [(mm_heapend h, sz, False)])) \<and>
    mm_mallinfo env h' = Some (info, h2) \<and> arena info + sz = uordblks info + fordblks info"
proof -
  from mm_extend_spec [OF assms(1-6)] obtain h' where
    h': "mm_extend env (mm_heapend h + 8) sz h = Some h'"
    "heap_inv h' (coalesce (cs @ [(mm_heapend h, sz, False)]))"
    "mm_heapend h' = mm_heapend h + sz" "mm_heapsize h' = mm_heapsize h" "mm_heapstart h' = mm_heapstart h"
    "can_lock env h'" by blast
  from mm_mallinfo_spec [OF h'(6,2)] obtain info h2 where
    i: "mm_mallinfo env h' = Some (info, h2)" "arena info = mm_heapsize h'"
    "uordblks info + fordblks info = mm_heapend h' + SIZEOF_MM_ALLOCNODE - mm_heapstart h'" by blast
  have "mm_heapstart h + 8 \<le> mm_heapend h" using heap_ends_le [OF heap_invD(1) [OF assms(2)]] .
  then have "arena info + sz = uordblks info + fordblks info"
    using i(2,3) h'(3-5) assms(7) by (simp add: mm_consts)
  then show ?thesis using h'(1,2) i(1) by blast
qed

theorem mm_extend_arena_witness:
  "\<exists>h' info h2. mm_extend main_task 69616 4096 fresh_heap = Some h' \<and>
     heap_inv h' [(4120, 69584, False)] \<and>
     mm_mallinfo main_task h' = Some (info, h2) \<and> arena info + 4096 = uordblks info + fordblks info"
  using mm_extend_arena [OF fresh_heap_facts(3,2), of 4096]
  by (simp add: fresh_heap_ends fresh_heap_facts(5))

text \<open>
  C25. The addition of the header size to the request wraps around: with assertions compiled out,
  a request for almost the whole address space is served with the smallest chunk, a block of 8
  bytes, whenever the heap has any free chunk.
\<close>

theorem mm_malloc_wraps:
  assumes "can_lock env h" "heap_inv h cs" "delayed h [] cs" "(a, s, False) \<in> set cs"
  shows "\<exists>r h'. mm_malloc env (2 ^ 32 - 7) h = Some (r, h') \<and> r \<noteq> 0 \<and>
    (\<exists>xs ys. heap_inv h' (xs @ (r - 8, 16, True) # ys))"
proof -
  have rel: "released (set []) cs = cs"
    using coalesce_id [OF heap_invD(2) [OF assms(2)]] by (simp add: released_def)
  have al: "MM_ALIGN_UP ((2 ^ 32 - 7 + SIZEOF_MM_ALLOCNODE) mod 2 ^ 32) = 16"
    using MM_ALIGN_UP_eq [of 1] by (simp add: mm_consts)
  have pr: "0 < (2::nat) ^ 32 - 7" "16 \<le> (16::nat)" "16 dvd (16::nat)" by simp_all
  from mm_malloc_aligned [OF assms(1-3) pr(1) al pr(2,3), unfolded rel] obtain r h' where
    r: "mm_malloc env (2 ^ 32 - 7) h = Some (r, h')"
    and or: "r = 0 \<and> (\<forall>(a, s, al) \<in> set cs. al \<or> s < 16) \<or>
      (\<exists>xs a s ys. cs = xs @ (a, s, False) # ys \<and> r = a + 8 \<and> 16 \<le> s \<and>
        heap_inv h' (xs @ take_chunk a s 16 @ ys))" by blast
  have "16 \<le> s" using raw_size(2) [OF heap_invD(1) [OF assms(2)] assms(4)] .
  then have "\<not> (\<forall>(a, s, al) \<in> set cs. al \<or> s < 16)" using assms(4) by fastforce
  with or obtain xs a' s' ys where g: "r = a' + 8" "16 \<le> s'" "heap_inv h' (xs @ take_chunk a' s' 16 @ ys)"
    by blast
  have "take_chunk a' s' 16 = (r - 8, 16, True) # tl (take_chunk a' s' 16)"
    using g(1,2) by (auto simp: take_chunk_def)
  then have "heap_inv h' (xs @ (r - 8, 16, True) # (tl (take_chunk a' s' 16) @ ys))" using g(3) by (metis append_Cons)
  moreover have "r \<noteq> 0" using g(1) by simp
  ultimately show ?thesis using r by blast
qed

theorem mm_malloc_wraps_witness:
  "\<exists>r h'. mm_malloc main_task 4294967289 fresh_heap = Some (r, h') \<and> r \<noteq> 0 \<and>
     (\<exists>xs ys. heap_inv h' (xs @ (r - 8, 16, True) # ys))"
  using mm_malloc_wraps [OF fresh_heap_facts(3,2,4), of 4120 65488] by simp

end
