(* ===== verification/Sched.thy ===== *)
theory Sched
  imports Queue CInt
begin

text \<open>
  The task lists of the scheduler (\<open>sched/sched\<close>) and the context switching layer above them
  (\<open>arch/arm/src/armv7-m\<close>): definitions.

  The configuration has one CPU, round-robin scheduling and neither priority inheritance nor
  sporadic scheduling; assertions are compiled out.  A task control block is named by a number;
  its fields are functions.  The running task is the task at the head of \<open>g_readytorun\<close>, so a
  context switch is the change of that head.  Every operation runs inside a critical section and
  is one step.  \<open>None\<close> means that a NULL pointer is followed or that a search does not end.
\<close>

section \<open>State\<close>

datatype tstate =
    TSTATE_TASK_INVALID | TSTATE_TASK_PENDING | TSTATE_TASK_READYTORUN | TSTATE_TASK_RUNNING
  | TSTATE_TASK_INACTIVE | TSTATE_WAIT_SEM | TSTATE_WAIT_SIG | TSTATE_WAIT_MQNOTEMPTY
  | TSTATE_WAIT_MQNOTFULL

datatype tasklist =
    G_pendingtasks | G_readytorun | G_inactivetasks | G_waitingforsemaphore
  | G_waitingforsignal | G_waitingformqnotempty | G_waitingformqnotfull

text \<open>\<open>g_tasklisttable\<close>: the list of each state and whether it is prioritized.\<close>

fun TLIST_HEAD :: "tstate \<Rightarrow> tasklist option" where
  "TLIST_HEAD TSTATE_TASK_INVALID = None"
| "TLIST_HEAD TSTATE_TASK_PENDING = Some G_pendingtasks"
| "TLIST_HEAD TSTATE_TASK_READYTORUN = Some G_readytorun"
| "TLIST_HEAD TSTATE_TASK_RUNNING = Some G_readytorun"
| "TLIST_HEAD TSTATE_TASK_INACTIVE = Some G_inactivetasks"
| "TLIST_HEAD TSTATE_WAIT_SEM = Some G_waitingforsemaphore"
| "TLIST_HEAD TSTATE_WAIT_SIG = Some G_waitingforsignal"
| "TLIST_HEAD TSTATE_WAIT_MQNOTEMPTY = Some G_waitingformqnotempty"
| "TLIST_HEAD TSTATE_WAIT_MQNOTFULL = Some G_waitingformqnotfull"

fun TLIST_ISPRIORITIZED :: "tstate \<Rightarrow> bool" where
  "TLIST_ISPRIORITIZED TSTATE_TASK_INVALID = False"
| "TLIST_ISPRIORITIZED TSTATE_TASK_PENDING = True"
| "TLIST_ISPRIORITIZED TSTATE_TASK_READYTORUN = True"
| "TLIST_ISPRIORITIZED TSTATE_TASK_RUNNING = True"
| "TLIST_ISPRIORITIZED TSTATE_TASK_INACTIVE = False"
| "TLIST_ISPRIORITIZED TSTATE_WAIT_SEM = True"
| "TLIST_ISPRIORITIZED TSTATE_WAIT_SIG = False"
| "TLIST_ISPRIORITIZED TSTATE_WAIT_MQNOTEMPTY = True"
| "TLIST_ISPRIORITIZED TSTATE_WAIT_MQNOTFULL = True"

record sched =
  tlinks :: "nat links"
  tlists :: "tasklist \<Rightarrow> nat dq_queue"
  sched_priority :: "nat \<Rightarrow> nat"
  task_state :: "nat \<Rightarrow> tstate"
  lockcount :: "nat \<Rightarrow> int"
  timeslice :: "nat \<Rightarrow> int"
  sched_rr :: "nat \<Rightarrow> bool"

definition SCHED_PRIORITY_MIN :: int where "SCHED_PRIORITY_MIN = 1"
definition SCHED_PRIORITY_MAX :: int where "SCHED_PRIORITY_MAX = 255"

text \<open>\<open>MSEC2TICK(CONFIG_RR_INTERVAL)\<close> for 200 ms and a tick of 10 ms.\<close>

definition RR_TICKS :: int where "RR_TICKS = 20"

definition this_task :: "sched \<Rightarrow> nat option" where
  "this_task s = dq_head (tlists s G_readytorun)"

definition set_state :: "nat \<Rightarrow> tstate \<Rightarrow> sched \<Rightarrow> sched" where
  "set_state t v s = s\<lparr>task_state := (task_state s)(t := v)\<rparr>"

definition set_prio :: "nat \<Rightarrow> nat \<Rightarrow> sched \<Rightarrow> sched" where
  "set_prio t v s = s\<lparr>sched_priority := (sched_priority s)(t := v)\<rparr>"

definition set_lockcount :: "nat \<Rightarrow> int \<Rightarrow> sched \<Rightarrow> sched" where
  "set_lockcount t v s = s\<lparr>lockcount := (lockcount s)(t := v)\<rparr>"

definition set_timeslice :: "nat \<Rightarrow> int \<Rightarrow> sched \<Rightarrow> sched" where
  "set_timeslice t v s = s\<lparr>timeslice := (timeslice s)(t := v)\<rparr>"

text \<open>A list together with the links, and the two written back.\<close>

definition get_list :: "tasklist \<Rightarrow> sched \<Rightarrow> nat dq_state" where
  "get_list L s = (tlinks s, tlists s L)"

definition put_list :: "tasklist \<Rightarrow> nat dq_state \<Rightarrow> sched \<Rightarrow> sched" where
  "put_list L st s = s\<lparr>tlinks := fst st, tlists := (tlists s)(L := snd st)\<rparr>"

section \<open>Prioritized lists\<close>

text \<open>
  \<open>for (next = list->head; next && sched_priority <= next->sched_priority; next = next->flink);\<close>
\<close>

partial_function (option) addprio_search ::
    "sched \<Rightarrow> nat \<Rightarrow> nat option \<Rightarrow> nat option option" where
  "addprio_search s pri next =
     (case next of
        None \<Rightarrow> Some next
      | Some n \<Rightarrow> if pri \<le> sched_priority s n then addprio_search s pri (flink (tlinks s) n)
                  else Some next)"

definition nxsched_add_prioritized :: "nat \<Rightarrow> tasklist \<Rightarrow> sched \<Rightarrow> (bool \<times> sched) option" where
  "nxsched_add_prioritized tcb L s =
     do {
       next \<leftarrow> addprio_search s (sched_priority s tcb) (dq_head (tlists s L));
       let l = tlinks s;
       let q = tlists s L;
       case next of
         None \<Rightarrow>
           (case dq_tail q of
              None \<Rightarrow> Some (True, put_list L (set_blink tcb None (set_flink tcb None l),
                                    q\<lparr>dq_head := Some tcb, dq_tail := Some tcb\<rparr>) s)
            | Some prev \<Rightarrow>
                Some (False, put_list L (set_flink prev (Some tcb)
                                (set_blink tcb (Some prev) (set_flink tcb None l)),
                                q\<lparr>dq_tail := Some tcb\<rparr>) s))
       | Some n \<Rightarrow>
           (case blink l n of
              None \<Rightarrow> Some (True, put_list L (set_blink n (Some tcb)
                                (set_blink tcb None (set_flink tcb (Some n) l)),
                                q\<lparr>dq_head := Some tcb\<rparr>) s)
            | Some prev \<Rightarrow>
                Some (False, put_list L (set_blink n (Some tcb) (set_flink prev (Some tcb)
                                (set_blink tcb (Some prev) (set_flink tcb (Some n) l))), q) s))
     }"

definition nxsched_add_readytorun :: "nat \<Rightarrow> sched \<Rightarrow> (bool \<times> sched) option" where
  "nxsched_add_readytorun btcb s =
     do {
       rtcb \<leftarrow> this_task s;
       if lockcount s rtcb > 0 \<and> sched_priority s rtcb < sched_priority s btcb
       then do { (_, s1) \<leftarrow> nxsched_add_prioritized btcb G_pendingtasks s;
                 Some (False, set_state btcb TSTATE_TASK_PENDING s1) }
       else do {
         (head, s1) \<leftarrow> nxsched_add_prioritized btcb G_readytorun s;
         if head
         then do { let s2 = set_state btcb TSTATE_TASK_RUNNING s1;
                   next \<leftarrow> flink (tlinks s2) btcb;
                   Some (True, set_state next TSTATE_TASK_READYTORUN s2) }
         else Some (False, set_state btcb TSTATE_TASK_READYTORUN s1)
       }
     }"

definition nxsched_remove_readytorun :: "nat \<Rightarrow> sched \<Rightarrow> (bool \<times> sched) option" where
  "nxsched_remove_readytorun rtcb s =
     do {
       (doswitch, s1) \<leftarrow>
         (case blink (tlinks s) rtcb of
            None \<Rightarrow> do { nxttcb \<leftarrow> flink (tlinks s) rtcb;
                         Some (True, set_state nxttcb TSTATE_TASK_RUNNING s) }
          | Some _ \<Rightarrow> Some (False, s));
       let s2 = put_list G_readytorun (dq_rem rtcb (get_list G_readytorun s1)) s1;
       Some (doswitch, set_state rtcb TSTATE_TASK_INVALID s2)
     }"

definition nxsched_add_blocked :: "nat \<Rightarrow> tstate \<Rightarrow> sched \<Rightarrow> sched option" where
  "nxsched_add_blocked btcb st s =
     do {
       L \<leftarrow> TLIST_HEAD st;
       s1 \<leftarrow> (if TLIST_ISPRIORITIZED st
              then map_option snd (nxsched_add_prioritized btcb L s)
              else do { d \<leftarrow> dq_addlast btcb (get_list L s); Some (put_list L d s) });
       Some (set_state btcb st s1)
     }"

definition nxsched_remove_blocked :: "nat \<Rightarrow> sched \<Rightarrow> sched option" where
  "nxsched_remove_blocked btcb s =
     do {
       L \<leftarrow> TLIST_HEAD (task_state s btcb);
       Some (set_state btcb TSTATE_TASK_INVALID (put_list L (dq_rem btcb (get_list L s)) s))
     }"

section \<open>Merging\<close>

text \<open>One pending task linked in front of \<open>rtcb\<close> in the ready-to-run list.\<close>

definition merge_insert :: "nat \<Rightarrow> nat \<Rightarrow> bool \<Rightarrow> sched \<Rightarrow> bool \<times> sched" where
  "merge_insert ptcb rtcb ret s =
     (let l = tlinks s; q = tlists s G_readytorun
      in case blink l rtcb of
           None \<Rightarrow>
             (True, set_state ptcb TSTATE_TASK_RUNNING (set_state rtcb TSTATE_TASK_READYTORUN
               (put_list G_readytorun
                 (set_blink rtcb (Some ptcb) (set_blink ptcb None (set_flink ptcb (Some rtcb) l)),
                  q\<lparr>dq_head := Some ptcb\<rparr>) s)))
         | Some rprev \<Rightarrow>
             (ret, set_state ptcb TSTATE_TASK_READYTORUN
               (put_list G_readytorun
                 (set_blink rtcb (Some ptcb) (set_flink rprev (Some ptcb)
                   (set_blink ptcb (Some rprev) (set_flink ptcb (Some rtcb) l))), q) s)))"

partial_function (option) merge_pending_loop ::
    "nat option \<Rightarrow> nat option \<Rightarrow> bool \<Rightarrow> sched \<Rightarrow> (bool \<times> sched) option" where
  "merge_pending_loop ptcb rtcb ret s =
     (case ptcb of
        None \<Rightarrow> Some (ret, s)
      | Some p \<Rightarrow>
          do { let pnext = flink (tlinks s) p;
               found \<leftarrow> addprio_search s (sched_priority s p) rtcb;
               r \<leftarrow> found;
               let res = merge_insert p r ret s;
               merge_pending_loop pnext (Some p) (fst res) (snd res) })"

definition nxsched_merge_pending :: "sched \<Rightarrow> (bool \<times> sched) option" where
  "nxsched_merge_pending s =
     do {
       (ret, s1) \<leftarrow> merge_pending_loop (dq_head (tlists s G_pendingtasks)) (this_task s) False s;
       Some (ret, s1\<lparr>tlists := (tlists s1)(G_pendingtasks :=
                    (tlists s1 G_pendingtasks)\<lparr>dq_head := None, dq_tail := None\<rparr>)\<rparr>)
     }"

text \<open>\<open>nxsched_merge_prioritized\<close>: the states of list 1, then the merge.\<close>

partial_function (option) merge_setstate :: "nat option \<Rightarrow> tstate \<Rightarrow> sched \<Rightarrow> sched option" where
  "merge_setstate tmp st s =
     (case tmp of
        None \<Rightarrow> Some s
      | Some t \<Rightarrow> (let s1 = set_state t st s in merge_setstate (dq_next t (tlinks s1)) st s1))"

partial_function (option) merge_loop ::
    "nat dq_queue \<Rightarrow> tasklist \<Rightarrow> nat option \<Rightarrow> nat option \<Rightarrow> sched \<Rightarrow> sched option" where
  "merge_loop clone list2 tcb1 tcb2 s =
     (case tcb1 of
        None \<Rightarrow> Some s
      | Some t1 \<Rightarrow>
          (case tcb2 of
             None \<Rightarrow> do { (l, _, q2) \<leftarrow> dq_cat (tlinks s) clone (tlists s list2);
                          Some (put_list list2 (l, q2) s) }
           | Some t2 \<Rightarrow>
               if sched_priority s t1 > sched_priority s t2
               then (let r = dq_remfirst (tlinks s, clone)
                     in do { t \<leftarrow> fst r;
                             st \<leftarrow> dq_addbefore t2 t (fst (snd r), tlists s list2);
                             merge_loop (snd (snd r)) list2 (dq_peek (snd (snd r))) tcb2
                               (put_list list2 st s) })
               else merge_loop clone list2 tcb1 (dq_next t2 (tlinks s)) s))"

definition nxsched_merge_prioritized ::
    "tasklist \<Rightarrow> tasklist \<Rightarrow> tstate \<Rightarrow> sched \<Rightarrow> sched option" where
  "nxsched_merge_prioritized list1 list2 st s =
     (let (q1, clone) = dq_move (tlists s list1) dq_init;
          s0 = s\<lparr>tlists := (tlists s)(list1 := q1)\<rparr>
      in if dq_peek clone = None then Some s0
         else do {
           s1 \<leftarrow> merge_setstate (dq_peek clone) st s0;
           if dq_peek (tlists s1 list2) = None
           then (let (_, q2) = dq_move clone (tlists s1 list2)
                 in Some (s1\<lparr>tlists := (tlists s1)(list2 := q2)\<rparr>))
           else merge_loop clone list2 (dq_peek clone) (dq_peek (tlists s1 list2)) s1
         })"

section \<open>Switching (\<open>arch/arm/src/armv7-m\<close>)\<close>

definition nxsched_resume_scheduler :: "nat \<Rightarrow> sched \<Rightarrow> sched" where
  "nxsched_resume_scheduler tcb s = set_timeslice tcb RR_TICKS s"

text \<open>The common tail: the new head of the ready-to-run list is resumed.\<close>

definition switch_to_head :: "sched \<Rightarrow> sched option" where
  "switch_to_head s = do { nexttcb \<leftarrow> this_task s; Some (nxsched_resume_scheduler nexttcb s) }"

definition up_block_task :: "nat \<Rightarrow> tstate \<Rightarrow> sched \<Rightarrow> sched option" where
  "up_block_task tcb st s =
     do {
       (switch1, s1) \<leftarrow> nxsched_remove_readytorun tcb s;
       s2 \<leftarrow> nxsched_add_blocked tcb st s1;
       (switch2, s3) \<leftarrow> (if dq_head (tlists s2 G_pendingtasks) \<noteq> None
                         then nxsched_merge_pending s2 else Some (False, s2));
       if switch1 \<or> switch2 then switch_to_head s3 else Some s3
     }"

definition up_unblock_task :: "nat \<Rightarrow> sched \<Rightarrow> sched option" where
  "up_unblock_task tcb s =
     do {
       s1 \<leftarrow> nxsched_remove_blocked tcb s;
       (switch, s2) \<leftarrow> nxsched_add_readytorun tcb s1;
       if switch then switch_to_head s2 else Some s2
     }"

definition up_reprioritize_rtr :: "nat \<Rightarrow> nat \<Rightarrow> sched \<Rightarrow> sched option" where
  "up_reprioritize_rtr tcb priority s =
     (if \<not> (task_state s tcb = TSTATE_TASK_READYTORUN \<or> task_state s tcb = TSTATE_TASK_RUNNING) \<or>
         int priority < SCHED_PRIORITY_MIN
      then Some s
      else do {
        (switch1, s1) \<leftarrow> nxsched_remove_readytorun tcb s;
        let s2 = set_prio tcb priority s1;
        (switch2, s3) \<leftarrow> nxsched_add_readytorun tcb s2;
        if switch1 \<noteq> switch2
        then do {
          s4 \<leftarrow> (if dq_head (tlists s3 G_pendingtasks) \<noteq> None
                 then map_option snd (nxsched_merge_pending s3) else Some s3);
          switch_to_head s4
        }
        else Some s3
      })"

definition up_release_pending :: "sched \<Rightarrow> sched option" where
  "up_release_pending s =
     do { (switch, s1) \<leftarrow> nxsched_merge_pending s;
          if switch then switch_to_head s1 else Some s1 }"

section \<open>Preemption lock\<close>

definition sched_lock :: "bool \<Rightarrow> sched \<Rightarrow> sched" where
  "sched_lock interrupt s =
     (case this_task s of
        None \<Rightarrow> s
      | Some rtcb \<Rightarrow> if interrupt then s else set_lockcount rtcb (int16 (lockcount s rtcb + 1)) s)"

text \<open>
  \<open>sched_unlock\<close> up to and including \<open>up_release_pending\<close>, which may switch to another task;
  \<open>sched_unlock_tail\<close> is the rest, executed when the caller \<open>rtcb\<close> runs again.
\<close>

definition sched_unlock :: "bool \<Rightarrow> sched \<Rightarrow> sched option" where
  "sched_unlock interrupt s =
     (case this_task s of
        None \<Rightarrow> Some s
      | Some rtcb \<Rightarrow>
          if interrupt then Some s
          else (let s1 = (if lockcount s rtcb > 0
                          then set_lockcount rtcb (lockcount s rtcb - 1) s else s)
                in if lockcount s1 rtcb \<le> 0
                   then (let s2 = set_lockcount rtcb 0 s1
                         in if dq_head (tlists s2 G_pendingtasks) \<noteq> None
                            then up_release_pending s2 else Some s2)
                   else Some s1))"

definition sched_unlock_tail :: "nat \<Rightarrow> sched \<Rightarrow> sched" where
  "sched_unlock_tail rtcb s =
     (if lockcount s rtcb \<le> 0 \<and> sched_rr s rtcb \<and> timeslice s rtcb = 0 \<and> this_task s \<noteq> Some rtcb
      then set_timeslice rtcb RR_TICKS s else s)"

section \<open>Priorities and time slices\<close>

definition nxsched_running_setpriority :: "nat \<Rightarrow> nat \<Rightarrow> sched \<Rightarrow> sched option" where
  "nxsched_running_setpriority tcb priority s =
     do {
       nxttcb \<leftarrow> flink (tlinks s) tcb;
       if priority \<le> sched_priority s nxttcb then up_reprioritize_rtr tcb priority s
       else Some (set_prio tcb priority s)
     }"

definition nxsched_readytorun_setpriority :: "nat \<Rightarrow> nat \<Rightarrow> sched \<Rightarrow> sched option" where
  "nxsched_readytorun_setpriority tcb priority s =
     do {
       rtcb \<leftarrow> this_task s;
       if priority > sched_priority s rtcb then up_reprioritize_rtr tcb priority s
       else do {
         (_, s1) \<leftarrow> nxsched_remove_readytorun tcb s;
         (_, s2) \<leftarrow> nxsched_add_readytorun tcb (set_prio tcb priority s1);
         Some s2
       }
     }"

definition nxsched_blocked_setpriority :: "nat \<Rightarrow> nat \<Rightarrow> sched \<Rightarrow> sched option" where
  "nxsched_blocked_setpriority tcb priority s =
     (let st = task_state s tcb
      in if TLIST_ISPRIORITIZED st
         then do {
           L \<leftarrow> TLIST_HEAD st;
           let s1 = put_list L (dq_rem tcb (get_list L s)) s;
           (_, s2) \<leftarrow> nxsched_add_prioritized tcb L (set_prio tcb priority s1);
           Some s2
         }
         else Some (set_prio tcb priority s))"

definition nxsched_set_priority :: "nat \<Rightarrow> int \<Rightarrow> sched \<Rightarrow> (int \<times> sched) option" where
  "nxsched_set_priority tcb priority s =
     (if priority < SCHED_PRIORITY_MIN \<or> priority > SCHED_PRIORITY_MAX then Some (- EINVAL, s)
      else do {
        s1 \<leftarrow> (case task_state s tcb of
                 TSTATE_TASK_RUNNING \<Rightarrow> nxsched_running_setpriority tcb (nat priority) s
               | TSTATE_TASK_READYTORUN \<Rightarrow> nxsched_readytorun_setpriority tcb (nat priority) s
               | _ \<Rightarrow> nxsched_blocked_setpriority tcb (nat priority) s);
        Some (0, s1)
      })"

definition sched_yield :: "sched \<Rightarrow> (int \<times> sched) option" where
  "sched_yield s =
     do {
       rtcb \<leftarrow> this_task s;
       (ret, s1) \<leftarrow> nxsched_set_priority rtcb (int (sched_priority s rtcb)) s;
       Some (if ret < 0 then - 1 else 0, s1)
     }"

text \<open>
  \<open>MIN(tcb->timeslice, ticks)\<close> compares as unsigned numbers; \<open>timeslice\<close> is a signed 32-bit field,
  the result an unsigned one.
\<close>

definition nxsched_process_roundrobin ::
    "nat \<Rightarrow> int \<Rightarrow> bool \<Rightarrow> sched \<Rightarrow> (int \<times> sched) option" where
  "nxsched_process_roundrobin tcb ticks noswitches s =
     (let decr = (if uint32 (timeslice s tcb) < ticks then timeslice s tcb else int32 ticks);
          s1 = set_timeslice tcb (int32 (timeslice s tcb - decr)) s
      in if timeslice s1 tcb \<le> 0 \<and> \<not> lockcount s1 tcb > 0
         then if noswitches then Some (1, s1)
              else (let s2 = set_timeslice tcb RR_TICKS s1
                    in case flink (tlinks s2) tcb of
                         None \<Rightarrow> Some (RR_TICKS, s2)
                       | Some n \<Rightarrow>
                           if sched_priority s2 n \<ge> sched_priority s2 tcb
                           then do { s3 \<leftarrow> up_reprioritize_rtr tcb (sched_priority s2 tcb) s2;
                                     Some (RR_TICKS, s3) }
                           else Some (RR_TICKS, s2))
         else Some (uint32 (timeslice s1 tcb), s1))"

text \<open>The scheduler's part of the timer interrupt.\<close>

definition nxsched_process_scheduler :: "sched \<Rightarrow> sched option" where
  "nxsched_process_scheduler s =
     do {
       rtcb \<leftarrow> this_task s;
       if sched_rr s rtcb then map_option snd (nxsched_process_roundrobin rtcb 1 False s) else Some s
     }"

end
