(* ===== verification/Sched_Inv.thy ===== *)
theory Sched_Inv
  imports Sched
begin

text \<open>
  The task lists as HOL lists: what each list operation does to them.
\<close>

section \<open>Lists of tasks\<close>

definition sched_lists :: "sched \<Rightarrow> (tasklist \<Rightarrow> nat list) \<Rightarrow> bool" where
  "sched_lists s q \<longleftrightarrow>
     (\<forall>L. dq_list (tlinks s, tlists s L) (q L)) \<and>
     (\<forall>L M. L \<noteq> M \<longrightarrow> set (q L) \<inter> set (q M) = {})"

text \<open>A task that is in no list.\<close>

definition unlisted :: "nat \<Rightarrow> (tasklist \<Rightarrow> nat list) \<Rightarrow> bool" where
  "unlisted t q \<longleftrightarrow> (\<forall>L. t \<notin> set (q L))"

lemma sched_listsD:
  assumes "sched_lists s q"
  shows "dq_list (tlinks s, tlists s L) (q L)" "dq_head (tlists s L) = hd_opt (q L)"
    "dq_tail (tlists s L) = last_opt (q L)" "distinct (q L)"
    "L \<noteq> M \<Longrightarrow> set (q L) \<inter> set (q M) = {}"
  using assms dq_list_ends dq_list_distinct unfolding sched_lists_def by blast+

lemma sched_lists_cong:
  assumes "sched_lists s q" "tlinks s' = tlinks s" "tlists s' = tlists s"
  shows "sched_lists s' q"
  using assms by (simp add: sched_lists_def)

lemma sched_lists_put:
  assumes "sched_lists s q" "dq_list st xs" "links_frame A (tlinks s) (fst st)"
    and "\<And>M. M \<noteq> L \<Longrightarrow> A \<inter> set (q M) = {}" "\<And>M. M \<noteq> L \<Longrightarrow> set xs \<inter> set (q M) = {}"
  shows "sched_lists (put_list L st s) (q(L := xs))"
proof -
  have "dq_list (tlinks (put_list L st s), tlists (put_list L st s) M) ((q(L := xs)) M)" for M
  proof (cases "M = L")
    case True
    then show ?thesis using assms(2) by (simp add: put_list_def)
  next
    case False
    have "dq_list (fst st, tlists s M) (q M)"
      by (rule dq_list_frame [OF sched_listsD(1) [OF assms(1)] assms(3)]) (use assms(4) [OF False] in auto)
    then show ?thesis using False by (simp add: put_list_def)
  qed
  moreover have "set ((q(L := xs)) M) \<inter> set ((q(L := xs)) N) = {}" if "M \<noteq> N" for M N
    using that assms(5) [of M] assms(5) [of N] sched_listsD(5) [OF assms(1), of M N] by auto
  ultimately show ?thesis by (simp add: sched_lists_def)
qed

text \<open>Only links and lists differ.\<close>

definition lists_only :: "sched \<Rightarrow> sched \<Rightarrow> bool" where
  "lists_only s s' \<longleftrightarrow>
     sched_priority s' = sched_priority s \<and> task_state s' = task_state s \<and>
     lockcount s' = lockcount s \<and> timeslice s' = timeslice s \<and> sched_rr s' = sched_rr s"

lemma lists_only_put [simp]: "lists_only s (put_list L st s)"
  by (simp add: lists_only_def put_list_def)

lemma addprio_search_path:
  assumes "path (flink (tlinks s)) next xs None"
  shows "addprio_search s pri next = Some (hd_opt (dropWhile (\<lambda>x. pri \<le> sched_priority s x) xs))"
  using assms
proof (induction xs arbitrary: "next")
  case Nil
  then show ?case by (simp add: addprio_search.simps)
next
  case (Cons n xs)
  then have "next = Some n" "path (flink (tlinks s)) (flink (tlinks s) n) xs None" by auto
  then show ?case using Cons.IH [of "flink (tlinks s) n"] by (subst addprio_search.simps) simp
qed

section \<open>Insertion by priority\<close>

definition insert_prio :: "(nat \<Rightarrow> nat) \<Rightarrow> nat \<Rightarrow> nat list \<Rightarrow> nat list" where
  "insert_prio pr t xs = takeWhile (\<lambda>x. pr t \<le> pr x) xs @ t # dropWhile (\<lambda>x. pr t \<le> pr x) xs"

definition desc :: "(nat \<Rightarrow> nat) \<Rightarrow> nat list \<Rightarrow> bool" where
  "desc pr xs \<longleftrightarrow> sorted_wrt (\<lambda>x y. pr y \<le> pr x) xs"

lemma desc_simps [simp]:
  "desc pr []" "desc pr (x # xs) \<longleftrightarrow> (\<forall>y \<in> set xs. pr y \<le> pr x) \<and> desc pr xs"
  by (auto simp: desc_def)

lemma desc_append:
  "desc pr (xs @ ys) \<longleftrightarrow> desc pr xs \<and> desc pr ys \<and> (\<forall>x \<in> set xs. \<forall>y \<in> set ys. pr y \<le> pr x)"
  by (auto simp: desc_def sorted_wrt_append)

lemma set_insert_prio [simp]: "set (insert_prio pr t xs) = insert t (set xs)"
  unfolding insert_prio_def by (metis (no_types, lifting) insert_is_Un Un_assoc Un_commute list.simps(15) set_append takeWhile_dropWhile_id)

lemma insert_prio_Nil [simp]: "insert_prio pr t [] = [t]"
  by (simp add: insert_prio_def)

lemma insert_prio_Cons:
  "insert_prio pr t (x # xs) = (if pr t \<le> pr x then x # insert_prio pr t xs else t # x # xs)"
  by (simp add: insert_prio_def)

lemma desc_insert_prio: "desc pr xs \<Longrightarrow> desc pr (insert_prio pr t xs)"
  by (induction xs) (auto simp: insert_prio_Cons)

text \<open>The four ways to link a node in, as the code writes them out.\<close>

lemma dq_link_at:
  assumes d: "dq_list (l, q) (us @ ws)" and n: "n \<notin> set (us @ ws)"
  shows "us = [] \<Longrightarrow> ws = [] \<Longrightarrow>
      dq_list (set_blink n None (set_flink n None l), q\<lparr>dq_head := Some n, dq_tail := Some n\<rparr>) [n]"
    and "us = us' @ [p] \<Longrightarrow> ws = [] \<Longrightarrow>
      dq_list (set_flink p (Some n) (set_blink n (Some p) (set_flink n None l)), q\<lparr>dq_tail := Some n\<rparr>) (us @ [n])"
    and "us = [] \<Longrightarrow> ws = x # ws' \<Longrightarrow>
      dq_list (set_blink x (Some n) (set_blink n None (set_flink n (Some x) l)), q\<lparr>dq_head := Some n\<rparr>) (n # ws)"
    and "us = us' @ [p] \<Longrightarrow> ws = x # ws' \<Longrightarrow>
      dq_list (set_blink x (Some n) (set_flink p (Some n) (set_blink n (Some p) (set_flink n (Some x) l))), q)
        (us @ n # ws)"
proof -
  have ds: "distinct (us @ ws)" using dq_list_distinct [OF d] .
  show "us = [] \<Longrightarrow> ws = [] \<Longrightarrow>
      dq_list (set_blink n None (set_flink n None l), q\<lparr>dq_head := Some n, dq_tail := Some n\<rparr>) [n]"
    by (simp add: dq_list_def set_flink_def set_blink_def)
  show "us = us' @ [p] \<Longrightarrow> ws = [] \<Longrightarrow>
      dq_list (set_flink p (Some n) (set_blink n (Some p) (set_flink n None l)), q\<lparr>dq_tail := Some n\<rparr>) (us @ [n])"
    using d n ds by (auto simp: dq_list_def set_flink_def set_blink_def)
  show "us = [] \<Longrightarrow> ws = x # ws' \<Longrightarrow>
      dq_list (set_blink x (Some n) (set_blink n None (set_flink n (Some x) l)), q\<lparr>dq_head := Some n\<rparr>) (n # ws)"
    using d n ds by (auto simp: dq_list_def set_flink_def set_blink_def)
  show "us = us' @ [p] \<Longrightarrow> ws = x # ws' \<Longrightarrow>
      dq_list (set_blink x (Some n) (set_flink p (Some n) (set_blink n (Some p) (set_flink n (Some x) l))), q)
        (us @ n # ws)"
    using dq_insert_between [of l q us' p x ws' n] d n by (simp add: set_links_commute)
qed

lemma links_frame_set [simp]:
  "p \<in> A \<Longrightarrow> links_frame A l (set_flink p v l') \<longleftrightarrow> links_frame A l l'"
  "p \<in> A \<Longrightarrow> links_frame A l (set_blink p v l') \<longleftrightarrow> links_frame A l l'"
  by (auto simp: links_frame_def set_flink_def set_blink_def)

lemma nxsched_add_prioritized_spec:
  fixes L :: tasklist
  assumes inv: "sched_lists s q" and t: "unlisted t q"
  defines "ys \<equiv> insert_prio (sched_priority s) t (q L)"
  shows "\<exists>s'. nxsched_add_prioritized t L s = Some (hd ys = t, s') \<and> sched_lists s' (q(L := ys)) \<and>
           lists_only s s'"
proof -
  let ?P = "\<lambda>x. sched_priority s t \<le> sched_priority s x"
  define us where "us = takeWhile ?P (q L)"
  define ws where "ws = dropWhile ?P (q L)"
  have qL: "q L = us @ ws" by (simp add: us_def ws_def)
  have ys: "ys = us @ t # ws" by (simp add: ys_def insert_prio_def us_def ws_def)
  note D = sched_listsD [OF inv, of L]
  have d: "dq_list (tlinks s, tlists s L) (us @ ws)" using D(1) qL by simp
  have n: "t \<notin> set (us @ ws)" using t qL by (metis unlisted_def)
  have ends: "dq_tail (tlists s L) = last_opt (us @ ws)" using D(3) qL by simp
  have "path (flink (tlinks s)) (dq_head (tlists s L)) (q L) None" using D(1) by (simp add: dq_list_def)
  from addprio_search_path [OF this] have
    search: "addprio_search s (sched_priority s t) (dq_head (tlists s L)) = Some (hd_opt ws)"
    by (simp add: ws_def)
  have put: "sched_lists (put_list L st s) (q(L := ys))"
    if "dq_list st ys" "links_frame (insert t (set (us @ ws))) (tlinks s) (fst st)" for st
  proof (rule sched_lists_put [OF inv that])
    fix M assume "M \<noteq> L"
    then have "set (q L) \<inter> set (q M) = {}" "t \<notin> set (q M)"
      using sched_listsD(5) [OF inv, of L M] t by (auto simp: unlisted_def)
    then show "insert t (set (us @ ws)) \<inter> set (q M) = {}" "set ys \<inter> set (q M) = {}"
      using qL ys by auto
  qed
  have fin: ?thesis if "nxsched_add_prioritized t L s = Some (b, put_list L st s)" "b \<longleftrightarrow> us = []"
    "dq_list st ys" "links_frame (insert t (set (us @ ws))) (tlinks s) (fst st)" for b st
  proof -
    have "hd ys = t \<longleftrightarrow> us = []" using ys n by (cases us) auto
    then show ?thesis using that put by auto
  qed
  note add = nxsched_add_prioritized_def search ends Let_def
  show ?thesis
  proof (cases us rule: rev_cases)
    case Nil
    show ?thesis
    proof (cases ws)
      case w: Nil
      have e: "[t] = ys" using ys Nil w by simp
      show ?thesis
        by (rule fin [of True, OF _ _ dq_link_at(1) [OF d n Nil w, unfolded e]])
          (use Nil w in \<open>simp_all add: add\<close>)
    next
      case w: (Cons x ws')
      have "blink (tlinks s) x = None" using dq_list_links(2) [of "tlinks s" _ "[]" x ws'] d Nil w by auto
      moreover have e: "t # ws = ys" using ys Nil by simp
      ultimately show ?thesis
        by (intro fin [of True, OF _ _ dq_link_at(3) [OF d n Nil w, unfolded e]])
          (use Nil w in \<open>simp_all add: add\<close>)
    qed
  next
    case (snoc us' p)
    show ?thesis
    proof (cases ws)
      case w: Nil
      have e: "us @ [t] = ys" using ys w by simp
      show ?thesis
        by (rule fin [of False, OF _ _ dq_link_at(2) [OF d n snoc w, unfolded e]])
          (use snoc w in \<open>simp_all add: add\<close>)
    next
      case w: (Cons x ws')
      have "blink (tlinks s) x = Some p" using dq_list_links(2) [of "tlinks s" _ us x ws'] d snoc w by auto
      then show ?thesis
        by (intro fin [of False, OF _ _ dq_link_at(4) [OF d n snoc w, folded ys]])
          (use snoc w in \<open>simp_all add: add\<close>)
    qed
  qed
qed

section \<open>Removal\<close>

lemma sched_lists_rem:
  assumes inv: "sched_lists s q" and qL: "q L = xs @ t # ys"
  shows "sched_lists (put_list L (dq_rem t (get_list L s)) s) (q(L := xs @ ys))"
    and "unlisted t (q(L := xs @ ys))"
proof -
  note D = sched_listsD [OF inv]
  have d: "dq_list (get_list L s) (xs @ t # ys)" using D(1) [of L] qL by (simp add: get_list_def)
  show "sched_lists (put_list L (dq_rem t (get_list L s)) s) (q(L := xs @ ys))"
  proof (rule sched_lists_put [OF inv dq_rem_list [OF d]])
    show "links_frame (set (xs @ t # ys)) (tlinks s) (fst (dq_rem t (get_list L s)))"
      using dq_rem_frame [OF d] by (simp add: get_list_def)
    fix M assume "M \<noteq> L"
    then have "set (q L) \<inter> set (q M) = {}" by (intro D(5)) simp
    then show "set (xs @ t # ys) \<inter> set (q M) = {}" "set (xs @ ys) \<inter> set (q M) = {}" using qL by auto
  qed
  have "distinct (xs @ t # ys)" using D(4) [of L] qL by simp
  moreover have "t \<notin> set (q M)" if "M \<noteq> L" for M
  proof -
    have "set (q L) \<inter> set (q M) = {}" using that by (intro D(5)) simp
    then show ?thesis using qL by auto
  qed
  ultimately show "unlisted t (q(L := xs @ ys))" by (simp add: unlisted_def)
qed

lemma sched_lists_addlast:
  assumes inv: "sched_lists s q" and t: "unlisted t q"
  shows "\<exists>d. dq_addlast t (get_list L s) = Some d \<and> sched_lists (put_list L d s) (q(L := q L @ [t]))"
proof -
  note D = sched_listsD [OF inv]
  have d: "dq_list (get_list L s) (q L)" using D(1) by (simp add: get_list_def)
  moreover have "t \<notin> set (q L)" using t by (simp add: unlisted_def)
  ultimately obtain st where st: "dq_addlast t (get_list L s) = Some st" "dq_list st (q L @ [t])"
    using dq_addlast_list [of "get_list L s" "q L" t] by blast
  have "sched_lists (put_list L st s) (q(L := q L @ [t]))"
  proof (rule sched_lists_put [OF inv st(2)])
    show "links_frame (insert t (set (q L))) (tlinks s) (fst st)"
      using dq_addlast_frame [OF d st(1)] by (simp add: get_list_def)
    fix M assume "M \<noteq> L"
    then have "set (q L) \<inter> set (q M) = {}" "t \<notin> set (q M)"
      using D(5) [of L M] t by (auto simp: unlisted_def)
    then show "insert t (set (q L)) \<inter> set (q M) = {}" "set (q L @ [t]) \<inter> set (q M) = {}" by auto
  qed
  then show ?thesis using st(1) by blast
qed

section \<open>Merging pending tasks\<close>

lemma insert_prio_append:
  "\<forall>x \<in> set xs. pr t \<le> pr x \<Longrightarrow> insert_prio pr t (xs @ ys) = xs @ insert_prio pr t ys"
  by (induction xs) (auto simp: insert_prio_Cons)

text \<open>One pending task inserted where the search stopped.\<close>

lemma merge_insert_spec:
  assumes d: "dq_list (tlinks s, tlists s G_readytorun) (as @ r # bs)" and p: "p \<notin> set (as @ r # bs)"
  shows "\<exists>l q. merge_insert p r ret s =
      (ret \<or> as = [], s\<lparr>tlinks := l, tlists := (tlists s)(G_readytorun := q),
         task_state := (if as = [] then (task_state s)(r := TSTATE_TASK_READYTORUN, p := TSTATE_TASK_RUNNING)
                        else (task_state s)(p := TSTATE_TASK_READYTORUN))\<rparr>) \<and>
    dq_list (l, q) (as @ p # r # bs) \<and> links_frame (insert p (set (as @ r # bs))) (tlinks s) l"
proof (cases as rule: rev_cases)
  case Nil
  have "blink (tlinks s) r = None" using dq_list_links(2) [OF d] Nil by simp
  then show ?thesis using dq_link_at(3) [OF d p Nil] Nil
    by (intro exI [of _ "set_blink r (Some p) (set_blink p None (set_flink p (Some r) (tlinks s)))"]
        exI [of _ "(tlists s G_readytorun)\<lparr>dq_head := Some p\<rparr>"])
      (simp add: merge_insert_def Let_def set_state_def put_list_def)
next
  case (snoc as' x)
  have "blink (tlinks s) r = Some x" using dq_list_links(2) [OF d] snoc by simp
  then show ?thesis using dq_link_at(4) [OF d p snoc] snoc
    by (intro exI [of _ "set_blink r (Some p) (set_flink x (Some p) (set_blink p (Some x) (set_flink p (Some r) (tlinks s))))"]
        exI [of _ "tlists s G_readytorun"])
      (simp add: merge_insert_def Let_def set_state_def put_list_def)
qed

definition merge_prio :: "(nat \<Rightarrow> nat) \<Rightarrow> nat list \<Rightarrow> nat list \<Rightarrow> nat list" where
  "merge_prio pr ps rs = foldl (\<lambda>r p. insert_prio pr p r) rs ps"

lemma set_merge_prio [simp]: "set (merge_prio pr ps rs) = set ps \<union> set rs"
  by (induction ps arbitrary: rs) (auto simp: merge_prio_def)

lemma desc_merge_prio: "desc pr rs \<Longrightarrow> desc pr (merge_prio pr ps rs)"
  by (induction ps arbitrary: rs) (auto simp: merge_prio_def desc_insert_prio)

lemma hd_insert_prio: "rs \<noteq> [] \<Longrightarrow> hd (insert_prio pr p rs) = (if pr p \<le> pr (hd rs) then hd rs else p)"
  by (cases rs) (auto simp: insert_prio_Cons)

lemma hd_merge_prio_stable:
  "rs \<noteq> [] \<Longrightarrow> \<forall>p \<in> set ps. pr p \<le> pr (hd rs) \<Longrightarrow> hd (merge_prio pr ps rs) = hd rs"
proof (induction ps arbitrary: rs)
  case (Cons p ps)
  have "insert_prio pr p rs \<noteq> []" by (simp add: insert_prio_def)
  moreover have "hd (insert_prio pr p rs) = hd rs" using Cons.prems by (simp add: hd_insert_prio)
  ultimately show ?case using Cons by (simp add: merge_prio_def)
qed (simp add: merge_prio_def)

text \<open>
  The states after the merge: \<open>h\<close> was the running task and \<open>h'\<close> is it now; \<open>ps\<close> were pending.
\<close>

definition merged_states :: "nat list \<Rightarrow> nat \<Rightarrow> nat \<Rightarrow> (nat \<Rightarrow> tstate) \<Rightarrow> nat \<Rightarrow> tstate" where
  "merged_states ps h h' ts x =
     (if x \<in> set ps then (if x = h' then TSTATE_TASK_RUNNING else TSTATE_TASK_READYTORUN)
      else if x = h \<and> h' \<noteq> x then TSTATE_TASK_READYTORUN else ts x)"

lemma merged_states_Nil [simp]: "merged_states [] h h ts = ts"
  by (auto simp: merged_states_def)

lemma merged_states_step:
  assumes "p \<notin> set (cs @ r # ws)" "p \<notin> set ps" "set ps \<inter> set (cs @ r # ws) = {}"
  shows "merged_states ps (hd (cs @ p # r # ws)) (hd (cs @ p # r # ws))
      (if cs = [] then ts(r := TSTATE_TASK_READYTORUN, p := TSTATE_TASK_RUNNING)
       else ts(p := TSTATE_TASK_READYTORUN)) =
    merged_states (p # ps) (hd (cs @ r # ws)) (hd (cs @ p # r # ws)) ts"
proof (cases cs)
  case Nil
  then show ?thesis using assms by (auto simp: merged_states_def fun_eq_iff)
next
  case (Cons c cs')
  then show ?thesis using assms by (auto simp: merged_states_def fun_eq_iff)
qed

text \<open>Where the search for the place of \<open>p\<close> stops, when some task further down is below it.\<close>

lemma insert_prio_split:
  assumes "i \<in> set bs" "pr i < pr p" "\<forall>a \<in> set as. pr p \<le> pr a"
  obtains us r ws where "bs = us @ r # ws" "dropWhile (\<lambda>x. pr p \<le> pr x) bs = r # ws"
    "insert_prio pr p (as @ bs) = as @ us @ p # r # ws" "\<forall>x \<in> set us. pr p \<le> pr x" "i \<notin> set us"
proof -
  let ?P = "\<lambda>x. pr p \<le> pr x"
  obtain r ws where ws: "dropWhile ?P bs = r # ws"
    using assms(1,2) by (cases "dropWhile ?P bs") (auto simp: dropWhile_eq_Nil_conv)
  have us: "\<forall>x \<in> set (takeWhile ?P bs). ?P x" by (auto dest: set_takeWhileD)
  moreover have "bs = takeWhile ?P bs @ r # ws" using ws by (metis takeWhile_dropWhile_id)
  moreover have "insert_prio pr p (as @ bs) = as @ takeWhile ?P bs @ p # r # ws"
    using insert_prio_append [of as pr p bs] assms(3) by (simp add: insert_prio_def ws)
  ultimately show ?thesis using that ws assms(2) by (metis leD)
qed

text \<open>What the loop leaves behind, for the remaining pending tasks \<open>ps\<close>.\<close>

lemma merge_pending_loop_spec:
  assumes "dq_list (tlinks s, tlists s G_readytorun) (as @ bs)" "path (flink (tlinks s)) pt ps None"
    and "set ps \<inter> set (as @ bs) = {}" "desc (sched_priority s) ps" "desc (sched_priority s) (as @ bs)"
    and "\<forall>p \<in> set ps. \<forall>a \<in> set as. sched_priority s p \<le> sched_priority s a"
    and "i \<in> set bs" "\<forall>p \<in> set ps. sched_priority s i < sched_priority s p"
  defines "rs \<equiv> merge_prio (sched_priority s) ps (as @ bs)"
  shows "\<exists>l q. merge_pending_loop pt (hd_opt bs) ret s =
      Some (ret \<or> hd rs \<noteq> hd (as @ bs),
        s\<lparr>tlinks := l, tlists := (tlists s)(G_readytorun := q),
          task_state := merged_states ps (hd (as @ bs)) (hd rs) (task_state s)\<rparr>) \<and>
    dq_list (l, q) rs \<and> links_frame (set ps \<union> set (as @ bs)) (tlinks s) l"
  using assms(1-8) unfolding rs_def
proof (induction ps arbitrary: s as bs pt ret)
  case Nil
  then show ?case
    by (intro exI [of _ "tlinks s"] exI [of _ "tlists s G_readytorun"])
      (simp add: merge_pending_loop.simps merge_prio_def)
next
  case (Cons p ps)
  let ?pr = "sched_priority s"
  have pt: "pt = Some p" "path (flink (tlinks s)) (flink (tlinks s) p) ps None" "p \<notin> set ps"
    using Cons.prems(2) path_distinct [OF Cons.prems(2)] by auto
  obtain us r ws where bs: "bs = us @ r # ws" "dropWhile (\<lambda>x. ?pr p \<le> ?pr x) bs = r # ws"
    and ins0: "insert_prio ?pr p (as @ bs) = as @ us @ p # r # ws"
    and us: "\<forall>x \<in> set us. ?pr p \<le> ?pr x" "i \<notin> set us"
    using insert_prio_split [of i bs ?pr p as] Cons.prems(6-8) by auto
  have "path (flink (tlinks s)) (hd_opt bs) bs None"
    using Cons.prems(1) by (auto simp: dq_list_def dest: path_start)
  from addprio_search_path [OF this, of "?pr p"] have
    search: "addprio_search s (?pr p) (hd_opt bs) = Some (Some r)" by (simp add: bs(2))
  define cs where "cs = as @ us"
  have ab: "as @ bs = cs @ r # ws" using bs by (simp add: cs_def)
  have ins: "insert_prio ?pr p (as @ bs) = cs @ p # r # ws" using ins0 by (simp add: cs_def)
  have d: "dq_list (tlinks s, tlists s G_readytorun) (cs @ r # ws)" using Cons.prems(1) ab by simp
  have pn: "p \<notin> set (cs @ r # ws)" and dis0: "set ps \<inter> set (cs @ r # ws) = {}"
    using Cons.prems(3) ab by auto
  let ?ts = "if cs = [] then (task_state s)(r := TSTATE_TASK_READYTORUN, p := TSTATE_TASK_RUNNING)
             else (task_state s)(p := TSTATE_TASK_READYTORUN)"
  obtain l q where m: "merge_insert p r ret s = (ret \<or> cs = [], s\<lparr>tlinks := l,
      tlists := (tlists s)(G_readytorun := q), task_state := ?ts\<rparr>)"
    and dl: "dq_list (l, q) (cs @ p # r # ws)"
    and fr: "links_frame (insert p (set (cs @ r # ws))) (tlinks s) l"
    using merge_insert_spec [OF d pn, of ret] by blast
  define s1 where "s1 = s\<lparr>tlinks := l, tlists := (tlists s)(G_readytorun := q), task_state := ?ts\<rparr>"
  have s1: "sched_priority s1 = ?pr" "tlinks s1 = l" "tlists s1 = (tlists s)(G_readytorun := q)"
    "task_state s1 = ?ts" by (simp_all add: s1_def)
  have "flink l a = flink (tlinks s) a" if "a \<in> set ps" for a
    using fr that dis0 pt(3) by (auto simp: links_frame_def)
  then have pth: "path (flink l) (flink (tlinks s) p) ps None"
    using pt(2) path_cong [of ps "flink l" "flink (tlinks s)"] by blast
  have dis: "set ps \<inter> set (cs @ p # r # ws) = {}" using dis0 pt(3) by auto
  have dps: "desc ?pr ps" and lep: "\<forall>x \<in> set ps. ?pr x \<le> ?pr p" using Cons.prems(4) by auto
  have drs: "desc ?pr (cs @ p # r # ws)" using desc_insert_prio [OF Cons.prems(5), of p] ins by simp
  have pcs: "\<forall>a \<in> set cs. ?pr p \<le> ?pr a" using us(1) Cons.prems(6) cs_def by auto
  then have leu: "\<forall>x \<in> set ps. \<forall>a \<in> set cs. ?pr x \<le> ?pr a" using lep by (meson le_trans)
  have iin: "i \<in> set (p # r # ws)" and lti: "\<forall>x \<in> set ps. ?pr i < ?pr x"
    using Cons.prems(7,8) bs(1) us(2) by auto
  let ?new = "cs @ p # r # ws"
  have hd': "hd (merge_prio ?pr ps ?new) = hd ?new"
    using lep leu by (intro hd_merge_prio_stable) (cases cs; simp)+
  have mst: "merged_states ps (hd ?new) (hd ?new) ?ts =
      merged_states (p # ps) (hd (as @ bs)) (hd ?new) (task_state s)"
    unfolding ab by (rule merged_states_step [OF pn pt(3) dis0])
  obtain l' q' where
    run: "merge_pending_loop (flink (tlinks s) p) (Some p) (ret \<or> cs = []) s1 =
      Some (ret \<or> cs = [], s1\<lparr>tlinks := l', tlists := (tlists s)(G_readytorun := q'),
          task_state := merged_states (p # ps) (hd (as @ bs)) (hd ?new) (task_state s)\<rparr>)"
    and dl': "dq_list (l', q') (merge_prio ?pr ps ?new)"
    and fr': "links_frame (set ps \<union> set ?new) l l'"
    using Cons.IH [of s1 cs "p # r # ws" "flink (tlinks s) p" "ret \<or> cs = []",
        unfolded s1 hd' mst fun_upd_same fun_upd_upd hd_opt_simps, OF dl pth dis dps drs leu iin lti,
        unfolded simp_thms] by blast
  have mp: "merge_prio ?pr (p # ps) (as @ bs) = merge_prio ?pr ps ?new"
    using ins by (simp add: merge_prio_def)
  have hds: "hd ?new \<noteq> hd (as @ bs) \<longleftrightarrow> cs = []" unfolding ab using pn by (cases cs) auto
  have step: "merge_pending_loop pt (hd_opt bs) ret s =
      merge_pending_loop (flink (tlinks s) p) (Some p) (ret \<or> cs = []) s1"
    unfolding s1_def by (subst merge_pending_loop.simps) (simp only: pt(1) search m option.case
      Let_def Option.bind.simps fst_conv snd_conv)
  have "merge_pending_loop pt (hd_opt bs) ret s =
      Some (ret \<or> hd ?new \<noteq> hd (as @ bs), s\<lparr>tlinks := l', tlists := (tlists s)(G_readytorun := q'),
        task_state := merged_states (p # ps) (hd (as @ bs)) (hd ?new) (task_state s)\<rparr>)"
    unfolding hds using step run by (simp add: s1_def)
  moreover have "links_frame (set (p # ps) \<union> set (as @ bs)) (tlinks s) l'"
    unfolding ab by (rule links_frame_trans [OF links_frame_mono [OF fr] links_frame_mono [OF fr']]) auto
  ultimately show ?case unfolding mp hd' using dl' by blast
qed

end
