(* ===== verification/Sched_Ops.thy ===== *)
theory Sched_Ops
  imports Sched_Inv
begin

text \<open>
  The invariant of the scheduler and the effect of every operation on the task lists.

  \<open>queues_ok\<close> is the invariant of the lists alone: the idle task, of priority 0, is the last of the
  ready-to-run list; every other task has a priority between 1 and 255; prioritized lists are in
  descending order of priority; the state of a listed task is the state of its list.  \<open>sched_base\<close>
  ties it to the linked lists, and \<open>sched_ok\<close> adds that tasks are pending only while the running
  task holds the preemption lock.
\<close>

section \<open>The invariant\<close>

fun list_state :: "tasklist \<Rightarrow> tstate" where
  "list_state G_pendingtasks = TSTATE_TASK_PENDING"
| "list_state G_readytorun = TSTATE_TASK_READYTORUN"
| "list_state G_inactivetasks = TSTATE_TASK_INACTIVE"
| "list_state G_waitingforsemaphore = TSTATE_WAIT_SEM"
| "list_state G_waitingforsignal = TSTATE_WAIT_SIG"
| "list_state G_waitingformqnotempty = TSTATE_WAIT_MQNOTEMPTY"
| "list_state G_waitingformqnotfull = TSTATE_WAIT_MQNOTFULL"

definition state_in :: "(tasklist \<Rightarrow> nat list) \<Rightarrow> tasklist \<Rightarrow> nat \<Rightarrow> tstate" where
  "state_in q L t = (if L = G_readytorun \<and> t = hd (q G_readytorun) then TSTATE_TASK_RUNNING
                     else list_state L)"

definition queues_ok ::
    "(nat \<Rightarrow> nat) \<Rightarrow> (nat \<Rightarrow> tstate) \<Rightarrow> (tasklist \<Rightarrow> nat list) \<Rightarrow> nat \<Rightarrow> bool" where
  "queues_ok pr ts q idle \<longleftrightarrow>
     (\<exists>rs. q G_readytorun = rs @ [idle]) \<and> pr idle = 0 \<and>
     (\<forall>L. \<forall>t \<in> set (q L). t \<noteq> idle \<longrightarrow> 1 \<le> pr t \<and> pr t \<le> 255) \<and>
     (\<forall>L. TLIST_ISPRIORITIZED (list_state L) \<longrightarrow> desc pr (q L)) \<and>
     (\<forall>L. \<forall>t \<in> set (q L). ts t = state_in q L t)"

definition sched_base :: "sched \<Rightarrow> (tasklist \<Rightarrow> nat list) \<Rightarrow> nat \<Rightarrow> bool" where
  "sched_base s q idle \<longleftrightarrow> sched_lists s q \<and> queues_ok (sched_priority s) (task_state s) q idle"

definition sched_ok :: "sched \<Rightarrow> (tasklist \<Rightarrow> nat list) \<Rightarrow> nat \<Rightarrow> bool" where
  "sched_ok s q idle \<longleftrightarrow>
     sched_base s q idle \<and> (lockcount s (hd (q G_readytorun)) \<le> 0 \<longrightarrow> q G_pendingtasks = [])"

text \<open>The fields no list operation changes.\<close>

definition same_tcb :: "sched \<Rightarrow> sched \<Rightarrow> bool" where
  "same_tcb s s' \<longleftrightarrow> sched_priority s' = sched_priority s \<and> lockcount s' = lockcount s \<and>
     sched_rr s' = sched_rr s"

lemma same_tcb_refl [simp]: "same_tcb s s"
  by (simp add: same_tcb_def)

lemma same_tcb_trans: "same_tcb s s' \<Longrightarrow> same_tcb s' s'' \<Longrightarrow> same_tcb s s''"
  by (simp add: same_tcb_def)

lemma list_state_eq: "TLIST_HEAD st = Some L \<Longrightarrow> st \<noteq> TSTATE_TASK_RUNNING \<Longrightarrow> list_state L = st"
  by (cases st) auto

lemma TLIST_HEAD_list_state [simp]: "TLIST_HEAD (list_state L) = Some L"
  by (cases L) auto

lemma list_state_inj [simp]: "list_state L = list_state M \<longleftrightarrow> L = M"
  by (cases L; cases M) auto

lemma list_state_not_running [simp]: "list_state L \<noteq> TSTATE_TASK_RUNNING" "list_state L \<noteq> TSTATE_TASK_INVALID"
  by (cases L; simp)+

lemma queues_okD:
  assumes "queues_ok pr ts q idle"
  shows "\<exists>rs. q G_readytorun = rs @ [idle]" "pr idle = 0"
    "t \<in> set (q L) \<Longrightarrow> t \<noteq> idle \<Longrightarrow> 1 \<le> pr t \<and> pr t \<le> 255"
    "TLIST_ISPRIORITIZED (list_state L) \<Longrightarrow> desc pr (q L)"
    "t \<in> set (q L) \<Longrightarrow> ts t = state_in q L t"
  using assms unfolding queues_ok_def by blast+

lemma ready_nonempty: "queues_ok pr ts q idle \<Longrightarrow> q G_readytorun \<noteq> [] \<and> last (q G_readytorun) = idle \<and> idle \<in> set (q G_readytorun)"
  by (auto dest: queues_okD(1))

lemma this_task_hd: "sched_base s q idle \<Longrightarrow> this_task s = Some (hd (q G_readytorun))"
  unfolding sched_base_def this_task_def
  using sched_listsD(2) [of s q G_readytorun] ready_nonempty [of "sched_priority s" "task_state s" q idle]
  by (cases "q G_readytorun") auto

lemma idle_only_ready:
  assumes "sched_base s q idle" "idle \<in> set (q L)"
  shows "L = G_readytorun"
proof (rule ccontr)
  assume "L \<noteq> G_readytorun"
  then have "set (q L) \<inter> set (q G_readytorun) = {}"
    using assms(1) sched_listsD(5) [of s q L G_readytorun] by (auto simp: sched_base_def)
  then show False using assms ready_nonempty by (auto simp: sched_base_def)
qed

text \<open>What a task's state says about the list it is in.\<close>

lemma state_list:
  assumes "sched_base s q idle" "t \<in> set (q L)"
  shows "TLIST_HEAD (task_state s t) = Some L"
    "task_state s t = TSTATE_TASK_RUNNING \<longleftrightarrow> L = G_readytorun \<and> t = hd (q G_readytorun)"
  using queues_okD(5) [of "sched_priority s" "task_state s" q idle t L] assms
  by (auto simp: sched_base_def state_in_def)

text \<open>A list replaced.\<close>

lemma queues_ok_upd:
  assumes ok: "queues_ok pr ts q idle"
    and other: "\<And>M t. M \<noteq> L \<Longrightarrow> t \<in> set (q M) \<Longrightarrow> pr' t = pr t \<and> ts' t = ts t"
    and "\<And>t. t \<in> set xs \<Longrightarrow> t \<noteq> idle \<Longrightarrow> 1 \<le> pr' t \<and> pr' t \<le> 255"
    and "TLIST_ISPRIORITIZED (list_state L) \<Longrightarrow> desc pr' xs"
    and "\<And>t. t \<in> set xs \<Longrightarrow> ts' t = state_in (q(L := xs)) L t"
    and ready: "L = G_readytorun \<Longrightarrow> \<exists>rs. xs = rs @ [idle] \<and> pr' idle = 0"
  shows "queues_ok pr' ts' (q(L := xs)) idle"
proof -
  note D = queues_okD [OF ok]
  have "desc pr' (q M)" if "M \<noteq> L" "TLIST_ISPRIORITIZED (list_state M)" for M
  proof -
    have "desc pr (q M)" using D(4) that by blast
    then show ?thesis
      unfolding desc_def using other [OF that(1)] by (auto intro: sorted_wrt_mono_rel [rotated])
  qed
  moreover have "(\<exists>rs. (q(L := xs)) G_readytorun = rs @ [idle]) \<and> pr' idle = 0"
  proof (cases "L = G_readytorun")
    case True
    then show ?thesis using ready by auto
  next
    case False
    then have "pr' idle = pr idle" using other [of G_readytorun idle] ready_nonempty [OF ok] by auto
    then show ?thesis using D(1,2) False by auto
  qed
  moreover have "ts' t = state_in (q(L := xs)) M t" if "M \<noteq> L" "t \<in> set (q M)" for M t
    using D(5) [OF that(2)] other [OF that] that(1) by (auto simp: state_in_def)
  moreover have "1 \<le> pr' t \<and> pr' t \<le> 255" if "M \<noteq> L" "t \<in> set (q M)" "t \<noteq> idle" for M t
    using D(3) [OF that(2,3)] other [OF that(1,2)] by simp
  ultimately show ?thesis using assms(3-5) unfolding queues_ok_def by (auto split: if_splits)
qed

lemma queues_ok_unlisted:
  assumes "queues_ok pr ts q idle" "unlisted t q"
  shows "queues_ok (pr(t := p)) (ts(t := v)) q idle"
proof -
  have "queues_ok (pr(t := p)) (ts(t := v)) (q(G_readytorun := q G_readytorun)) idle"
  proof (rule queues_ok_upd [OF assms(1)])
    have nt: "\<And>L x. x \<in> set (q L) \<Longrightarrow> x \<noteq> t" using assms(2) by (auto simp: unlisted_def)
    note D = queues_okD [OF assms(1)]
    show "(pr(t := p)) x = pr x \<and> (ts(t := v)) x = ts x" if "x \<in> set (q M)" for x M
      using nt [OF that] by simp
    show "1 \<le> (pr(t := p)) x \<and> (pr(t := p)) x \<le> 255" if "x \<in> set (q G_readytorun)" "x \<noteq> idle" for x
      using D(3) [OF that] nt [OF that(1)] by simp
    show "desc (pr(t := p)) (q G_readytorun)"
      unfolding desc_def
      by (rule sorted_wrt_mono_rel [OF _ D(4) [of G_readytorun, simplified, unfolded desc_def]])
        (use nt in auto)
    show "(ts(t := v)) x = state_in (q(G_readytorun := q G_readytorun)) G_readytorun x"
      if "x \<in> set (q G_readytorun)" for x
      using D(5) [OF that] nt [OF that] by simp
    show "\<exists>rs. q G_readytorun = rs @ [idle] \<and> (pr(t := p)) idle = 0"
      using D(1,2) nt [of idle G_readytorun] by auto
  qed
  then show ?thesis by simp
qed

lemma sched_base_unlisted:
  assumes "sched_base s q idle" "unlisted t q"
  shows "sched_base (set_state t v s) q idle" "sched_base (set_prio t p s) q idle"
proof -
  have l: "sched_lists s q" and o: "queues_ok (sched_priority s) (task_state s) q idle"
    using assms(1) by (auto simp: sched_base_def)
  show "sched_base (set_state t v s) q idle"
    using queues_ok_unlisted [OF o assms(2), of "sched_priority s t" v]
      sched_lists_cong [OF l, of "set_state t v s"] by (simp add: sched_base_def set_state_def)
  show "sched_base (set_prio t p s) q idle"
    using queues_ok_unlisted [OF o assms(2), of p "task_state s t"]
      sched_lists_cong [OF l, of "set_prio t p s"] by (simp add: sched_base_def set_prio_def)
qed

lemma sched_base_timeslice [simp]:
  "sched_base (set_timeslice t v s) q idle \<longleftrightarrow> sched_base s q idle"
  by (simp add: sched_base_def set_timeslice_def sched_lists_def)

lemma sched_base_lockcount [simp]:
  "sched_base (set_lockcount t v s) q idle \<longleftrightarrow> sched_base s q idle"
  by (simp add: sched_base_def set_lockcount_def sched_lists_def)

section \<open>Operations on the lists\<close>

lemma sched_base_lists_only:
  assumes "sched_base s q idle" "sched_lists s' q'" "lists_only s s'"
    "queues_ok (sched_priority s) (ts) q' idle"
  shows "sched_base (s'\<lparr>task_state := ts\<rparr>) q' idle"
  using assms by (simp add: sched_base_def lists_only_def sched_lists_def)

lemma queues_ok_insert:
  assumes ok: "queues_ok pr ts q idle" and t: "unlisted t q" "1 \<le> pr t" "pr t \<le> 255"
    and L: "L \<noteq> G_readytorun" "TLIST_ISPRIORITIZED (list_state L)"
  shows "queues_ok pr (ts(t := list_state L)) (q(L := insert_prio pr t (q L))) idle"
proof (rule queues_ok_upd [OF ok])
  have nt: "\<And>M x. x \<in> set (q M) \<Longrightarrow> x \<noteq> t" using t(1) by (auto simp: unlisted_def)
  note D = queues_okD [OF ok]
  show "pr x = pr x \<and> (ts(t := list_state L)) x = ts x" if "x \<in> set (q M)" for x M
    using nt [OF that] by simp
  show "1 \<le> pr x \<and> pr x \<le> 255" if "x \<in> set (insert_prio pr t (q L))" "x \<noteq> idle" for x
    using that t D(3) [of x L] by auto
  show "desc pr (insert_prio pr t (q L))" using D(4) [OF L(2)] by (rule desc_insert_prio)
  show "(ts(t := list_state L)) x = state_in (q(L := insert_prio pr t (q L))) L x"
    if "x \<in> set (insert_prio pr t (q L))" for x
    using that D(5) [of x L] L(1) by (auto simp: state_in_def)
qed (use L in simp)

text \<open>The states tell the lists apart.\<close>

lemma queues_ok_disjoint:
  assumes "queues_ok pr ts q idle" "x \<in> set (q L)" "x \<in> set (q M)"
  shows "L = M"
proof -
  have "state_in q L x = state_in q M x" using queues_okD(5) [OF assms(1)] assms(2,3) by metis
  then show ?thesis by (cases L; cases M) (auto simp: state_in_def split: if_splits)
qed

lemma insert_prio_last:
  assumes "pr i < pr t"
  shows "insert_prio pr t (us @ [i]) = butlast (insert_prio pr t (us @ [i])) @ [i]"
proof -
  have "\<exists>zs. insert_prio pr t (us @ [i]) = zs @ [i]"
  proof (induction us)
    case Nil
    then show ?case using assms by (simp add: insert_prio_Cons)
  next
    case (Cons u us)
    then obtain zs where "insert_prio pr t (us @ [i]) = zs @ [i]" by blast
    then have "insert_prio pr t ((u # us) @ [i]) = (if pr t \<le> pr u then (u # zs) @ [i] else (t # u # us) @ [i])"
      by (simp add: insert_prio_Cons)
    then show ?case by metis
  qed
  then show ?thesis by (metis butlast_snoc)
qed

lemma queues_ok_insert_ready:
  assumes ok: "queues_ok pr ts q idle" and t: "unlisted t q" "1 \<le> pr t" "pr t \<le> 255"
  defines "rs \<equiv> insert_prio pr t (q G_readytorun)"
  defines "ts' \<equiv> (if hd rs = t then ts(t := TSTATE_TASK_RUNNING, hd (q G_readytorun) := TSTATE_TASK_READYTORUN)
                  else ts(t := TSTATE_TASK_READYTORUN))"
  shows "queues_ok pr ts' (q(G_readytorun := rs)) idle"
proof (rule queues_ok_upd [OF ok])
  have nt: "\<And>M x. x \<in> set (q M) \<Longrightarrow> x \<noteq> t" using t(1) by (auto simp: unlisted_def)
  note D = queues_okD [OF ok]
  have ne: "q G_readytorun \<noteq> []" using ready_nonempty [OF ok] by blast
  then have hr: "hd (q G_readytorun) \<in> set (q G_readytorun)" by simp
  have hd_rs: "hd rs = t \<or> hd rs = hd (q G_readytorun)"
    unfolding rs_def by (simp add: hd_insert_prio ne)
  show "pr x = pr x \<and> ts' x = ts x" if "M \<noteq> G_readytorun" "x \<in> set (q M)" for x M
    using nt [OF that(2)] queues_ok_disjoint [OF ok that(2), of G_readytorun] hr that(1)
    by (auto simp: ts'_def)
  show "1 \<le> pr x \<and> pr x \<le> 255" if "x \<in> set rs" "x \<noteq> idle" for x
    using that t D(3) [of x G_readytorun] by (auto simp: rs_def)
  show "desc pr rs" unfolding rs_def by (rule desc_insert_prio [OF D(4)]) simp
  show "ts' x = state_in (q(G_readytorun := rs)) G_readytorun x" if "x \<in> set rs" for x
  proof (cases "x = t")
    case True
    then show ?thesis using nt [OF hr] by (simp add: ts'_def state_in_def)
  next
    case False
    then have "x \<in> set (q G_readytorun)" using that by (simp add: rs_def)
    from D(5) [OF this] have "ts x = (if x = hd (q G_readytorun) then TSTATE_TASK_RUNNING
        else TSTATE_TASK_READYTORUN)" by (simp add: state_in_def)
    then show ?thesis using hd_rs False by (cases "hd rs = t") (simp_all add: ts'_def state_in_def)
  qed
  obtain us where "q G_readytorun = us @ [idle]" using D(1) by blast
  then have "rs = butlast rs @ [idle]" using insert_prio_last [of pr idle t us] D(2) t(2) by (simp add: rs_def)
  then show "\<exists>us. rs = us @ [idle] \<and> pr idle = 0" using D(2) by blast
qed

lemma nxsched_add_readytorun_spec:
  fixes q :: "tasklist \<Rightarrow> nat list"
  assumes b: "sched_base s q idle" and t: "unlisted t q" "1 \<le> sched_priority s t" "sched_priority s t \<le> 255"
  defines "r \<equiv> hd (q G_readytorun)" and "pr \<equiv> sched_priority s"
  defines "pend \<equiv> lockcount s r > 0 \<and> pr r < pr t"
  defines "q' \<equiv> if pend then q(G_pendingtasks := insert_prio pr t (q G_pendingtasks))
                 else q(G_readytorun := insert_prio pr t (q G_readytorun))"
  shows "\<exists>s'. nxsched_add_readytorun t s = Some (\<not> pend \<and> pr r < pr t, s') \<and> sched_base s' q' idle \<and>
     same_tcb s s' \<and> timeslice s' = timeslice s"
proof -
  have l: "sched_lists s q" and o: "queues_ok pr (task_state s) q idle"
    using b by (auto simp: sched_base_def pr_def)
  have tt: "this_task s = Some r" using this_task_hd [OF b] by (simp add: r_def)
  show ?thesis
  proof (cases pend)
    case True
    obtain s1 where s1: "nxsched_add_prioritized t G_pendingtasks s =
        Some (hd (insert_prio pr t (q G_pendingtasks)) = t, s1)"
      "sched_lists s1 (q(G_pendingtasks := insert_prio pr t (q G_pendingtasks)))" "lists_only s s1"
      using nxsched_add_prioritized_spec [OF l t(1), of G_pendingtasks, folded pr_def] by blast
    have "queues_ok pr ((task_state s)(t := TSTATE_TASK_PENDING)) q' idle"
      using queues_ok_insert [OF o t(1), of G_pendingtasks] t(2,3) True by (simp add: q'_def pr_def)
    then have "sched_base (s1\<lparr>task_state := (task_state s)(t := TSTATE_TASK_PENDING)\<rparr>) q' idle"
      using sched_base_lists_only [OF b s1(2,3)] True by (simp add: q'_def pr_def)
    moreover have "lockcount s r > 0 \<and> sched_priority s r < sched_priority s t"
      using True by (simp add: pend_def pr_def)
    ultimately show ?thesis
      using True s1(1,3) tt unfolding nxsched_add_readytorun_def
      by (simp add: same_tcb_def lists_only_def set_state_def)
  next
    case False
    define rs where "rs = insert_prio pr t (q G_readytorun)"
    obtain s1 where s1: "nxsched_add_prioritized t G_readytorun s = Some (hd rs = t, s1)"
      "sched_lists s1 (q(G_readytorun := rs))" "lists_only s s1"
      using nxsched_add_prioritized_spec [OF l t(1), of G_readytorun, folded pr_def] unfolding rs_def by blast
    have ne: "q G_readytorun \<noteq> []" using ready_nonempty [OF o] by blast
    have rt: "r \<noteq> t" using t(1) hd_in_set [OF ne] by (auto simp: r_def unlisted_def)
    have hd: "hd rs = t \<longleftrightarrow> pr r < pr t" unfolding rs_def using rt by (simp add: hd_insert_prio ne r_def)
    have "flink (tlinks s1) t = Some r" if "hd rs = t"
    proof -
      obtain rest where qr: "q G_readytorun = r # rest" using ne by (cases "q G_readytorun") (auto simp: r_def)
      have "rs = [] @ t # r # rest" using that hd by (simp add: rs_def qr insert_prio_Cons)
      then have "dq_list (tlinks s1, tlists s1 G_readytorun) ([] @ t # r # rest)"
        using sched_listsD(1) [OF s1(2), of G_readytorun] by simp
      then show ?thesis using dq_list_links(1) [of "tlinks s1" _ "[]" t "r # rest"] by simp
    qed
    moreover have "queues_ok pr (if hd rs = t then (task_state s)(t := TSTATE_TASK_RUNNING, r := TSTATE_TASK_READYTORUN)
        else (task_state s)(t := TSTATE_TASK_READYTORUN)) (q(G_readytorun := rs)) idle"
      unfolding rs_def r_def
      by (rule queues_ok_insert_ready [OF o t(1)]) (use t(2,3) in \<open>simp_all add: pr_def\<close>)
    moreover have "sched_base (s1\<lparr>task_state := ts\<rparr>) q' idle" if "queues_ok pr ts (q(G_readytorun := rs)) idle" for ts
      using sched_base_lists_only [OF b s1(2,3)] that False by (simp add: q'_def rs_def pr_def)
    moreover have "\<not> (lockcount s r > 0 \<and> pr r < pr t)" using False by (simp add: pend_def)
    ultimately show ?thesis
      using False s1(1,3) tt hd
      by (cases "hd rs = t")
        (simp_all add: nxsched_add_readytorun_def pr_def same_tcb_def lists_only_def set_state_def)
  qed
qed

lemma desc_remove: "desc pr (xs @ t # ys) \<Longrightarrow> desc pr (xs @ ys)"
  by (simp add: desc_append)

lemma queues_ok_remove:
  assumes ok: "queues_ok pr ts q idle" and L: "L \<noteq> G_readytorun" "q L = xs @ t # ys"
    and u: "unlisted t (q(L := xs @ ys))"
  shows "queues_ok pr (ts(t := v)) (q(L := xs @ ys)) idle"
proof (rule queues_ok_upd [OF ok])
  note D = queues_okD [OF ok]
  show "pr x = pr x \<and> (ts(t := v)) x = ts x" if "M \<noteq> L" "x \<in> set (q M)" for x M
    using u that by (auto simp: unlisted_def split: if_splits)
  show "1 \<le> pr x \<and> pr x \<le> 255" if "x \<in> set (xs @ ys)" "x \<noteq> idle" for x
    using that D(3) [of x L] L(2) by auto
  show "desc pr (xs @ ys)" if "TLIST_ISPRIORITIZED (list_state L)"
    using D(4) [OF that] L(2) by (simp add: desc_remove)
  show "(ts(t := v)) x = state_in (q(L := xs @ ys)) L x" if "x \<in> set (xs @ ys)" for x
  proof -
    have "x \<noteq> t" using u that by (auto simp: unlisted_def dest: spec [of _ L])
    moreover have "ts x = state_in q L x" using D(5) [of x L] that L(2) by auto
    ultimately show ?thesis using L(1) by (simp add: state_in_def)
  qed
qed (use L in simp)

lemma queues_ok_remove_ready:
  assumes ok: "queues_ok pr ts q idle" and q: "q G_readytorun = xs @ t # ys" "t \<noteq> idle"
    and u: "unlisted t (q(G_readytorun := xs @ ys))" and di: "distinct (q G_readytorun)"
  shows "ys \<noteq> []"
    and "queues_ok pr ((if xs = [] then ts(hd ys := TSTATE_TASK_RUNNING) else ts)(t := v))
           (q(G_readytorun := xs @ ys)) idle"
proof -
  note D = queues_okD [OF ok]
  obtain us where us: "xs @ t # ys = us @ [idle]" using D(1) q by auto
  then show ne: "ys \<noteq> []" using q(2) by (cases ys rule: rev_cases) auto
  have hy: "hd ys \<in> set (q G_readytorun)" "hd ys \<noteq> t" using ne q di by auto
  let ?ts = "(if xs = [] then ts(hd ys := TSTATE_TASK_RUNNING) else ts)(t := v)"
  show "queues_ok pr ?ts (q(G_readytorun := xs @ ys)) idle"
  proof (rule queues_ok_upd [OF ok])
    show "pr x = pr x \<and> ?ts x = ts x" if "M \<noteq> G_readytorun" "x \<in> set (q M)" for x M
    proof -
      have "x \<noteq> t" "x \<noteq> hd ys"
        using queues_ok_disjoint [OF ok that(2), of G_readytorun] that(1) hy q by auto
      then show ?thesis by simp
    qed
    show "1 \<le> pr x \<and> pr x \<le> 255" if "x \<in> set (xs @ ys)" "x \<noteq> idle" for x
      using that D(3) [of x G_readytorun] q by auto
    show "desc pr (xs @ ys)" using D(4) [of G_readytorun] q by (simp add: desc_remove)
    show "?ts x = state_in (q(G_readytorun := xs @ ys)) G_readytorun x" if "x \<in> set (xs @ ys)" for x
    proof -
      have xt: "x \<noteq> t" using that q di by auto
      have "ts x = (if x = hd (xs @ t # ys) then TSTATE_TASK_RUNNING else TSTATE_TASK_READYTORUN)"
        using D(5) [of x G_readytorun] that q by (auto simp: state_in_def)
      then show ?thesis using xt ne by (cases xs) (simp_all add: state_in_def)
    qed
    obtain ys' where "ys = ys' @ [idle]" using us ne by (cases ys rule: rev_cases) auto
    then show "\<exists>rs. xs @ ys = rs @ [idle] \<and> pr idle = 0" using D(2) by auto
  qed
qed

lemma nxsched_remove_readytorun_spec:
  assumes b: "sched_base s q idle" and q: "q G_readytorun = xs @ t # ys" "t \<noteq> idle"
  shows "\<exists>s'. nxsched_remove_readytorun t s = Some (xs = [], s') \<and>
     sched_base s' (q(G_readytorun := xs @ ys)) idle \<and> unlisted t (q(G_readytorun := xs @ ys)) \<and>
     xs @ ys \<noteq> [] \<and> same_tcb s s' \<and> timeslice s' = timeslice s"
proof -
  have l: "sched_lists s q" and o: "queues_ok (sched_priority s) (task_state s) q idle"
    using b by (auto simp: sched_base_def)
  define s0 where "s0 = (if xs = [] then set_state (hd ys) TSTATE_TASK_RUNNING s else s)"
  have l0: "sched_lists s0 q" using sched_lists_cong [OF l] by (simp add: s0_def set_state_def)
  define s1 where "s1 = put_list G_readytorun (dq_rem t (get_list G_readytorun s0)) s0"
  have s1: "sched_lists s1 (q(G_readytorun := xs @ ys))" and u: "unlisted t (q(G_readytorun := xs @ ys))"
    using sched_lists_rem [of s0 q G_readytorun, OF l0 q(1)] by (simp_all add: s1_def)
  have di: "distinct (q G_readytorun)" using sched_listsD(4) [OF l] .
  note R = queues_ok_remove_ready [OF o q u di]
  have d: "dq_list (tlinks s, tlists s G_readytorun) (xs @ t # ys)"
    using sched_listsD(1) [OF l, of G_readytorun] q by simp
  have links: "blink (tlinks s) t = last_opt xs" "flink (tlinks s) t = Some (hd ys)"
    using dq_list_links [OF d] R(1) by (auto simp: hd_opt_def split: list.splits)
  have ts1: "(task_state s1)(t := TSTATE_TASK_INVALID) =
      (if xs = [] then (task_state s)(hd ys := TSTATE_TASK_RUNNING) else task_state s)(t := TSTATE_TASK_INVALID)"
    by (simp add: s1_def s0_def put_list_def set_state_def)
  have f1: "same_tcb s s1" "timeslice s1 = timeslice s"
    by (simp_all add: s1_def s0_def put_list_def set_state_def same_tcb_def)
  have "nxsched_remove_readytorun t s = Some (xs = [], set_state t TSTATE_TASK_INVALID s1)"
    using links by (cases "xs = []") (simp_all add: nxsched_remove_readytorun_def s1_def s0_def last_opt_def)
  moreover have "sched_base (set_state t TSTATE_TASK_INVALID s1) (q(G_readytorun := xs @ ys)) idle"
    using R(2) [of TSTATE_TASK_INVALID] f1(1) sched_lists_cong [OF s1, of "set_state t TSTATE_TASK_INVALID s1"]
    unfolding ts1 [symmetric] by (simp add: sched_base_def set_state_def same_tcb_def)
  moreover have "same_tcb s (set_state t TSTATE_TASK_INVALID s1)" "timeslice (set_state t TSTATE_TASK_INVALID s1) = timeslice s"
    using f1 by (simp_all add: same_tcb_def set_state_def)
  ultimately show ?thesis using u R(1) by auto
qed

lemma nxsched_remove_blocked_spec:
  assumes b: "sched_base s q idle" and q: "q L = xs @ t # ys" "L \<noteq> G_readytorun"
  shows "\<exists>s'. nxsched_remove_blocked t s = Some s' \<and> sched_base s' (q(L := xs @ ys)) idle \<and>
     unlisted t (q(L := xs @ ys)) \<and> same_tcb s s' \<and> timeslice s' = timeslice s"
proof -
  have l: "sched_lists s q" and o: "queues_ok (sched_priority s) (task_state s) q idle"
    using b by (auto simp: sched_base_def)
  define s1 where "s1 = put_list L (dq_rem t (get_list L s)) s"
  have s1: "sched_lists s1 (q(L := xs @ ys))" and u: "unlisted t (q(L := xs @ ys))"
    using sched_lists_rem [OF l q(1)] by (simp_all add: s1_def)
  have "TLIST_HEAD (task_state s t) = Some L" using state_list(1) [OF b, of t L] q(1) by simp
  then have "nxsched_remove_blocked t s = Some (set_state t TSTATE_TASK_INVALID s1)"
    by (simp add: nxsched_remove_blocked_def s1_def)
  moreover have "sched_base (s1\<lparr>task_state := (task_state s)(t := TSTATE_TASK_INVALID)\<rparr>) (q(L := xs @ ys)) idle"
    by (rule sched_base_lists_only [OF b s1 _ queues_ok_remove [OF o q(2,1) u]]) (simp add: s1_def)
  then have "sched_base (set_state t TSTATE_TASK_INVALID s1) (q(L := xs @ ys)) idle"
    by (simp add: set_state_def s1_def put_list_def)
  moreover have "same_tcb s (set_state t TSTATE_TASK_INVALID s1)"
      "timeslice (set_state t TSTATE_TASK_INVALID s1) = timeslice s"
    by (simp_all add: same_tcb_def set_state_def s1_def put_list_def)
  ultimately show ?thesis using u by blast
qed

text \<open>Where a task goes when it enters a list: by priority, or last.\<close>

definition enqueue :: "(nat \<Rightarrow> nat) \<Rightarrow> tasklist \<Rightarrow> nat \<Rightarrow> nat list \<Rightarrow> nat list" where
  "enqueue pr L t xs = (if TLIST_ISPRIORITIZED (list_state L) then insert_prio pr t xs else xs @ [t])"

lemma set_enqueue [simp]: "set (enqueue pr L t xs) = insert t (set xs)"
  by (simp add: enqueue_def)

lemma queues_ok_enqueue:
  assumes ok: "queues_ok pr ts q idle" and t: "unlisted t q" "1 \<le> pr t" "pr t \<le> 255"
    and L: "L \<noteq> G_readytorun"
  shows "queues_ok pr (ts(t := list_state L)) (q(L := enqueue pr L t (q L))) idle"
proof (cases "TLIST_ISPRIORITIZED (list_state L)")
  case True
  then show ?thesis using queues_ok_insert [OF ok t L] by (simp add: enqueue_def)
next
  case False
  have nt: "\<And>M x. x \<in> set (q M) \<Longrightarrow> x \<noteq> t" using t(1) by (auto simp: unlisted_def)
  note D = queues_okD [OF ok]
  show ?thesis
  proof (rule queues_ok_upd [OF ok])
    show "pr x = pr x \<and> (ts(t := list_state L)) x = ts x" if "x \<in> set (q M)" for x M
      using nt [OF that] by simp
    show "1 \<le> pr x \<and> pr x \<le> 255" if "x \<in> set (enqueue pr L t (q L))" "x \<noteq> idle" for x
      using that t D(3) [of x L] by auto
    show "(ts(t := list_state L)) x = state_in (q(L := enqueue pr L t (q L))) L x"
      if "x \<in> set (enqueue pr L t (q L))" for x
      using that D(5) [of x L] L by (auto simp: state_in_def)
  qed (use False L in auto)
qed

lemma nxsched_add_blocked_spec:
  assumes b: "sched_base s q idle" and t: "unlisted t q" "1 \<le> sched_priority s t" "sched_priority s t \<le> 255"
    and st: "TLIST_HEAD st = Some L" "L \<noteq> G_readytorun"
  defines "q' \<equiv> q(L := enqueue (sched_priority s) L t (q L))"
  shows "\<exists>s'. nxsched_add_blocked t st s = Some s' \<and> sched_base s' q' idle \<and>
     same_tcb s s' \<and> timeslice s' = timeslice s"
proof -
  have l: "sched_lists s q" and o: "queues_ok (sched_priority s) (task_state s) q idle"
    using b by (auto simp: sched_base_def)
  have ls: "list_state L = st" using list_state_eq [OF st(1)] st by (cases st) auto
  have "\<exists>s1. (if TLIST_ISPRIORITIZED st
              then map_option snd (nxsched_add_prioritized t L s)
              else do { d \<leftarrow> dq_addlast t (get_list L s); Some (put_list L d s) }) = Some s1 \<and>
      sched_lists s1 q' \<and> lists_only s s1"
  proof (cases "TLIST_ISPRIORITIZED st")
    case True
    then obtain s1 where "nxsched_add_prioritized t L s =
        Some (hd (insert_prio (sched_priority s) t (q L)) = t, s1)"
      "sched_lists s1 (q(L := insert_prio (sched_priority s) t (q L)))" "lists_only s s1"
      using nxsched_add_prioritized_spec [OF l t(1), of L] by blast
    then show ?thesis using True by (simp add: q'_def enqueue_def ls)
  next
    case False
    then obtain d where "dq_addlast t (get_list L s) = Some d" "sched_lists (put_list L d s) (q(L := q L @ [t]))"
      using sched_lists_addlast [OF l t(1), of L] by blast
    then show ?thesis using False by (simp add: q'_def enqueue_def ls)
  qed
  then obtain s1 where s1: "nxsched_add_blocked t st s = Some (set_state t st s1)" "sched_lists s1 q'" "lists_only s s1"
    using st(1) by (auto simp: nxsched_add_blocked_def)
  have "sched_base (s1\<lparr>task_state := (task_state s)(t := st)\<rparr>) q' idle"
    unfolding q'_def
    by (rule sched_base_lists_only [OF b s1(2) [unfolded q'_def] s1(3)
          queues_ok_enqueue [OF o t st(2), unfolded ls]])
  then show ?thesis using s1(1,3) by (simp add: set_state_def same_tcb_def lists_only_def)
qed

lemma merge_prio_last:
  assumes "\<forall>p \<in> set ps. pr i < pr p"
  shows "\<exists>zs. merge_prio pr ps (us @ [i]) = zs @ [i]"
  using assms
proof (induction ps arbitrary: us)
  case (Cons p ps)
  define vs where "vs = butlast (insert_prio pr p (us @ [i]))"
  have "insert_prio pr p (us @ [i]) = vs @ [i]"
    unfolding vs_def by (rule insert_prio_last) (use Cons.prems in simp)
  moreover obtain zs where "merge_prio pr ps (vs @ [i]) = zs @ [i]" using Cons.IH [of vs] Cons.prems by auto
  ultimately show ?case by (simp add: merge_prio_def)
qed (simp add: merge_prio_def)

lemma hd_merge_prio: "rs \<noteq> [] \<Longrightarrow> hd (merge_prio pr ps rs) = hd rs \<or> hd (merge_prio pr ps rs) \<in> set ps"
proof (induction ps arbitrary: rs)
  case (Cons p ps)
  have "insert_prio pr p rs \<noteq> []" by (simp add: insert_prio_def)
  from Cons.IH [OF this] show ?case
    using hd_insert_prio [OF Cons.prems, of pr p] by (auto simp: merge_prio_def split: if_splits)
qed (simp add: merge_prio_def)

lemma queues_ok_merge:
  assumes ok: "queues_ok pr ts q idle" and di: "distinct (q G_readytorun)" "distinct (q G_pendingtasks)"
  defines "rs \<equiv> merge_prio pr (q G_pendingtasks) (q G_readytorun)"
  defines "h \<equiv> hd (q G_readytorun)"
  shows "queues_ok pr (merged_states (q G_pendingtasks) h (hd rs) ts)
     (q(G_readytorun := rs, G_pendingtasks := [])) idle" (is "queues_ok pr ?ts ?q' idle")
proof -
  note D = queues_okD [OF ok]
  let ?ps = "q G_pendingtasks"
  have ne: "q G_readytorun \<noteq> []" using ready_nonempty [OF ok] by blast
  have hr: "h \<in> set (q G_readytorun)" using ne by (simp add: h_def)
  have idle_ps: "idle \<notin> set ?ps" using queues_ok_disjoint [OF ok, of idle G_pendingtasks G_readytorun]
    ready_nonempty [OF ok] by auto
  have pos: "\<forall>p \<in> set ?ps. pr idle < pr p"
    using D(2) D(3) [of _ G_pendingtasks] idle_ps by fastforce
  obtain us where us: "q G_readytorun = us @ [idle]" using D(1) by blast
  obtain zs where zs: "rs = zs @ [idle]" using merge_prio_last [OF pos, of us] us by (auto simp: rs_def)
  have hd_rs: "hd rs = h \<or> hd rs \<in> set ?ps" unfolding rs_def h_def by (rule hd_merge_prio [OF ne])
  have set_rs: "set rs = set ?ps \<union> set (q G_readytorun)" by (simp add: rs_def)
  have "queues_ok pr ?ts (q(G_pendingtasks := [], G_readytorun := rs)) idle"
    unfolding queues_ok_def
  proof (intro conjI allI ballI impI)
    show "\<exists>vs. (q(G_pendingtasks := [], G_readytorun := rs)) G_readytorun = vs @ [idle]" using zs by simp
    show "pr idle = 0" by (rule D(2))
    fix L
    show "1 \<le> pr t" "pr t \<le> 255" if "t \<in> set ((q(G_pendingtasks := [], G_readytorun := rs)) L)" "t \<noteq> idle" for t
      using that D(3) [of t L] D(3) [of t G_pendingtasks] D(3) [of t G_readytorun] set_rs
      by (auto split: if_splits)
    show "desc pr ((q(G_pendingtasks := [], G_readytorun := rs)) L)" if "TLIST_ISPRIORITIZED (list_state L)"
      using D(4) [OF that] desc_merge_prio [OF D(4) [of G_readytorun], of ?ps] by (simp add: rs_def)
    show "?ts t = state_in (q(G_pendingtasks := [], G_readytorun := rs)) L t"
      if t: "t \<in> set ((q(G_pendingtasks := [], G_readytorun := rs)) L)" for t
    proof (cases "L = G_readytorun")
      case True
      show ?thesis
      proof (cases "t \<in> set ?ps")
        case tp: True
        then show ?thesis using True by (simp add: merged_states_def state_in_def)
      next
        case tp: False
        then have "t \<in> set (q G_readytorun)" using t True set_rs by simp
        from D(5) [OF this] have "ts t = (if t = h then TSTATE_TASK_RUNNING else TSTATE_TASK_READYTORUN)"
          by (simp add: state_in_def h_def)
        moreover have "t \<noteq> hd rs" if "t \<noteq> h" using hd_rs tp that by auto
        ultimately show ?thesis
          using True tp by (cases "t = h"; cases "t = hd rs") (simp_all add: merged_states_def state_in_def)
      qed
    next
      case False
      then have tL: "t \<in> set (q L)" "L \<noteq> G_pendingtasks" using t by (auto split: if_splits)
      then have "t \<notin> set ?ps" "t \<noteq> h"
        using queues_ok_disjoint [OF ok tL(1), of G_pendingtasks]
          queues_ok_disjoint [OF ok tL(1), of G_readytorun] False hr by blast+
      then show ?thesis using D(5) [OF tL(1)] False by (simp add: merged_states_def state_in_def)
    qed
  qed
  moreover have "q(G_pendingtasks := [], G_readytorun := rs) = ?q'" by (rule fun_upd_twist) simp
  ultimately show ?thesis by simp
qed

lemma nxsched_merge_pending_spec:
  assumes b: "sched_base s q idle"
  defines "rs \<equiv> merge_prio (sched_priority s) (q G_pendingtasks) (q G_readytorun)"
  shows "\<exists>s'. nxsched_merge_pending s = Some (hd rs \<noteq> hd (q G_readytorun), s') \<and>
     sched_base s' (q(G_readytorun := rs, G_pendingtasks := [])) idle \<and>
     same_tcb s s' \<and> timeslice s' = timeslice s"
proof -
  let ?ps = "q G_pendingtasks" and ?bs = "q G_readytorun" and ?pr = "sched_priority s"
  have l: "sched_lists s q" and o: "queues_ok ?pr (task_state s) q idle"
    using b by (auto simp: sched_base_def)
  note D = queues_okD [OF o] and S = sched_listsD [OF l]
  have ne: "idle \<in> set ?bs" and idle_ps: "idle \<notin> set ?ps"
    using ready_nonempty [OF o] queues_ok_disjoint [OF o, of idle G_pendingtasks G_readytorun] by auto
  have pos: "\<forall>p \<in> set ?ps. ?pr idle < ?pr p"
    using D(2) D(3) [of _ G_pendingtasks] idle_ps by fastforce
  have path: "path (flink (tlinks s)) (dq_head (tlists s G_pendingtasks)) ?ps None"
    using S(1) [of G_pendingtasks] by (simp add: dq_list_def)
  have dis: "set ?ps \<inter> set ([] @ ?bs) = {}" using S(5) [of G_pendingtasks G_readytorun] by simp
  have d: "dq_list (tlinks s, tlists s G_readytorun) ([] @ ?bs)" using S(1) [of G_readytorun] by simp
  have de: "desc ?pr ?ps" "desc ?pr ([] @ ?bs)" using D(4) [of G_pendingtasks] D(4) [of G_readytorun] by simp_all
  let ?ts = "merged_states ?ps (hd ?bs) (hd rs) (task_state s)"
  obtain ln qn where run: "merge_pending_loop (dq_head (tlists s G_pendingtasks)) (hd_opt ?bs) False s =
      Some (hd rs \<noteq> hd ?bs, s\<lparr>tlinks := ln, tlists := (tlists s)(G_readytorun := qn), task_state := ?ts\<rparr>)"
    and dl: "dq_list (ln, qn) rs" and fr: "links_frame (set ?ps \<union> set ?bs) (tlinks s) ln"
    using merge_pending_loop_spec [OF d path dis de _ ne pos, of False] by (auto simp: rs_def)
  define s' where "s' = s\<lparr>tlinks := ln, tlists := (tlists s)(G_readytorun := qn,
      G_pendingtasks := (tlists s G_pendingtasks)\<lparr>dq_head := None, dq_tail := None\<rparr>), task_state := ?ts\<rparr>"
  let ?q' = "q(G_readytorun := rs, G_pendingtasks := [])"
  have "this_task s = hd_opt ?bs" using S(2) [of G_readytorun] by (simp add: this_task_def)
  then have "nxsched_merge_pending s = Some (hd rs \<noteq> hd ?bs, s')"
    using run by (simp add: nxsched_merge_pending_def s'_def)
  moreover have "sched_lists s' ?q'"
    unfolding sched_lists_def
  proof (intro conjI allI impI)
    fix L
    show "dq_list (tlinks s', tlists s' L) (?q' L)"
    proof (cases "L = G_readytorun \<or> L = G_pendingtasks")
      case True
      then show ?thesis using dl by (auto simp: s'_def dq_list_def)
    next
      case False
      have "set (q L) \<inter> (set ?ps \<union> set ?bs) = {}"
        using S(5) [of L G_pendingtasks] S(5) [of L G_readytorun] False by auto
      then have "dq_list (ln, tlists s L) (q L)" using dq_list_frame [OF S(1) fr, of L] by auto
      then show ?thesis using False by (simp add: s'_def)
    qed
    fix M assume "L \<noteq> M"
    then show "set (?q' L) \<inter> set (?q' M) = {}"
      using S(5) [of L M] S(5) [of L G_pendingtasks] S(5) [of M G_pendingtasks]
      by (cases L; cases M) (auto simp: rs_def)
  qed
  moreover have "queues_ok ?pr ?ts ?q' idle"
    using queues_ok_merge [OF o S(4) S(4)] by (simp add: rs_def)
  ultimately show ?thesis by (simp add: sched_base_def s'_def same_tcb_def)
qed

end
