(* ===== verification/Sched_Switch.thy ===== *)
theory Sched_Switch
  imports Sched_Ops
begin

text \<open>
  The switching layer refines an abstract scheduler: a function from task lists to sequences of
  tasks.  Each operation of the layer returns, keeps the invariant \<open>sched_ok\<close>, and changes the
  sequences as its abstract counterpart says.
\<close>

section \<open>The abstract scheduler\<close>

type_synonym queues = "tasklist \<Rightarrow> nat list"

definition q_remove :: "nat \<Rightarrow> queues \<Rightarrow> queues" where
  "q_remove t q = (\<lambda>L. filter (\<lambda>x. x \<noteq> t) (q L))"

definition q_enter :: "(nat \<Rightarrow> nat) \<Rightarrow> tasklist \<Rightarrow> nat \<Rightarrow> queues \<Rightarrow> queues" where
  "q_enter pr L t q = q(L := enqueue pr L t (q L))"

definition q_merge :: "(nat \<Rightarrow> nat) \<Rightarrow> queues \<Rightarrow> queues" where
  "q_merge pr q =
     q(G_readytorun := merge_prio pr (q G_pendingtasks) (q G_readytorun), G_pendingtasks := [])"

text \<open>A task becomes runnable: it has to wait when the lock keeps it from preempting.\<close>

definition held_back :: "(nat \<Rightarrow> nat) \<Rightarrow> (nat \<Rightarrow> int) \<Rightarrow> nat \<Rightarrow> queues \<Rightarrow> bool" where
  "held_back pr lk t q \<longleftrightarrow> lk (hd (q G_readytorun)) > 0 \<and> pr (hd (q G_readytorun)) < pr t"

definition q_ready :: "(nat \<Rightarrow> nat) \<Rightarrow> (nat \<Rightarrow> int) \<Rightarrow> nat \<Rightarrow> queues \<Rightarrow> queues" where
  "q_ready pr lk t q =
     q_enter pr (if held_back pr lk t q then G_pendingtasks else G_readytorun) t q"

definition q_block :: "(nat \<Rightarrow> nat) \<Rightarrow> tasklist \<Rightarrow> nat \<Rightarrow> queues \<Rightarrow> queues" where
  "q_block pr L t q = q_merge pr (q_enter pr L t (q_remove t q))"

definition q_unblock :: "(nat \<Rightarrow> nat) \<Rightarrow> (nat \<Rightarrow> int) \<Rightarrow> nat \<Rightarrow> queues \<Rightarrow> queues" where
  "q_unblock pr lk t q = q_ready pr lk t (q_remove t q)"

text \<open>Whether a task of changed priority leaves or takes the head.\<close>

definition reprio_switch :: "(nat \<Rightarrow> nat) \<Rightarrow> (nat \<Rightarrow> int) \<Rightarrow> nat \<Rightarrow> queues \<Rightarrow> bool" where
  "reprio_switch pr lk t q =
     ((hd (q G_readytorun) = t) \<noteq>
      (let q0 = q_remove t q in \<not> held_back pr lk t q0 \<and> pr (hd (q0 G_readytorun)) < pr t))"

definition q_reprio :: "(nat \<Rightarrow> nat) \<Rightarrow> (nat \<Rightarrow> int) \<Rightarrow> nat \<Rightarrow> queues \<Rightarrow> queues" where
  "q_reprio pr lk t q =
     (let q1 = q_unblock pr lk t q in if reprio_switch pr lk t q then q_merge pr q1 else q1)"

lemma q_remove_split:
  assumes "q L = xs @ t # ys" "unlisted t (q(L := xs @ ys))"
  shows "q_remove t q = q(L := xs @ ys)"
proof
  fix M
  have "t \<notin> set ((q(L := xs @ ys)) M)" using assms(2) by (simp add: unlisted_def)
  then have "filter (\<lambda>x. x \<noteq> t) ((q(L := xs @ ys)) M) = (q(L := xs @ ys)) M"
    by (auto simp: filter_id_conv)
  then show "q_remove t q M = (q(L := xs @ ys)) M"
    using assms(1) by (cases "M = L") (simp_all add: q_remove_def)
qed

lemma hd_q_remove: "q L \<noteq> [] \<Longrightarrow> hd (q L) \<noteq> t \<Longrightarrow> hd (q_remove t q L) = hd (q L)"
  by (cases "q L") (auto simp: q_remove_def)

lemma q_merge_none: "q G_pendingtasks = [] \<Longrightarrow> q_merge pr q = q"
  by (auto simp: q_merge_def merge_prio_def)

lemma enqueue_ready [simp]: "enqueue pr G_readytorun = insert_prio pr" "enqueue pr G_pendingtasks = insert_prio pr"
  by (simp_all add: enqueue_def fun_eq_iff)

section \<open>Refinement\<close>

text \<open>The time slices after an operation: the task resumed by a switch gets a full one.\<close>

definition resumed :: "bool \<Rightarrow> queues \<Rightarrow> sched \<Rightarrow> sched \<Rightarrow> bool" where
  "resumed b q s s' \<longleftrightarrow>
     timeslice s' = (if b then (timeslice s)(hd (q G_readytorun) := RR_TICKS) else timeslice s)"

lemma switch_to_head_spec:
  assumes "sched_base s q idle"
  shows "\<exists>s'. switch_to_head s = Some s' \<and> sched_base s' q idle \<and> same_tcb s s' \<and> resumed True q s s'"
  using this_task_hd [OF assms] assms
  by (simp add: switch_to_head_def nxsched_resume_scheduler_def resumed_def same_tcb_def)
    (simp add: set_timeslice_def)

lemma maybe_switch:
  assumes "sched_base s q idle"
  shows "\<exists>s'. (if b then switch_to_head s else Some s) = Some s' \<and> sched_base s' q idle \<and>
     same_tcb s s' \<and> resumed b q s s'"
  using switch_to_head_spec [OF assms] assms by (cases b) (simp_all add: resumed_def)

text \<open>Merging is skipped when nothing is pending.\<close>

lemma maybe_merge:
  assumes b: "sched_base s q idle"
  shows "\<exists>s'. (if dq_head (tlists s G_pendingtasks) \<noteq> None then nxsched_merge_pending s else Some (False, s)) =
      Some (hd (q_merge (sched_priority s) q G_readytorun) \<noteq> hd (q G_readytorun), s') \<and>
    sched_base s' (q_merge (sched_priority s) q) idle \<and> same_tcb s s' \<and> timeslice s' = timeslice s"
proof (cases "q G_pendingtasks = []")
  case True
  then have "dq_head (tlists s G_pendingtasks) = None"
    using sched_listsD(2) [of s q G_pendingtasks] b by (simp add: sched_base_def)
  then show ?thesis using b by (simp add: q_merge_none [of q, OF True])
next
  case False
  then have "dq_head (tlists s G_pendingtasks) \<noteq> None"
    using sched_listsD(2) [of s q G_pendingtasks] b by (simp add: sched_base_def)
  then show ?thesis using nxsched_merge_pending_spec [OF b] by (simp add: q_merge_def)
qed

lemma remove_ready:
  assumes b: "sched_base s q idle" and t: "t \<in> set (q G_readytorun)" "t \<noteq> idle"
  shows "\<exists>s'. nxsched_remove_readytorun t s = Some (hd (q G_readytorun) = t, s') \<and>
     sched_base s' (q_remove t q) idle \<and> unlisted t (q_remove t q) \<and> same_tcb s s' \<and> timeslice s' = timeslice s"
proof -
  obtain xs ys where q: "q G_readytorun = xs @ t # ys" using t(1) by (auto simp: in_set_conv_decomp)
  have "distinct (q G_readytorun)" using b sched_listsD(4) by (auto simp: sched_base_def)
  then have "hd (q G_readytorun) = t \<longleftrightarrow> xs = []" using q by (cases xs) auto
  then show ?thesis using nxsched_remove_readytorun_spec [OF b q t(2)] q_remove_split [of q G_readytorun, OF q] by auto
qed

lemma remove_blocked:
  assumes b: "sched_base s q idle" and t: "t \<in> set (q L)" "L \<noteq> G_readytorun"
  shows "\<exists>s'. nxsched_remove_blocked t s = Some s' \<and>
     sched_base s' (q_remove t q) idle \<and> unlisted t (q_remove t q) \<and> same_tcb s s' \<and> timeslice s' = timeslice s"
proof -
  obtain xs ys where q: "q L = xs @ t # ys" using t(1) by (auto simp: in_set_conv_decomp)
  then show ?thesis using nxsched_remove_blocked_spec [OF b q t(2)] q_remove_split [of q L, OF q] by auto
qed

lemma add_ready:
  assumes b: "sched_base s q idle" and t: "unlisted t q" "1 \<le> sched_priority s t" "sched_priority s t \<le> 255"
  defines "pr \<equiv> sched_priority s" and "lk \<equiv> lockcount s"
  shows "\<exists>s'. nxsched_add_readytorun t s =
      Some (\<not> held_back pr lk t q \<and> pr (hd (q G_readytorun)) < pr t, s') \<and>
    sched_base s' (q_ready pr lk t q) idle \<and> same_tcb s s' \<and> timeslice s' = timeslice s"
  using nxsched_add_readytorun_spec [OF b t]
  by (auto simp: q_ready_def q_enter_def held_back_def pr_def lk_def)

lemma up_block_task_spec:
  assumes ok: "sched_ok s q idle" and t: "t \<in> set (q G_readytorun)" "t \<noteq> idle"
    and st: "TLIST_HEAD st = Some L" "L \<noteq> G_readytorun" "L \<noteq> G_pendingtasks"
  defines "q' \<equiv> q_block (sched_priority s) L t q"
  shows "\<exists>s'. up_block_task t st s = Some s' \<and> sched_ok s' q' idle \<and> same_tcb s s' \<and>
     resumed (hd (q' G_readytorun) \<noteq> hd (q G_readytorun)) q' s s'"
proof -
  have b: "sched_base s q idle" using ok by (simp add: sched_ok_def)
  then have pr: "1 \<le> sched_priority s t" "sched_priority s t \<le> 255"
    using queues_okD(3) [of "sched_priority s" "task_state s" q idle t G_readytorun] t by (auto simp: sched_base_def)
  have ne: "q G_readytorun \<noteq> []" using t(1) by auto
  obtain s1 where s1: "nxsched_remove_readytorun t s = Some (hd (q G_readytorun) = t, s1)"
    "sched_base s1 (q_remove t q) idle" "unlisted t (q_remove t q)" "same_tcb s s1" "timeslice s1 = timeslice s"
    using remove_ready [OF b t] by blast
  have pr1: "sched_priority s1 = sched_priority s" using s1(4) by (simp add: same_tcb_def)
  define q2 where "q2 = q_enter (sched_priority s) L t (q_remove t q)"
  obtain s2 where s2: "nxsched_add_blocked t st s1 = Some s2" "sched_base s2 q2 idle"
    "same_tcb s1 s2" "timeslice s2 = timeslice s1"
    using nxsched_add_blocked_spec [OF s1(2,3) _ _ st(1,2)] pr unfolding pr1 q2_def q_enter_def by auto
  have pr2: "sched_priority s2 = sched_priority s" using s2(3) pr1 by (simp add: same_tcb_def)
  have q': "q' = q_merge (sched_priority s) q2" by (simp add: q'_def q2_def q_block_def)
  obtain s3 where s3: "(if dq_head (tlists s2 G_pendingtasks) \<noteq> None then nxsched_merge_pending s2 else Some (False, s2)) =
      Some (hd (q' G_readytorun) \<noteq> hd (q2 G_readytorun), s3)"
    "sched_base s3 q' idle" "same_tcb s2 s3" "timeslice s3 = timeslice s2"
    using maybe_merge [OF s2(2)] unfolding pr2 q' by blast
  let ?sw = "hd (q G_readytorun) = t \<or> hd (q' G_readytorun) \<noteq> hd (q2 G_readytorun)"
  obtain s4 where s4: "(if ?sw then switch_to_head s3 else Some s3) = Some s4"
    "sched_base s4 q' idle" "same_tcb s3 s4" "resumed ?sw q' s3 s4"
    using maybe_switch [OF s3(2), of ?sw] by blast
  have "up_block_task t st s = Some s4"
    using s1(1) s2(1) s3(1) s4(1) by (simp add: up_block_task_def)
  moreover have "?sw \<longleftrightarrow> hd (q' G_readytorun) \<noteq> hd (q G_readytorun)"
  proof (cases "hd (q G_readytorun) = t")
    case True
    have "q' G_readytorun \<noteq> []" using s3(2) ready_nonempty by (auto simp: sched_base_def)
    then have "hd (q' G_readytorun) \<in> set (q' G_readytorun)" by simp
    moreover have "t \<notin> set (q' G_readytorun)"
      using st by (simp add: q' q2_def q_merge_def q_enter_def q_remove_def)
    ultimately have "hd (q' G_readytorun) \<noteq> t" by metis
    then show ?thesis using True by simp
  next
    case False
    then have "hd (q2 G_readytorun) = hd (q G_readytorun)"
      using hd_q_remove [of q G_readytorun t] ne st(2) by (simp add: q2_def q_enter_def)
    then show ?thesis using False by simp
  qed
  moreover have "sched_ok s4 q' idle"
    using s4(2) by (simp add: sched_ok_def q' q_merge_def)
  moreover have "same_tcb s s4" using s1(4) s2(3) s3(3) s4(3) by (simp add: same_tcb_def)
  ultimately show ?thesis using s4(4) s3(4) s2(4) s1(5) by (simp add: resumed_def)
qed

text \<open>A task made ready: the lock invariant.\<close>

definition lock_ok :: "(nat \<Rightarrow> int) \<Rightarrow> queues \<Rightarrow> bool" where
  "lock_ok lk q \<longleftrightarrow> (lk (hd (q G_readytorun)) \<le> 0 \<longrightarrow> q G_pendingtasks = [])"

lemma sched_ok_base: "sched_ok s q idle \<longleftrightarrow> sched_base s q idle \<and> lock_ok (lockcount s) q"
  by (simp add: sched_ok_def lock_ok_def)

lemma hd_q_ready:
  assumes "q G_readytorun \<noteq> []"
  shows "hd (q_ready pr lk t q G_readytorun) =
    (if \<not> held_back pr lk t q \<and> pr (hd (q G_readytorun)) < pr t then t else hd (q G_readytorun))"
  using assms by (simp add: q_ready_def q_enter_def held_back_def hd_insert_prio)

lemma lock_ok_ready:
  assumes "lock_ok lk q" "q G_readytorun \<noteq> []"
  shows "lock_ok lk (q_ready pr lk t q)"
proof (cases "held_back pr lk t q")
  case True
  then have "lk (hd (q G_readytorun)) > 0" by (simp add: held_back_def)
  then show ?thesis using True hd_q_ready [of q pr lk t, OF assms(2)] by (simp add: lock_ok_def)
next
  case False
  have p: "q_ready pr lk t q G_pendingtasks = q G_pendingtasks"
    using False by (simp add: q_ready_def q_enter_def)
  show ?thesis
  proof (cases "pr (hd (q G_readytorun)) < pr t")
    case True
    then have "lk (hd (q G_readytorun)) \<le> 0" using False by (simp add: held_back_def)
    then show ?thesis using assms(1) p by (simp add: lock_ok_def)
  next
    case nt: False
    then show ?thesis using assms(1) p hd_q_ready [of q pr lk t, OF assms(2)] by (simp add: lock_ok_def)
  qed
qed

lemma lock_ok_remove:
  assumes "lock_ok lk q" "q G_readytorun \<noteq> []" "hd (q G_readytorun) \<noteq> t"
  shows "lock_ok lk (q_remove t q)"
  using assms hd_q_remove [of q G_readytorun t] by (auto simp: lock_ok_def q_remove_def)

lemma lock_ok_merge: "lock_ok lk (q_merge pr q)"
  by (simp add: lock_ok_def q_merge_def)

lemma base_ready_ne: "sched_base s q idle \<Longrightarrow> q G_readytorun \<noteq> []"
  using ready_nonempty [of "sched_priority s" "task_state s" q idle] by (simp add: sched_base_def)

lemma base_prio:
  "sched_base s q idle \<Longrightarrow> t \<in> set (q L) \<Longrightarrow> t \<noteq> idle \<Longrightarrow> 1 \<le> sched_priority s t \<and> sched_priority s t \<le> 255"
  using queues_okD(3) [of "sched_priority s" "task_state s" q idle t L] by (simp add: sched_base_def)

lemma up_unblock_task_spec:
  assumes ok: "sched_ok s q idle" and t: "t \<in> set (q L)" "L \<noteq> G_readytorun"
  defines "q' \<equiv> q_unblock (sched_priority s) (lockcount s) t q"
  shows "\<exists>s'. up_unblock_task t s = Some s' \<and> sched_ok s' q' idle \<and> same_tcb s s' \<and>
     resumed (hd (q' G_readytorun) \<noteq> hd (q G_readytorun)) q' s s'"
proof -
  have b: "sched_base s q idle" and lo: "lock_ok (lockcount s) q" using ok by (auto simp: sched_ok_base)
  have ti: "t \<noteq> idle" using idle_only_ready [OF b] t by auto
  note pr = base_prio [OF b t(1) ti]
  have ne: "q G_readytorun \<noteq> []" by (rule base_ready_ne [OF b])
  have "t \<notin> set (q G_readytorun)"
    using queues_ok_disjoint [of "sched_priority s" "task_state s" q idle t L G_readytorun] b t
    by (auto simp: sched_base_def)
  then have ht: "hd (q G_readytorun) \<noteq> t" using hd_in_set [OF ne] by auto
  obtain s1 where s1: "nxsched_remove_blocked t s = Some s1" "sched_base s1 (q_remove t q) idle"
    "unlisted t (q_remove t q)" "same_tcb s s1" "timeslice s1 = timeslice s"
    using remove_blocked [OF b t] by blast
  have f1: "sched_priority s1 = sched_priority s" "lockcount s1 = lockcount s"
    using s1(4) by (simp_all add: same_tcb_def)
  let ?sw = "\<not> held_back (sched_priority s) (lockcount s) t (q_remove t q) \<and>
      sched_priority s (hd (q_remove t q G_readytorun)) < sched_priority s t"
  obtain s2 where s2: "nxsched_add_readytorun t s1 = Some (?sw, s2)" "sched_base s2 q' idle"
    "same_tcb s1 s2" "timeslice s2 = timeslice s1"
    using add_ready [OF s1(2,3)] pr unfolding f1 q'_def q_unblock_def by blast
  obtain s3 where s3: "(if ?sw then switch_to_head s2 else Some s2) = Some s3"
    "sched_base s3 q' idle" "same_tcb s2 s3" "resumed ?sw q' s2 s3"
    using maybe_switch [OF s2(2), of ?sw] by blast
  have ne1: "q_remove t q G_readytorun \<noteq> []" by (rule base_ready_ne [OF s1(2)])
  have hr: "hd (q_remove t q G_readytorun) = hd (q G_readytorun)" by (rule hd_q_remove [of q G_readytorun, OF ne ht])
  have "?sw \<longleftrightarrow> hd (q' G_readytorun) \<noteq> hd (q G_readytorun)"
    using hd_q_ready [of "q_remove t q" "sched_priority s" "lockcount s" t, OF ne1] ht
    unfolding q'_def q_unblock_def hr by auto
  moreover have "up_unblock_task t s = Some s3"
    using s1(1) s2(1) s3(1) by (simp add: up_unblock_task_def)
  moreover have "same_tcb s s3" using s1(4) s2(3) s3(3) by (simp add: same_tcb_def)
  moreover have "lock_ok (lockcount s) q'"
    unfolding q'_def q_unblock_def by (rule lock_ok_ready [OF lock_ok_remove [OF lo ne ht] ne1])
  ultimately show ?thesis using s3(2,4) s2(4) s1(5) by (simp add: resumed_def sched_ok_base same_tcb_def)
qed

lemma ready_state:
  assumes "sched_base s q idle" "t \<in> set (q G_readytorun)"
  shows "task_state s t = TSTATE_TASK_READYTORUN \<or> task_state s t = TSTATE_TASK_RUNNING"
    "task_state s t = TSTATE_TASK_RUNNING \<longleftrightarrow> t = hd (q G_readytorun)"
  using state_list [OF assms] by (cases "task_state s t"; simp)+

lemma lock_ok_reprio:
  assumes lo: "lock_ok lk q" and ne: "q_remove t q G_readytorun \<noteq> []" and hq: "q G_readytorun \<noteq> []"
  shows "lock_ok lk (q_reprio pr lk t q)"
proof (cases "reprio_switch pr lk t q")
  case True
  then show ?thesis by (simp add: q_reprio_def lock_ok_merge)
next
  case False
  have q': "q_reprio pr lk t q = q_ready pr lk t (q_remove t q)"
    using False by (simp add: q_reprio_def q_unblock_def)
  show ?thesis
  proof (cases "hd (q G_readytorun) = t")
    case True
    then have nh: "\<not> held_back pr lk t (q_remove t q)" and
      "hd (q_ready pr lk t (q_remove t q) G_readytorun) = t"
      using False hd_q_ready [of "q_remove t q", OF ne] by (auto simp: reprio_switch_def)
    moreover have "q_ready pr lk t (q_remove t q) G_pendingtasks = q_remove t q G_pendingtasks"
      using nh by (simp add: q_ready_def q_enter_def)
    ultimately show ?thesis using lo True unfolding q' by (simp add: lock_ok_def q_remove_def)
  next
    case ht: False
    show ?thesis unfolding q' by (rule lock_ok_ready [of lk "q_remove t q", OF lock_ok_remove [OF lo hq ht] ne])
  qed
qed

lemma up_reprioritize_rtr_spec:
  assumes ok: "sched_ok s q idle" and t: "t \<in> set (q G_readytorun)" "t \<noteq> idle" and p: "1 \<le> p" "p \<le> 255"
  defines "pr \<equiv> (sched_priority s)(t := p)"
  defines "q' \<equiv> q_reprio pr (lockcount s) t q"
  shows "\<exists>s'. up_reprioritize_rtr t p s = Some s' \<and> sched_ok s' q' idle \<and> same_tcb (set_prio t p s) s' \<and>
     resumed (reprio_switch pr (lockcount s) t q) q' s s'"
proof -
  let ?lk = "lockcount s" and ?q0 = "q_remove t q"
  have b: "sched_base s q idle" and lo: "lock_ok ?lk q" using ok by (auto simp: sched_ok_base)
  have guard: "\<not> (\<not> (task_state s t = TSTATE_TASK_READYTORUN \<or> task_state s t = TSTATE_TASK_RUNNING) \<or>
      int p < SCHED_PRIORITY_MIN)"
    using ready_state(1) [OF b t(1)] p by (simp add: SCHED_PRIORITY_MIN_def)
  obtain s1 where s1: "nxsched_remove_readytorun t s = Some (hd (q G_readytorun) = t, s1)"
    "sched_base s1 ?q0 idle" "unlisted t ?q0" "same_tcb s s1" "timeslice s1 = timeslice s"
    using remove_ready [OF b t] by blast
  define s2 where "s2 = set_prio t p s1"
  have b2: "sched_base s2 ?q0 idle" unfolding s2_def by (rule sched_base_unlisted(2) [OF s1(2,3)])
  have f2: "sched_priority s2 = pr" "lockcount s2 = ?lk" "timeslice s2 = timeslice s" "same_tcb (set_prio t p s) s2"
    using s1(4,5) by (simp_all add: s2_def set_prio_def same_tcb_def pr_def)
  have prt: "pr t = p" by (simp add: pr_def)
  let ?sw2 = "\<not> held_back pr ?lk t ?q0 \<and> pr (hd (?q0 G_readytorun)) < pr t"
  define q3 where "q3 = q_ready pr ?lk t ?q0"
  obtain s3 where s3: "nxsched_add_readytorun t s2 = Some (?sw2, s3)" "sched_base s3 q3 idle"
    "same_tcb s2 s3" "timeslice s3 = timeslice s2"
    using add_ready [OF b2 s1(3)] p unfolding f2(1,2) prt q3_def by blast
  have pr3: "sched_priority s3 = pr" using s3(3) f2 by (simp add: same_tcb_def)
  have sw: "reprio_switch pr ?lk t q \<longleftrightarrow> (hd (q G_readytorun) = t) \<noteq> ?sw2"
    by (simp add: reprio_switch_def Let_def)
  have q': "q' = (if reprio_switch pr ?lk t q then q_merge pr q3 else q3)"
    by (simp add: q'_def q_reprio_def q_unblock_def q3_def Let_def)
  have lo': "lock_ok ?lk q'"
    unfolding q'_def by (rule lock_ok_reprio [OF lo base_ready_ne [OF s1(2)] base_ready_ne [OF b]])
  have lk': "lockcount s' = ?lk" if "same_tcb (set_prio t p s) s'" for s'
    using that by (simp add: same_tcb_def set_prio_def)
  show ?thesis
  proof (cases "reprio_switch pr ?lk t q")
    case True
    obtain s4 where s4: "(if dq_head (tlists s3 G_pendingtasks) \<noteq> None then nxsched_merge_pending s3 else Some (False, s3)) =
        Some (hd (q_merge pr q3 G_readytorun) \<noteq> hd (q3 G_readytorun), s4)"
      "sched_base s4 (q_merge pr q3) idle" "same_tcb s3 s4" "timeslice s4 = timeslice s3"
      using maybe_merge [OF s3(2)] unfolding pr3 by blast
    have m: "(if dq_head (tlists s3 G_pendingtasks) \<noteq> None
         then map_option snd (nxsched_merge_pending s3) else Some s3) = Some s4"
      using s4(1) by (auto split: if_splits)
    have b4: "sched_base s4 q' idle" using s4(2) q' True by simp
    obtain s5 where s5: "switch_to_head s4 = Some s5" "sched_base s5 q' idle" "same_tcb s4 s5" "resumed True q' s4 s5"
      using switch_to_head_spec [OF b4] by blast
    have "up_reprioritize_rtr t p s = Some s5"
      unfolding up_reprioritize_rtr_def if_not_P [OF guard] s1(1) Option.bind.simps prod.case Let_def
        s2_def [symmetric] s3(1) if_P [OF True [unfolded sw]] m s5(1) ..
    moreover have "same_tcb (set_prio t p s) s5" using f2(4) s3(3) s4(3) s5(3) by (simp add: same_tcb_def)
    ultimately show ?thesis
      using s5(2,4) lo' lk' True s4(4) s3(4) f2(3) by (simp add: sched_ok_base resumed_def)
  next
    case False
    have b3: "sched_base s3 q' idle" using s3(2) q' False by simp
    have "up_reprioritize_rtr t p s = Some s3"
      unfolding up_reprioritize_rtr_def if_not_P [OF guard] s1(1) Option.bind.simps prod.case Let_def
        s2_def [symmetric] s3(1) if_not_P [OF False [unfolded sw]] ..
    moreover have "same_tcb (set_prio t p s) s3" using f2(4) s3(3) by (simp add: same_tcb_def)
    ultimately show ?thesis
      using b3 lo' lk' False s3(4) f2(3) by (simp add: sched_ok_base resumed_def)
  qed
qed

lemma up_release_pending_spec:
  assumes b: "sched_base s q idle"
  defines "q' \<equiv> q_merge (sched_priority s) q"
  shows "\<exists>s'. up_release_pending s = Some s' \<and> sched_ok s' q' idle \<and> same_tcb s s' \<and>
     resumed (hd (q' G_readytorun) \<noteq> hd (q G_readytorun)) q' s s'"
proof -
  let ?sw = "hd (q' G_readytorun) \<noteq> hd (q G_readytorun)"
  obtain s1 where s1: "nxsched_merge_pending s = Some (?sw, s1)" "sched_base s1 q' idle"
    "same_tcb s s1" "timeslice s1 = timeslice s"
    using nxsched_merge_pending_spec [OF b] by (auto simp: q'_def q_merge_def)
  obtain s2 where s2: "(if ?sw then switch_to_head s1 else Some s1) = Some s2"
    "sched_base s2 q' idle" "same_tcb s1 s2" "resumed ?sw q' s1 s2"
    using maybe_switch [OF s1(2), of ?sw] by blast
  have "up_release_pending s = Some s2" using s1(1) s2(1) by (simp add: up_release_pending_def)
  moreover have "lock_ok (lockcount s2) q'" by (simp add: q'_def lock_ok_merge)
  ultimately show ?thesis
    using s2 s1 same_tcb_trans by (auto simp: sched_ok_base resumed_def)
qed

end
