(* ===== verification/Sched_Prio.thy ===== *)
theory Sched_Prio
  imports Sched_Switch
begin

text \<open>
  The preemption lock, changes of priority, yielding and time slices: refinement of the abstract
  scheduler.
\<close>

section \<open>The preemption lock\<close>

lemma set_lockcount_fields [simp]:
  "lockcount (set_lockcount t v s) = (lockcount s)(t := v)"
  "sched_priority (set_lockcount t v s) = sched_priority s"
  "timeslice (set_lockcount t v s) = timeslice s"
  "tlists (set_lockcount t v s) = tlists s"
  by (simp_all add: set_lockcount_def)

lemma set_lockcount_twice [simp]: "set_lockcount t v (set_lockcount t w s) = set_lockcount t v s"
  by (simp add: set_lockcount_def)

lemma sched_lock_spec:
  assumes ok: "sched_ok s q idle" and r: "0 \<le> lockcount s r" "lockcount s r < 32767" "r = hd (q G_readytorun)"
  shows "sched_lock False s = set_lockcount r (lockcount s r + 1) s" "sched_ok (sched_lock False s) q idle"
proof -
  have b: "sched_base s q idle" using ok by (simp add: sched_ok_def)
  have w: "int16 (lockcount s r + 1) = lockcount s r + 1" using r by (intro sint_cast_id) auto
  show e: "sched_lock False s = set_lockcount r (lockcount s r + 1) s"
    using this_task_hd [OF b] r(3) w by (simp add: sched_lock_def)
  show "sched_ok (sched_lock False s) q idle"
    unfolding e sched_ok_def using b r(1,3) by simp
qed

definition q_unlock :: "(nat \<Rightarrow> nat) \<Rightarrow> (nat \<Rightarrow> int) \<Rightarrow> queues \<Rightarrow> queues" where
  "q_unlock pr lk q = (if lk (hd (q G_readytorun)) > 1 then q else q_merge pr q)"

lemma sched_unlock_spec:
  assumes ok: "sched_ok s q idle" and r: "r = hd (q G_readytorun)"
  defines "q' \<equiv> q_unlock (sched_priority s) (lockcount s) q"
  shows "\<exists>s'. sched_unlock False s = Some s' \<and> sched_ok s' q' idle \<and>
     same_tcb (set_lockcount r (max 0 (lockcount s r - 1)) s) s' \<and>
     resumed (hd (q' G_readytorun) \<noteq> r) q' s s'"
proof -
  have b: "sched_base s q idle" using ok by (simp add: sched_ok_def)
  have tt: "this_task s = Some r" using this_task_hd [OF b] r by simp
  show ?thesis
  proof (cases "lockcount s r > 1")
    case True
    let ?s = "set_lockcount r (lockcount s r - 1) s"
    have "sched_unlock False s = Some ?s"
      using tt True by (simp add: sched_unlock_def Let_def)
    moreover have "sched_ok ?s q' idle"
      using b True r unfolding sched_ok_def by (simp add: q'_def q_unlock_def)
    moreover have "max 0 (lockcount s r - 1) = lockcount s r - 1" using True by simp
    ultimately show ?thesis
      using True r by (simp add: resumed_def q'_def q_unlock_def)
  next
    case False
    let ?s = "set_lockcount r 0 s"
    have q': "q' = q_merge (sched_priority s) q" using False r by (simp add: q'_def q_unlock_def)
    have m: "max 0 (lockcount s r - 1) = 0" using False by simp
    have bs: "sched_base ?s q idle" using b by simp
    have e: "sched_unlock False s =
        (if dq_head (tlists s G_pendingtasks) \<noteq> None then up_release_pending ?s else Some ?s)"
      using tt False by (simp add: sched_unlock_def Let_def)
    have hd: "dq_head (tlists s G_pendingtasks) = hd_opt (q G_pendingtasks)"
      using b sched_listsD(2) by (simp add: sched_base_def)
    show ?thesis
    proof (cases "q G_pendingtasks = []")
      case True
      then have "q' = q" by (simp add: q' q_merge_none)
      moreover have "sched_unlock False s = Some ?s" unfolding e hd using True by simp
      moreover have "sched_ok ?s q idle" using bs True by (simp add: sched_ok_def)
      ultimately show ?thesis unfolding m using r by (simp add: resumed_def)
    next
      case False
      then have "sched_unlock False s = up_release_pending ?s" unfolding e hd by simp
      moreover obtain s' where "up_release_pending ?s = Some s'" "sched_ok s' q' idle" "same_tcb ?s s'"
        "resumed (hd (q' G_readytorun) \<noteq> r) q' ?s s'"
        using up_release_pending_spec [OF bs] unfolding q' r set_lockcount_fields by blast
      moreover have "resumed c q' ?s s' \<longleftrightarrow> resumed c q' s s'" for c by (simp add: resumed_def)
      ultimately show ?thesis unfolding m by auto
    qed
  qed
qed

section \<open>Changes of priority\<close>

definition q_setprio :: "(nat \<Rightarrow> nat) \<Rightarrow> (nat \<Rightarrow> int) \<Rightarrow> nat \<Rightarrow> nat \<Rightarrow> tasklist \<Rightarrow> queues \<Rightarrow> queues" where
  "q_setprio pr lk t p L q =
     (if L = G_readytorun
      then if t = hd (q L)
           then if p \<le> pr (q L ! 1) then q_reprio (pr(t := p)) lk t q else q
           else if pr (hd (q L)) < p then q_reprio (pr(t := p)) lk t q
           else q_unblock (pr(t := p)) lk t q
      else if TLIST_ISPRIORITIZED (list_state L) then q_enter (pr(t := p)) L t (q_remove t q)
      else q)"

lemma second_ready:
  assumes b: "sched_base s q idle" and t: "t = hd (q G_readytorun)" "t \<noteq> idle"
  obtains rest where "q G_readytorun = t # q G_readytorun ! 1 # rest"
    "flink (tlinks s) t = Some (q G_readytorun ! 1)"
proof -
  obtain rs where rs: "q G_readytorun = rs @ [idle]"
    using queues_okD(1) [of "sched_priority s" "task_state s" q idle] b by (auto simp: sched_base_def)
  then obtain x rest where e: "q G_readytorun = t # x # rest" using t by (cases rs; cases "tl rs") auto
  have "dq_list (tlinks s, tlists s G_readytorun) ([] @ t # x # rest)"
    using sched_listsD(1) [of s q G_readytorun] b e by (simp add: sched_base_def)
  then have "flink (tlinks s) t = Some x" using dq_list_links(1) by fastforce
  then show ?thesis using that e by simp
qed

lemma running_setpriority_spec:
  assumes ok: "sched_ok s q idle" and t: "t = hd (q G_readytorun)" "t \<noteq> idle" and p: "1 \<le> p" "p \<le> 255"
  shows "\<exists>s'. nxsched_running_setpriority t p s = Some s' \<and>
    sched_ok s' (q_setprio (sched_priority s) (lockcount s) t p G_readytorun q) idle \<and> same_tcb (set_prio t p s) s'"
proof -
  have b: "sched_base s q idle" using ok by (simp add: sched_ok_def)
  obtain rest where rest: "q G_readytorun = t # q G_readytorun ! 1 # rest"
    "flink (tlinks s) t = Some (q G_readytorun ! 1)" by (rule second_ready [OF b t])
  have tin: "t \<in> set (q G_readytorun)" by (subst rest(1)) simp
  show ?thesis
  proof (cases "p \<le> sched_priority s (q G_readytorun ! 1)")
    case True
    then show ?thesis using up_reprioritize_rtr_spec [OF ok tin t(2) p] rest(2) t(1)
      by (auto simp: nxsched_running_setpriority_def q_setprio_def)
  next
    case False
    have o: "queues_ok (sched_priority s) (task_state s) q idle" and l: "sched_lists s q"
      using b by (auto simp: sched_base_def)
    let ?pr = "(sched_priority s)(t := p)"
    have nt: "t \<notin> set (q M)" if "M \<noteq> G_readytorun" for M
      using queues_ok_disjoint [OF o tin] that by blast
    have "queues_ok ?pr (task_state s) (q(G_readytorun := q G_readytorun)) idle"
    proof (rule queues_ok_upd [OF o])
      note D = queues_okD [OF o]
      show "?pr x = sched_priority s x \<and> task_state s x = task_state s x" if "M \<noteq> G_readytorun" "x \<in> set (q M)" for x M
        using that nt by auto
      show "1 \<le> ?pr x \<and> ?pr x \<le> 255" if "x \<in> set (q G_readytorun)" "x \<noteq> idle" for x
        using that D(3) p by auto
      have ds: "desc (sched_priority s) (t # q G_readytorun ! 1 # rest)" using D(4) [of G_readytorun] rest(1) by simp
      have "distinct (t # q G_readytorun ! 1 # rest)" using sched_listsD(4) [OF l, of G_readytorun] rest(1) by simp
      then have dp: "desc ?pr (t # q G_readytorun ! 1 # rest)"
        using ds False unfolding desc_def by (auto intro: sorted_wrt_mono_rel [rotated])
      show "desc ?pr (q G_readytorun)" by (subst rest(1)) (rule dp)
      show "task_state s x = state_in (q(G_readytorun := q G_readytorun)) G_readytorun x"
        if "x \<in> set (q G_readytorun)" for x using D(5) [OF that] by simp
      show "\<exists>rs. q G_readytorun = rs @ [idle] \<and> ?pr idle = 0" using D(1,2) t(2) by auto
    qed
    then have "sched_base (set_prio t p s) q idle"
      using sched_lists_cong [OF l, of "set_prio t p s"] by (simp add: sched_base_def set_prio_def)
    then have "sched_ok (set_prio t p s) q idle" using ok by (simp add: sched_ok_def set_prio_def)
    then show ?thesis using False rest(2) t(1) by (simp add: nxsched_running_setpriority_def q_setprio_def)
  qed
qed

lemma readytorun_setpriority_spec:
  assumes ok: "sched_ok s q idle" and t: "t \<in> set (q G_readytorun)" "t \<noteq> hd (q G_readytorun)" "t \<noteq> idle"
    and p: "1 \<le> p" "p \<le> 255"
  shows "\<exists>s'. nxsched_readytorun_setpriority t p s = Some s' \<and>
    sched_ok s' (q_setprio (sched_priority s) (lockcount s) t p G_readytorun q) idle \<and> same_tcb (set_prio t p s) s'"
proof -
  have b: "sched_base s q idle" and lo: "lock_ok (lockcount s) q" using ok by (auto simp: sched_ok_base)
  have tt: "this_task s = Some (hd (q G_readytorun))" by (rule this_task_hd [OF b])
  show ?thesis
  proof (cases "sched_priority s (hd (q G_readytorun)) < p")
    case True
    then show ?thesis using up_reprioritize_rtr_spec [OF ok t(1,3) p] tt t(2)
      by (auto simp: nxsched_readytorun_setpriority_def q_setprio_def)
  next
    case False
    obtain s1 where s1: "nxsched_remove_readytorun t s = Some (hd (q G_readytorun) = t, s1)"
      "sched_base s1 (q_remove t q) idle" "unlisted t (q_remove t q)" "same_tcb s s1"
      using remove_ready [OF b t(1,3)] by blast
    let ?s2 = "set_prio t p s1" and ?pr = "(sched_priority s)(t := p)"
    have b2: "sched_base ?s2 (q_remove t q) idle" by (rule sched_base_unlisted(2) [OF s1(2,3)])
    have f2: "sched_priority ?s2 = ?pr" "lockcount ?s2 = lockcount s" "same_tcb (set_prio t p s) ?s2"
      using s1(4) by (simp_all add: set_prio_def same_tcb_def)
    obtain c s3 where s3: "nxsched_add_readytorun t ?s2 = Some (c, s3)"
      "sched_base s3 (q_unblock ?pr (lockcount s) t q) idle" "same_tcb ?s2 s3"
      using add_ready [OF b2 s1(3)] p unfolding f2(1,2) q_unblock_def by auto
    have "lock_ok (lockcount s) (q_unblock ?pr (lockcount s) t q)"
      unfolding q_unblock_def
      by (rule lock_ok_ready [OF lock_ok_remove [OF lo base_ready_ne [OF b]] base_ready_ne [OF s1(2)]])
        (use t(2) in simp)
    then have "sched_ok s3 (q_unblock ?pr (lockcount s) t q) idle"
      using s3(2,3) f2(2) by (simp add: sched_ok_base same_tcb_def)
    moreover have "nxsched_readytorun_setpriority t p s = Some s3"
      using tt False s1(1) s3(1) by (simp add: nxsched_readytorun_setpriority_def)
    moreover have "same_tcb (set_prio t p s) s3" by (rule same_tcb_trans [OF f2(3) s3(3)])
    ultimately show ?thesis using False t(2) by (simp add: q_setprio_def)
  qed
qed

lemma blocked_setpriority_spec:
  assumes ok: "sched_ok s q idle" and t: "t \<in> set (q L)" "L \<noteq> G_readytorun" and p: "1 \<le> p" "p \<le> 255"
  shows "\<exists>s'. nxsched_blocked_setpriority t p s = Some s' \<and>
    sched_ok s' (q_setprio (sched_priority s) (lockcount s) t p L q) idle \<and> same_tcb (set_prio t p s) s'"
proof -
  have b: "sched_base s q idle" using ok by (simp add: sched_ok_def)
  have o: "queues_ok (sched_priority s) (task_state s) q idle" and l: "sched_lists s q"
    using b by (auto simp: sched_base_def)
  have ts: "task_state s t = list_state L" using queues_okD(5) [OF o t(1)] t(2) by (simp add: state_in_def)
  let ?pr = "(sched_priority s)(t := p)"
  have rd: "t \<notin> set (q G_readytorun)" using queues_ok_disjoint [OF o t(1)] t(2) by blast
  then have "idle \<noteq> t" using ready_nonempty [OF o] by auto
  show ?thesis
  proof (cases "TLIST_ISPRIORITIZED (list_state L)")
    case True
    obtain xs ys where q: "q L = xs @ t # ys" using t(1) by (auto simp: in_set_conv_decomp)
    define s1 where "s1 = set_prio t p (put_list L (dq_rem t (get_list L s)) s)"
    define q1 where "q1 = q(L := xs @ ys)"
    have l1: "sched_lists s1 q1" and u: "unlisted t q1"
      using sched_lists_rem [OF l q] sched_lists_cong [of _ q1 s1] by (simp_all add: s1_def q1_def set_prio_def)
    have qr: "q_remove t q = q1" unfolding q1_def by (rule q_remove_split [of q L, OF q u [unfolded q1_def]])
    have "queues_ok (sched_priority s) ((task_state s)(t := task_state s t)) q1 idle"
      unfolding q1_def by (rule queues_ok_remove [OF o t(2) q u [unfolded q1_def]])
    from queues_ok_unlisted [OF this u, of p "task_state s t"]
    have o1: "queues_ok ?pr (task_state s) q1 idle" by simp
    have f1: "sched_priority s1 = ?pr" "task_state s1 = task_state s" "same_tcb (set_prio t p s) s1"
      by (simp_all add: s1_def set_prio_def put_list_def same_tcb_def)
    obtain s2 where s2: "nxsched_add_prioritized t L s1 = Some (hd (insert_prio ?pr t (q1 L)) = t, s2)"
      "sched_lists s2 (q1(L := insert_prio ?pr t (q1 L)))" "lists_only s1 s2"
      using nxsched_add_prioritized_spec [OF l1 u, of L] unfolding f1 by blast
    have "queues_ok ?pr ((task_state s)(t := list_state L)) (q1(L := insert_prio ?pr t (q1 L))) idle"
      by (rule queues_ok_insert [OF o1 u _ _ t(2) True]) (use p in simp_all)
    moreover have "(task_state s)(t := list_state L) = task_state s" using ts by auto
    ultimately have "sched_base s2 (q1(L := insert_prio ?pr t (q1 L))) idle"
      using s2(2,3) f1 by (simp add: sched_base_def lists_only_def)
    moreover have "q1(L := insert_prio ?pr t (q1 L)) = q_setprio (sched_priority s) (lockcount s) t p L q"
      using t(2) True by (simp add: q_setprio_def q_enter_def enqueue_def qr)
    moreover have "nxsched_blocked_setpriority t p s = Some s2"
      using True ts s2(1) by (simp add: nxsched_blocked_setpriority_def s1_def Let_def)
    moreover have "same_tcb (set_prio t p s) s2" using f1(3) s2(3) by (simp add: same_tcb_def lists_only_def)
    moreover have "lock_ok (lockcount s) (q1(L := insert_prio ?pr t (q1 L)))"
      using ok t q by (auto simp: sched_ok_def lock_ok_def q1_def)
    ultimately show ?thesis by (auto simp: sched_ok_base same_tcb_def set_prio_def)
  next
    case False
    have "queues_ok ?pr (task_state s) (q(L := q L)) idle"
    proof (rule queues_ok_upd [OF o])
      note D = queues_okD [OF o]
      show "?pr x = sched_priority s x \<and> task_state s x = task_state s x" if "M \<noteq> L" "x \<in> set (q M)" for x M
        using queues_ok_disjoint [OF o t(1), of M] that by auto
      show "1 \<le> ?pr x \<and> ?pr x \<le> 255" if "x \<in> set (q L)" "x \<noteq> idle" for x
        using that D(3) p by auto
      show "task_state s x = state_in (q(L := q L)) L x" if "x \<in> set (q L)" for x using D(5) [OF that] by simp
    qed (use False t(2) in simp_all)
    then have "sched_base (set_prio t p s) q idle"
      using sched_lists_cong [OF l, of "set_prio t p s"] by (simp add: sched_base_def set_prio_def)
    then have "sched_ok (set_prio t p s) q idle" using ok by (simp add: sched_ok_def set_prio_def)
    then show ?thesis using False ts t(2) by (simp add: nxsched_blocked_setpriority_def q_setprio_def Let_def)
  qed
qed

lemma nxsched_set_priority_spec:
  assumes ok: "sched_ok s q idle" and t: "t \<in> set (q L)" "t \<noteq> idle" and p: "1 \<le> p" "p \<le> 255"
  shows "\<exists>s'. nxsched_set_priority t (int p) s = Some (0, s') \<and>
    sched_ok s' (q_setprio (sched_priority s) (lockcount s) t p L q) idle \<and> same_tcb (set_prio t p s) s'"
proof -
  have b: "sched_base s q idle" using ok by (simp add: sched_ok_def)
  note st = state_list [OF b t(1)]
  have rng: "\<not> (int p < SCHED_PRIORITY_MIN \<or> int p > SCHED_PRIORITY_MAX)"
    using p by (simp add: SCHED_PRIORITY_MIN_def SCHED_PRIORITY_MAX_def)
  show ?thesis
  proof (cases "L = G_readytorun")
    case True
    show ?thesis
    proof (cases "t = hd (q G_readytorun)")
      case h: True
      then have "task_state s t = TSTATE_TASK_RUNNING" using st(2) True by simp
      then show ?thesis using running_setpriority_spec [OF ok h t(2) p] True rng
        by (auto simp: nxsched_set_priority_def)
    next
      case h: False
      then have "task_state s t = TSTATE_TASK_READYTORUN" using st True by (cases "task_state s t") auto
      then show ?thesis using readytorun_setpriority_spec [OF ok _ h t(2) p] t(1) True rng
        by (auto simp: nxsched_set_priority_def)
    qed
  next
    case False
    then have "task_state s t \<noteq> TSTATE_TASK_RUNNING" "task_state s t \<noteq> TSTATE_TASK_READYTORUN"
      using st by auto
    then show ?thesis using blocked_setpriority_spec [OF ok t(1) False p] rng
      by (cases "task_state s t") (auto simp: nxsched_set_priority_def)
  qed
qed

section \<open>Time slices\<close>

text \<open>The running task goes behind its peers.\<close>

definition q_rotate :: "(nat \<Rightarrow> nat) \<Rightarrow> queues \<Rightarrow> queues" where
  "q_rotate pr q =
     q(G_readytorun := insert_prio pr (hd (q G_readytorun)) (tl (q G_readytorun)))"

lemma q_reprio_head:
  assumes q: "q G_readytorun = t # n # rest" and u: "unlisted t (q(G_readytorun := n # rest))"
    and "pr t \<le> pr n"
  shows "q_reprio pr lk t q = q_merge pr (q_rotate pr q)" "reprio_switch pr lk t q"
proof -
  have r: "q_remove t q = q(G_readytorun := n # rest)"
    using q_remove_split [of q G_readytorun "[]" t "n # rest"] q u by simp
  then have nh: "\<not> held_back pr lk t (q_remove t q)" using assms(3) by (simp add: held_back_def)
  show sw: "reprio_switch pr lk t q"
    using q r assms(3) by (simp add: reprio_switch_def Let_def)
  have "q_unblock pr lk t q = q_rotate pr q"
    using nh by (simp add: q_unblock_def q_ready_def q_enter_def r q_rotate_def q)
  then show "q_reprio pr lk t q = q_merge pr (q_rotate pr q)" using sw by (simp add: q_reprio_def)
qed

lemma unlisted_head:
  assumes "sched_base s q idle" "q G_readytorun = t # rest"
  shows "unlisted t (q(G_readytorun := rest))"
proof -
  have "sched_lists s q" using assms(1) by (simp add: sched_base_def)
  from sched_lists_rem(2) [of s q G_readytorun "[]" t rest, OF this] assms(2) show ?thesis by simp
qed

text \<open>\<open>sched_yield\<close>: the caller goes behind the tasks of its priority, if there are any.\<close>

lemma sched_yield_spec:
  assumes ok: "sched_ok s q idle" and t: "t = hd (q G_readytorun)" "t \<noteq> idle"
  defines "q' \<equiv> if sched_priority s t \<le> sched_priority s (q G_readytorun ! 1)
                 then q_merge (sched_priority s) (q_rotate (sched_priority s) q) else q"
  shows "\<exists>s'. sched_yield s = Some (0, s') \<and> sched_ok s' q' idle \<and> same_tcb s s'"
proof -
  have b: "sched_base s q idle" using ok by (simp add: sched_ok_def)
  obtain rest where rest: "q G_readytorun = t # q G_readytorun ! 1 # rest"
    by (rule second_ready [OF b t])
  have tin: "t \<in> set (q G_readytorun)" by (subst rest) simp
  let ?pr = "sched_priority s"
  have p: "1 \<le> ?pr t" "?pr t \<le> 255" using base_prio [OF b tin t(2)] by auto
  have pr: "?pr(t := ?pr t) = ?pr" by simp
  have "q_setprio ?pr (lockcount s) t (?pr t) G_readytorun q = q'"
    using q_reprio_head(1) [of q, OF rest unlisted_head [OF b rest]] t(1)
    by (simp add: q_setprio_def q'_def)
  moreover have "set_prio t (?pr t) s = s" by (simp add: set_prio_def)
  ultimately show ?thesis
    using nxsched_set_priority_spec [OF ok tin t(2) p] this_task_hd [OF b] t(1)
    by (auto simp: sched_yield_def)
qed

text \<open>\<open>nxsched_process_roundrobin\<close>: before the end of a time slice it only counts.\<close>

lemma set_timeslice_fields [simp]:
  "timeslice (set_timeslice t v s) = (timeslice s)(t := v)"
  "lockcount (set_timeslice t v s) = lockcount s"
  "sched_priority (set_timeslice t v s) = sched_priority s"
  "sched_rr (set_timeslice t v s) = sched_rr s"
  "tlinks (set_timeslice t v s) = tlinks s"
  by (simp_all add: set_timeslice_def)

lemma sched_ok_timeslice [simp]: "sched_ok (set_timeslice t v s) q idle \<longleftrightarrow> sched_ok s q idle"
  by (simp add: sched_ok_def)

lemma roundrobin_count:
  assumes "1 < timeslice s t" "timeslice s t < 2 ^ 31"
  shows "nxsched_process_roundrobin t 1 False s = Some (timeslice s t - 1, set_timeslice t (timeslice s t - 1) s)"
proof -
  have "uint32 (timeslice s t) = timeslice s t" "int32 1 = 1"
    "int32 (timeslice s t - 1) = timeslice s t - 1" "uint32 (timeslice s t - 1) = timeslice s t - 1"
    using assms by (auto intro: uint_cast_id sint_cast_id)
  then show ?thesis using assms by (simp add: nxsched_process_roundrobin_def Let_def)
qed

text \<open>At its end the task goes behind its peers, and the task that now runs has a full slice.\<close>

lemma roundrobin_expire:
  assumes ok: "sched_ok s q idle" and t: "t = hd (q G_readytorun)" "t \<noteq> idle"
    and m: "timeslice s t = 1" and lk: "lockcount s t \<le> 0"
  defines "q' \<equiv> if sched_priority s t \<le> sched_priority s (q G_readytorun ! 1)
                 then q_rotate (sched_priority s) q else q"
  shows "\<exists>s'. nxsched_process_roundrobin t 1 False s = Some (RR_TICKS, s') \<and> sched_ok s' q' idle \<and>
     same_tcb s s' \<and> timeslice s' (hd (q' G_readytorun)) = RR_TICKS"
proof -
  have b: "sched_base s q idle" using ok by (simp add: sched_ok_def)
  obtain rest where rest: "q G_readytorun = t # q G_readytorun ! 1 # rest"
    and fl: "flink (tlinks s) t = Some (q G_readytorun ! 1)" by (rule second_ready [OF b t])
  have tin: "t \<in> set (q G_readytorun)" by (subst rest) simp
  let ?pr = "sched_priority s" and ?s2 = "set_timeslice t RR_TICKS s"
  have p: "1 \<le> ?pr t" "?pr t \<le> 255" using base_prio [OF b tin t(2)] by auto
  have casts: "uint32 1 = 1" "int32 1 = 1" "int32 0 = 0" by (simp_all add: uint_cast_def sint_cast_def)
  have run: "nxsched_process_roundrobin t 1 False s =
      (if ?pr t \<le> ?pr (q G_readytorun ! 1)
       then do { s3 \<leftarrow> up_reprioritize_rtr t (?pr t) ?s2; Some (RR_TICKS, s3) } else Some (RR_TICKS, ?s2))"
    using m lk fl by (simp add: nxsched_process_roundrobin_def casts Let_def) (simp add: set_timeslice_def)
  show ?thesis
  proof (cases "?pr t \<le> ?pr (q G_readytorun ! 1)")
    case True
    have pend: "q_rotate ?pr q G_pendingtasks = []"
      using ok lk t(1) by (simp add: sched_ok_def q_rotate_def)
    note H = q_reprio_head [of q, OF rest unlisted_head [OF b rest] True, of "lockcount s"]
    have ok2: "sched_ok ?s2 q idle" using ok by simp
    have ident: "?pr(t := ?pr t) = ?pr" "set_prio t (?pr t) ?s2 = ?s2" by (simp_all add: set_prio_def set_timeslice_def)
    obtain s' where s': "up_reprioritize_rtr t (?pr t) ?s2 = Some s'" "sched_ok s' (q_rotate ?pr q) idle"
      "same_tcb ?s2 s'" "resumed True (q_rotate ?pr q) ?s2 s'"
      using up_reprioritize_rtr_spec [OF ok2 tin t(2) p] H q_merge_none [of "q_rotate ?pr q", OF pend]
      unfolding set_timeslice_fields ident by auto
    have "nxsched_process_roundrobin t 1 False s = Some (RR_TICKS, s')" unfolding run using True s'(1) by simp
    moreover have "same_tcb s s'" using s'(3) by (simp add: same_tcb_def)
    ultimately show ?thesis using True s'(2,4) by (simp add: q'_def resumed_def)
  next
    case False
    then show ?thesis using run ok t(1) by (simp add: q'_def same_tcb_def)
  qed
qed

text \<open>
  The group of round-robin tasks of the highest priority \<open>p\<close>, none of which holds the preemption
  lock.
\<close>

definition rr_group :: "sched \<Rightarrow> queues \<Rightarrow> nat \<Rightarrow> nat list \<Rightarrow> nat \<Rightarrow> bool" where
  "rr_group s q idle ts p \<longleftrightarrow>
     sched_ok s q idle \<and> ts \<noteq> [] \<and> 1 \<le> p \<and>
     (\<exists>lower. q G_readytorun = ts @ lower \<and> (\<forall>y \<in> set lower. sched_priority s y < p)) \<and>
     (\<forall>x \<in> set ts. sched_priority s x = p \<and> sched_rr s x \<and> lockcount s x \<le> 0)"

fun run_ticks :: "nat \<Rightarrow> sched \<Rightarrow> sched option" where
  "run_ticks 0 s = Some s"
| "run_ticks (Suc n) s = do { s' \<leftarrow> nxsched_process_scheduler s; run_ticks n s' }"

lemma run_ticks_add: "run_ticks (m + n) s = do { s' \<leftarrow> run_ticks m s; run_ticks n s' }"
proof (induction m arbitrary: s)
  case (Suc m)
  then show ?case by (cases "nxsched_process_scheduler s") auto
qed simp

lemma insert_prio_peers:
  assumes "\<forall>x \<in> set ts. pr x = pr t" "\<forall>y \<in> set lower. pr y < pr t"
  shows "insert_prio pr t (ts @ lower) = ts @ t # lower"
  using assms insert_prio_append [of ts pr t lower] by (cases lower) (auto simp: insert_prio_Cons)

lemma rr_tick:
  assumes g: "rr_group s q idle (t # ts) p" and m: "1 \<le> timeslice s t" "timeslice s t < 2 ^ 31"
  shows "\<exists>s'. nxsched_process_scheduler s = Some s' \<and>
     (if timeslice s t > 1 then rr_group s' q idle (t # ts) p \<and> timeslice s' t = timeslice s t - 1
      else \<exists>q'. rr_group s' q' idle (ts @ [t]) p \<and> timeslice s' (hd (ts @ [t])) = RR_TICKS)"
proof -
  obtain lower where lower: "q G_readytorun = t # ts @ lower" "\<forall>y \<in> set lower. sched_priority s y < p"
    and ok: "sched_ok s q idle" and p1: "1 \<le> p"
    and ts: "sched_priority s t = p" "sched_rr s t" "lockcount s t \<le> 0"
      "\<forall>x \<in> set ts. sched_priority s x = p \<and> sched_rr s x \<and> lockcount s x \<le> 0"
    using g by (auto simp: rr_group_def)
  have b: "sched_base s q idle" using ok by (simp add: sched_ok_def)
  have th: "t = hd (q G_readytorun)" using lower by simp
  have "sched_priority s idle = 0" using b queues_okD(2) by (auto simp: sched_base_def)
  then have ti: "t \<noteq> idle" using ts(1) p1 by auto
  have run: "nxsched_process_scheduler s = map_option snd (nxsched_process_roundrobin t 1 False s)"
    using this_task_hd [OF b] th ts(2) by (simp add: nxsched_process_scheduler_def)
  show ?thesis
  proof (cases "timeslice s t > 1")
    case True
    then show ?thesis
      using run roundrobin_count [OF True m(2)] g by (simp add: rr_group_def)
  next
    case False
    let ?q = "if sched_priority s t \<le> sched_priority s (q G_readytorun ! 1)
              then q_rotate (sched_priority s) q else q"
    obtain s' where s': "nxsched_process_roundrobin t 1 False s = Some (RR_TICKS, s')" "sched_ok s' ?q idle"
      "same_tcb s s'" "timeslice s' (hd (?q G_readytorun)) = RR_TICKS"
      using roundrobin_expire [OF ok th ti _ ts(3)] m(1) False by auto
    have "?q G_readytorun = (ts @ [t]) @ lower"
    proof (cases ts)
      case Nil
      obtain rest where rest: "q G_readytorun = t # q G_readytorun ! 1 # rest" by (rule second_ready [OF b th ti])
      then have "q G_readytorun ! 1 \<in> set lower" using lower(1) Nil by (cases lower) auto
      then have "sched_priority s (q G_readytorun ! 1) < p" using lower(2) by blast
      then show ?thesis using ts(1) lower(1) Nil by simp
    next
      case (Cons x xs)
      then have "sched_priority s (q G_readytorun ! 1) = p" using lower(1) ts(4) by simp
      then show ?thesis using ts(1,4) lower insert_prio_peers [of ts "sched_priority s" t lower]
        by (simp add: q_rotate_def)
    qed
    moreover have "rr_group s' ?q idle (ts @ [t]) p"
      unfolding rr_group_def using s'(2,3) p1 ts lower(2) calculation
      by (auto simp: same_tcb_def intro!: exI [of _ lower])
    ultimately show ?thesis using run s'(1,4) False by (cases ts) auto
  qed
qed

text \<open>One slice of \<open>m\<close> ticks, and \<open>k\<close> further full slices.\<close>

lemma rr_slice:
  assumes "rr_group s q idle (t # ts) p" "timeslice s t = int (Suc m)" "int (Suc m) < 2 ^ 31"
  shows "\<exists>s' q'. run_ticks (Suc m) s = Some s' \<and> rr_group s' q' idle (ts @ [t]) p \<and>
     timeslice s' (hd (ts @ [t])) = RR_TICKS"
  using assms
proof (induction m arbitrary: s)
  case 0
  then show ?case using rr_tick [OF 0(1)] by auto
next
  case (Suc m)
  have "1 \<le> timeslice s t" "timeslice s t < 2 ^ 31" "timeslice s t > 1" using Suc.prems(2,3) by auto
  then obtain s1 where s1: "nxsched_process_scheduler s = Some s1" "rr_group s1 q idle (t # ts) p"
    "timeslice s1 t = timeslice s t - 1"
    using rr_tick [OF Suc.prems(1)] by auto
  then obtain s' q' where "run_ticks (Suc m) s1 = Some s'" "rr_group s' q' idle (ts @ [t]) p"
    "timeslice s' (hd (ts @ [t])) = RR_TICKS"
    using Suc.IH [OF s1(2)] Suc.prems(2,3) by auto
  then show ?case using s1(1) by (metis Option.bind.bind_lunit run_ticks.simps(2))
qed

lemma rr_slices:
  assumes "rr_group s q idle ts p" "timeslice s (hd ts) = RR_TICKS"
  shows "\<exists>s' q'. run_ticks (k * 20) s = Some s' \<and> rr_group s' q' idle (rotate k ts) p \<and>
     timeslice s' (hd (rotate k ts)) = RR_TICKS"
proof (induction k)
  case 0
  then show ?case using assms by auto
next
  case (Suc k)
  then obtain s1 q1 where s1: "run_ticks (k * 20) s = Some s1" "rr_group s1 q1 idle (rotate k ts) p"
    "timeslice s1 (hd (rotate k ts)) = RR_TICKS" by blast
  obtain x xs where x: "rotate k ts = x # xs" using s1(2) by (cases "rotate k ts") (auto simp: rr_group_def)
  then obtain s' q' where s': "run_ticks (Suc 19) s1 = Some s'" "rr_group s' q' idle (xs @ [x]) p"
    "timeslice s' (hd (xs @ [x])) = RR_TICKS"
    using rr_slice [of s1 q1 idle x xs p 19] s1(2,3) by (auto simp: RR_TICKS_def)
  have "rotate (Suc k) ts = xs @ [x]" using x by simp
  moreover have "run_ticks (Suc k * 20) s = Some s'"
    using run_ticks_add [of "k * 20" "Suc 19" s] s1(1) s'(1) by (simp add: add.commute)
  ultimately show ?case using s'(2,3) by auto
qed

lemma rr_everyone_runs:
  assumes g: "rr_group s q idle ts p" and m: "timeslice s (hd ts) = int m" "1 \<le> m" "m \<le> 20"
    and i: "0 < i" "i < length ts"
  shows "\<exists>s'. run_ticks (m + (i - 1) * 20) s = Some s' \<and> this_task s' = Some (ts ! i)"
proof -
  obtain t us where ts: "ts = t # us" using g by (cases ts) (auto simp: rr_group_def)
  obtain m' where m': "m = Suc m'" using m(2) by (cases m) auto
  obtain s1 q1 where s1: "run_ticks m s = Some s1" "rr_group s1 q1 idle (rotate 1 ts) p"
    "timeslice s1 (hd (rotate 1 ts)) = RR_TICKS"
    using rr_slice [of s q idle t us p m'] g m(1,3) ts m' by auto
  obtain s2 q2 where s2: "run_ticks ((i - 1) * 20) s1 = Some s2" "rr_group s2 q2 idle (rotate (i - 1) (rotate 1 ts)) p"
    using rr_slices [OF s1(2,3), of "i - 1"] by blast
  have ri: "rotate (i - 1) (rotate 1 ts) = rotate i ts" using i(1) by (simp only: rotate_rotate) simp
  have "hd (q2 G_readytorun) = ts ! i" "sched_base s2 q2 idle"
  proof -
    obtain lower where "q2 G_readytorun = rotate i ts @ lower" "rotate i ts \<noteq> []" "sched_ok s2 q2 idle"
      using s2(2) unfolding ri rr_group_def by blast
    then show "hd (q2 G_readytorun) = ts ! i" "sched_base s2 q2 idle"
      using hd_rotate_conv_nth [of ts i] i ts by (auto simp: sched_ok_def)
  qed
  then have "this_task s2 = Some (ts ! i)" using this_task_hd by metis
  then show ?thesis using run_ticks_add [of m "(i - 1) * 20" s] s1(1) s2(1) by simp
qed

end
