(* ===== verification/Sched_Merge.thy ===== *)
theory Sched_Merge
  imports Sched_Ops
begin

text \<open>
  \<open>nxsched_merge_prioritized\<close> merges two prioritized lists.  The result is the one that inserting
  the tasks of the first list one by one would give.
\<close>

fun merge2 :: "(nat \<Rightarrow> nat) \<Rightarrow> nat list \<Rightarrow> nat list \<Rightarrow> nat list" where
  "merge2 pr [] ys = ys"
| "merge2 pr (x # xs) [] = x # xs"
| "merge2 pr (x # xs) (y # ys) =
     (if pr x > pr y then x # merge2 pr xs (y # ys) else y # merge2 pr (x # xs) ys)"

lemma merge2_Nil [simp]: "merge2 pr xs [] = xs"
  by (cases xs) auto

lemma set_merge2 [simp]: "set (merge2 pr xs ys) = set xs \<union> set ys"
  by (induction pr xs ys rule: merge2.induct) auto

lemma merge_prio_Cons: "\<forall>p \<in> set ps. pr p \<le> pr y \<Longrightarrow> merge_prio pr ps (y # ys) = y # merge_prio pr ps ys"
  by (induction ps arbitrary: ys) (auto simp: merge_prio_def insert_prio_Cons)

lemma merge_prio_sorted: "desc pr xs \<Longrightarrow> merge_prio pr xs [] = xs"
proof (induction xs rule: rev_induct)
  case (snoc x xs)
  have "insert_prio pr x xs = xs @ [x]"
    using insert_prio_append [of xs pr x "[]"] snoc.prems by (auto simp: desc_append)
  then show ?case using snoc by (simp add: merge_prio_def desc_append)
qed (simp add: merge_prio_def)

lemma merge2_merge_prio:
  assumes "desc pr xs" "desc pr ys"
  shows "merge2 pr xs ys = merge_prio pr xs ys"
  using assms
proof (induction pr xs ys rule: merge2.induct)
  case (2 pr x xs)
  then show ?case using merge_prio_sorted [of pr "x # xs"] by simp
next
  case (3 pr x xs y ys)
  show ?case
  proof (cases "pr x > pr y")
    case True
    then have "merge_prio pr (x # xs) (y # ys) = merge_prio pr xs (x # y # ys)"
      by (simp add: merge_prio_def insert_prio_Cons)
    also have "\<dots> = x # merge_prio pr xs (y # ys)" using 3(3) by (intro merge_prio_Cons) simp
    finally show ?thesis using 3 True by simp
  next
    case False
    then have "\<forall>p \<in> set (x # xs). pr p \<le> pr y" using 3(3) by auto
    then show ?thesis using 3 False merge_prio_Cons [of "x # xs" pr y ys] by simp
  qed
qed (simp add: merge_prio_def)

section \<open>The loops\<close>

lemma dq_remfirst_frame:
  assumes "dq_list st (x # xs)"
  shows "links_frame (set (x # xs)) (fst st) (fst (snd (dq_remfirst st)))"
proof (cases st)
  case (Pair l q)
  then show ?thesis using assms by (cases xs) (auto simp: dq_list_def dq_defs links_frame_def)
qed

lemma dq_cat_frame:
  assumes "dq_list (l, q1) xs" "dq_list (l, q2) ys" "dq_cat l q1 q2 = Some (l', q1', q2')"
  shows "links_frame (set xs \<union> set ys) l l'"
proof -
  have "dq_tail q2 = last_opt ys" "dq_head q1 = hd_opt xs"
    using dq_list_ends assms(1,2) by blast+
  then have "\<And>t. dq_tail q2 = Some t \<Longrightarrow> t \<in> set ys" "\<And>h. dq_head q1 = Some h \<Longrightarrow> h \<in> set xs"
    by (auto dest: last_opt_in_set hd_opt_in_set)
  then show ?thesis
    using assms(3) by (auto simp: dq_cat_def dq_move_def Let_def links_frame_def set_flink_def set_blink_def
        bind_eq_Some_conv split: if_splits)
qed

lemma merge_setstate_path:
  assumes "path (flink (tlinks s)) tmp xs None"
  shows "merge_setstate tmp st s =
    Some (s\<lparr>task_state := (\<lambda>x. if x \<in> set xs then st else task_state s x)\<rparr>)"
  using assms
proof (induction xs arbitrary: tmp s)
  case Nil
  then show ?case by (simp add: merge_setstate.simps)
next
  case (Cons x xs)
  then have p: "path (flink (tlinks (set_state x st s))) (flink (tlinks s) x) xs None" and t: "tmp = Some x"
    by (auto simp: set_state_def)
  have ts: "(\<lambda>z. if z \<in> set xs then st else task_state (set_state x st s) z) =
      (\<lambda>z. if z \<in> set (x # xs) then st else task_state s z)" by (auto simp: set_state_def)
  have "merge_setstate tmp st s = merge_setstate (flink (tlinks s) x) st (set_state x st s)"
    using t by (subst merge_setstate.simps) (simp add: dq_next_def set_state_def)
  then show ?case unfolding Cons.IH [OF p] ts by (simp add: set_state_def)
qed

lemma merge_loop_spec:
  assumes "dq_list (tlinks s, clone) xs" "dq_list (tlinks s, tlists s L) (as @ bs)"
    and "set xs \<inter> set (as @ bs) = {}"
  shows "\<exists>l q. merge_loop clone L (hd_opt xs) (hd_opt bs) s =
      Some (s\<lparr>tlinks := l, tlists := (tlists s)(L := q)\<rparr>) \<and>
    dq_list (l, q) (as @ merge2 (sched_priority s) xs bs) \<and>
    links_frame (set xs \<union> set (as @ bs)) (tlinks s) l"
  using assms
proof (induction "sched_priority s" xs bs arbitrary: s clone as rule: merge2.induct)
  case (1 ys)
  then show ?case
    by (intro exI [of _ "tlinks s"] exI [of _ "tlists s L"]) (simp add: merge_loop.simps)
next
  case (2 x xs)
  obtain l' q1' q2' where c: "dq_cat (tlinks s) clone (tlists s L) = Some (l', q1', q2')"
    "dq_list (l', q2') ((as @ []) @ x # xs)"
    using dq_cat_list [OF 2(1,2,3)] by blast
  have "merge_loop clone L (hd_opt (x # xs)) (hd_opt []) s =
      Some (s\<lparr>tlinks := l', tlists := (tlists s)(L := q2')\<rparr>)"
    using c(1) by (simp add: merge_loop.simps put_list_def)
  then show ?case using c(2) dq_cat_frame [OF 2(1,2) c(1)] by auto
next
  case (3 x xs b bs)
  show ?case
  proof (cases "sched_priority s x > sched_priority s b")
    case True
    obtain l1 clone1 where r: "dq_remfirst (tlinks s, clone) = (Some x, (l1, clone1))" "dq_list (l1, clone1) xs"
      using dq_remfirst_Cons [OF 3(3)] by auto
    have f1: "links_frame (set (x # xs)) (tlinks s) l1" using dq_remfirst_frame [OF 3(3)] r(1) by simp
    have d1: "dq_list (l1, tlists s L) (as @ b # bs)"
      by (rule dq_list_frame [OF 3(4) f1]) (use 3(5) in auto)
    have xn: "x \<notin> set (as @ b # bs)" using 3(5) by auto
    obtain l2 q2 where a: "dq_addbefore b x (l1, tlists s L) = Some (l2, q2)" "dq_list (l2, q2) (as @ x # b # bs)"
      using dq_addbefore_list [OF d1 xn] by auto
    have f2: "links_frame (insert x (set (as @ b # bs))) l1 l2" using dq_addbefore_frame [OF d1 a(1)] by simp
    have xd: "x \<notin> set xs" using dq_list_distinct [OF 3(3)] by simp
    have d2: "dq_list (l2, clone1) xs"
      by (rule dq_list_frame [OF r(2) f2]) (use 3(5) xd in auto)
    define s1 where "s1 = put_list L (l2, q2) s"
    have e1: "sched_priority s1 = sched_priority s" "tlinks s1 = l2" "tlists s1 = (tlists s)(L := q2)"
      by (simp_all add: s1_def put_list_def)
    obtain l q where ih: "merge_loop clone1 L (hd_opt xs) (hd_opt (b # bs)) s1 =
        Some (s1\<lparr>tlinks := l, tlists := (tlists s1)(L := q)\<rparr>)"
      "dq_list (l, q) ((as @ [x]) @ merge2 (sched_priority s1) xs (b # bs))"
      "links_frame (set xs \<union> set ((as @ [x]) @ b # bs)) (tlinks s1) l"
      using 3(1) [of s1 clone1 "as @ [x]"] True d2 a(2) 3(5) xd unfolding e1 by auto
    have "merge_loop clone L (hd_opt (x # xs)) (hd_opt (b # bs)) s =
        merge_loop clone1 L (hd_opt xs) (hd_opt (b # bs)) s1"
      using True r(1) a(1) dq_list_ends(1) [OF r(2)]
      by (subst merge_loop.simps) (simp add: Let_def s1_def dq_peek_def)
    also have "\<dots> = Some (s\<lparr>tlinks := l, tlists := (tlists s)(L := q)\<rparr>)"
      using ih(1) by (simp add: s1_def put_list_def)
    finally have "merge_loop clone L (hd_opt (x # xs)) (hd_opt (b # bs)) s =
        Some (s\<lparr>tlinks := l, tlists := (tlists s)(L := q)\<rparr>)" .
    moreover have "links_frame (set (x # xs) \<union> set (as @ b # bs)) (tlinks s) l"
      by (rule links_frame_trans [OF links_frame_mono [OF f1] links_frame_trans [OF links_frame_mono [OF f2]
            links_frame_mono [OF ih(3) [unfolded e1]]]]) auto
    ultimately show ?thesis using ih(2) True e1 by auto
  next
    case False
    have d: "dq_list (tlinks s, tlists s L) ((as @ [b]) @ bs)" using 3(4) by simp
    have fl: "flink (tlinks s) b = hd_opt bs" using dq_list_links(1) [OF 3(4)] by simp
    obtain l q where ih: "merge_loop clone L (hd_opt (x # xs)) (hd_opt bs) s =
        Some (s\<lparr>tlinks := l, tlists := (tlists s)(L := q)\<rparr>)"
      "dq_list (l, q) ((as @ [b]) @ merge2 (sched_priority s) (x # xs) bs)"
      "links_frame (set (x # xs) \<union> set ((as @ [b]) @ bs)) (tlinks s) l"
      using 3(2) [OF False refl 3(3) d] 3(5) by auto
    have "merge_loop clone L (hd_opt (x # xs)) (hd_opt (b # bs)) s =
        merge_loop clone L (hd_opt (x # xs)) (hd_opt bs) s"
      using False fl by (subst merge_loop.simps) (simp add: dq_next_def)
    then show ?thesis using ih False by auto
  qed
qed

lemma nxsched_merge_prioritized_spec:
  assumes l: "sched_lists s q" and ne: "L1 \<noteq> L2"
    and de: "desc (sched_priority s) (q L1)" "desc (sched_priority s) (q L2)"
  shows "\<exists>s'. nxsched_merge_prioritized L1 L2 st s = Some s' \<and>
    sched_lists s' (q(L1 := [], L2 := merge_prio (sched_priority s) (q L1) (q L2))) \<and>
    task_state s' = (\<lambda>x. if x \<in> set (q L1) then st else task_state s x) \<and>
    same_tcb s s' \<and> timeslice s' = timeslice s"
proof -
  let ?xs = "q L1" and ?bs = "q L2" and ?pr = "sched_priority s"
  let ?q' = "q(L1 := [], L2 := merge_prio ?pr ?xs ?bs)"
  note S = sched_listsD [OF l]
  define q1 where "q1 = (tlists s L1)\<lparr>dq_head := None, dq_tail := None\<rparr>"
  define clone where "clone = (dq_init :: nat dq_queue)\<lparr>dq_head := dq_head (tlists s L1), dq_tail := dq_tail (tlists s L1)\<rparr>"
  define s0 where "s0 = s\<lparr>tlists := (tlists s)(L1 := q1)\<rparr>"
  have mv: "dq_move (tlists s L1) dq_init = (q1, clone)" by (simp add: dq_move_def q1_def clone_def)
  have cl: "dq_list (tlinks s, clone) ?xs" using S(1) [of L1] by (simp add: dq_list_def clone_def)
  have pk: "dq_peek clone = hd_opt ?xs" using S(2) [of L1] by (simp add: dq_peek_def clone_def)
  have pk2: "dq_peek (tlists s L2) = hd_opt ?bs" using S(2) [of L2] by (simp add: dq_peek_def)
  have dis: "set ?xs \<inter> set ?bs = {}" by (rule S(5) [OF ne])
  have lists: "sched_lists s' ?q'" if "tlists s' = (tlists s)(L1 := q1, L2 := r)" "links_frame (set ?xs \<union> set ?bs) (tlinks s) (tlinks s')"
    "dq_list (tlinks s', r) (merge_prio ?pr ?xs ?bs)" for s' r
    unfolding sched_lists_def
  proof (intro conjI allI impI)
    fix L
    show "dq_list (tlinks s', tlists s' L) (?q' L)"
    proof (cases "L = L1 \<or> L = L2")
      case True
      then show ?thesis using that ne by (auto simp: q1_def dq_list_def)
    next
      case False
      then have "set (q L) \<inter> (set ?xs \<union> set ?bs) = {}" using S(5) [of L L1] S(5) [of L L2] by auto
      from dq_list_frame [OF S(1) that(2) this] show ?thesis using False that(1) by simp
    qed
    fix M assume "L \<noteq> M"
    then show "set (?q' L) \<inter> set (?q' M) = {}"
      using S(5) [of L M] S(5) [of L L1] S(5) [of M L1] S(5) [of L L2] S(5) [of M L2] ne by auto
  qed
  define ts where "ts = (\<lambda>x. if x \<in> set ?xs then st else task_state s x)"
  have goal: ?thesis if "nxsched_merge_prioritized L1 L2 st s = Some s'" "tlists s' = (tlists s)(L1 := q1, L2 := r)"
    "links_frame (set ?xs \<union> set ?bs) (tlinks s) (tlinks s')" "dq_list (tlinks s', r) (merge_prio ?pr ?xs ?bs)"
    "task_state s' = ts" "same_tcb s s'" "timeslice s' = timeslice s" for s' r
    using that lists [OF that(2-4)] unfolding ts_def by blast
  show ?thesis
  proof (cases "?xs = []")
    case True
    have "merge_prio ?pr ?xs ?bs = ?bs" by (simp add: True merge_prio_def)
    moreover have "ts = task_state s" by (simp add: ts_def True)
    ultimately show ?thesis
      using True mv pk S(1) [of L2] ne
      by (intro goal [of s0 "tlists s L2"]) (auto simp: nxsched_merge_prioritized_def s0_def same_tcb_def)
  next
    case False
    define s1 where "s1 = s0\<lparr>task_state := ts\<rparr>"
    have e1: "tlinks s1 = tlinks s" "tlists s1 = (tlists s)(L1 := q1)" "sched_priority s1 = ?pr"
      by (simp_all add: s1_def s0_def)
    have p0: "path (flink (tlinks s0)) (dq_peek clone) ?xs None" using cl by (simp add: dq_list_def dq_peek_def s0_def)
    have t0: "task_state s0 = task_state s" by (simp add: s0_def)
    have ss: "merge_setstate (dq_peek clone) st s0 = Some s1"
      unfolding s1_def ts_def merge_setstate_path [OF p0] t0 ..
    have run: "nxsched_merge_prioritized L1 L2 st s =
        (if ?bs = [] then (let (_, q2) = dq_move clone (tlists s1 L2) in Some (s1\<lparr>tlists := (tlists s1)(L2 := q2)\<rparr>))
         else merge_loop clone L2 (hd_opt ?xs) (hd_opt ?bs) s1)"
      using False mv pk pk2 ss ne unfolding nxsched_merge_prioritized_def
      by (simp add: e1 flip: s0_def)
    show ?thesis
    proof (cases "?bs = []")
      case True
      have "merge_prio ?pr ?xs ?bs = ?xs" using merge_prio_sorted [OF de(1)] True by simp
      then show ?thesis
        using True run cl ne
        by (intro goal [of "s1\<lparr>tlists := (tlists s1)(L2 := (tlists s L2)\<lparr>dq_head := dq_head clone, dq_tail := dq_tail clone\<rparr>)\<rparr>"
              "(tlists s L2)\<lparr>dq_head := dq_head clone, dq_tail := dq_tail clone\<rparr>"])
          (auto simp: dq_move_def e1 s1_def s0_def same_tcb_def dq_list_def)
    next
      case b: False
      have "dq_list (tlinks s1, clone) ?xs" "dq_list (tlinks s1, tlists s1 L2) ([] @ ?bs)"
        using cl S(1) [of L2] ne by (simp_all add: e1)
      from merge_loop_spec [OF this] dis obtain l r where
        "merge_loop clone L2 (hd_opt ?xs) (hd_opt ?bs) s1 = Some (s1\<lparr>tlinks := l, tlists := (tlists s1)(L2 := r)\<rparr>)"
        "dq_list (l, r) (merge2 ?pr ?xs ?bs)" "links_frame (set ?xs \<union> set ?bs) (tlinks s) l"
        by (auto simp: e1)
      then show ?thesis
        using run b merge2_merge_prio [OF de]
        by (intro goal [of "s1\<lparr>tlinks := l, tlists := (tlists s1)(L2 := r)\<rparr>" r])
          (auto simp: e1 s1_def s0_def same_tcb_def)
    qed
  qed
qed

end
