(* ===== verification/Pidhash.thy ===== *)
theory Pidhash
  imports CInt "HOL-Library.Monad_Syntax"
begin

text \<open>
  Process IDs: the table \<open>g_pidhash\<close> from the low bits of a PID to a task, the assignment of a new
  PID (\<open>nxtask_assign_pid\<close>), the lookup (\<open>nxsched_get_tcb\<close>, \<open>nxsched_verify_tcb\<close>) and the release
  (\<open>nxsched_releasepid\<close>).

  \<open>pid_t\<close> is a signed 16-bit type and \<open>CONFIG_MAX_TASKS\<close> is 16.  A task control block is named by
  a number.
\<close>

definition CONFIG_MAX_TASKS :: nat where "CONFIG_MAX_TASKS = 16"

definition INVALID_PROCESS_ID :: int where "INVALID_PROCESS_ID = - 1"

record pidtab =
  g_lastpid :: int
  pidhash_tcb :: "nat \<Rightarrow> nat option"
  pidhash_pid :: "nat \<Rightarrow> int"
  tcb_pid :: "nat \<Rightarrow> int"

definition PIDHASH :: "int \<Rightarrow> nat" where
  "PIDHASH pid = nat (pid mod int CONFIG_MAX_TASKS)"

fun assign_pid_loop :: "nat \<Rightarrow> nat \<Rightarrow> pidtab \<Rightarrow> int \<times> pidtab" where
  "assign_pid_loop 0 tcb p = (- 1, p)"
| "assign_pid_loop (Suc tries) tcb p =
     (let inc = int16 (g_lastpid p + 1);
          next_pid = (if inc \<le> 0 then 1 else inc);
          p1 = p\<lparr>g_lastpid := next_pid\<rparr>;
          hash_ndx = PIDHASH next_pid
      in case pidhash_tcb p1 hash_ndx of
           None \<Rightarrow> (0, p1\<lparr>pidhash_tcb := (pidhash_tcb p1)(hash_ndx := Some tcb),
                          pidhash_pid := (pidhash_pid p1)(hash_ndx := next_pid),
                          tcb_pid := (tcb_pid p1)(tcb := next_pid)\<rparr>)
         | Some _ \<Rightarrow> assign_pid_loop tries tcb p1)"

definition nxtask_assign_pid :: "nat \<Rightarrow> pidtab \<Rightarrow> int \<times> pidtab" where
  "nxtask_assign_pid tcb p = assign_pid_loop CONFIG_MAX_TASKS tcb p"

definition nxsched_get_tcb :: "int \<Rightarrow> pidtab \<Rightarrow> nat option" where
  "nxsched_get_tcb pid p =
     (if pid \<ge> 0
      then (let hash_ndx = PIDHASH pid
            in if pid = pidhash_pid p hash_ndx then pidhash_tcb p hash_ndx else None)
      else None)"

definition nxsched_verify_tcb :: "nat \<Rightarrow> pidtab \<Rightarrow> bool" where
  "nxsched_verify_tcb tcb p \<longleftrightarrow> Some tcb = pidhash_tcb p (PIDHASH (tcb_pid p tcb))"

definition nxsched_releasepid :: "int \<Rightarrow> pidtab \<Rightarrow> pidtab" where
  "nxsched_releasepid pid p =
     (let hash_ndx = PIDHASH pid
      in p\<lparr>pidhash_tcb := (pidhash_tcb p)(hash_ndx := None),
           pidhash_pid := (pidhash_pid p)(hash_ndx := INVALID_PROCESS_ID)\<rparr>)"

text \<open>
  The table \<open>nx_start\<close> sets up: PID 0 is the idle task.  The \<open>pid\<close> field of a task that was never
  assigned one is zero.
\<close>

definition nx_start_pids :: "nat \<Rightarrow> pidtab" where
  "nx_start_pids idle =
     \<lparr>g_lastpid = 0,
      pidhash_tcb = (\<lambda>_. None)(PIDHASH 0 := Some idle),
      pidhash_pid = (\<lambda>_. INVALID_PROCESS_ID)(PIDHASH 0 := 0),
      tcb_pid = (\<lambda>_. 0)\<rparr>"

section \<open>Invariant\<close>

text \<open>
  A used entry holds a PID of its own index, which is the PID of its task; an unused one holds no
  PID; the entry of PID 0 is in use.
\<close>

definition pid_ok :: "pidtab \<Rightarrow> bool" where
  "pid_ok p \<longleftrightarrow>
     0 \<le> g_lastpid p \<and> g_lastpid p < 2 ^ 15 \<and> pidhash_tcb p 0 \<noteq> None \<and>
     (\<forall>i < CONFIG_MAX_TASKS.
        case pidhash_tcb p i of
          None \<Rightarrow> pidhash_pid p i = INVALID_PROCESS_ID
        | Some t \<Rightarrow> 0 \<le> pidhash_pid p i \<and> pidhash_pid p i < 2 ^ 15 \<and> PIDHASH (pidhash_pid p i) = i \<and>
            tcb_pid p t = pidhash_pid p i)"

definition pid_live :: "nat \<Rightarrow> pidtab \<Rightarrow> bool" where
  "pid_live t p \<longleftrightarrow> (\<exists>i < CONFIG_MAX_TASKS. pidhash_tcb p i = Some t)"

lemma PIDHASH_less [simp]: "PIDHASH x < CONFIG_MAX_TASKS"
  by (simp add: PIDHASH_def CONFIG_MAX_TASKS_def nat_less_iff)

lemma pid_ok_start: "pid_ok (nx_start_pids idle)"
  by (auto simp: pid_ok_def nx_start_pids_def PIDHASH_def INVALID_PROCESS_ID_def CONFIG_MAX_TASKS_def)

lemma pid_okD:
  assumes "pid_ok p" "i < CONFIG_MAX_TASKS"
  shows "pidhash_tcb p i = Some t \<Longrightarrow> 0 \<le> pidhash_pid p i \<and> pidhash_pid p i < 2 ^ 15 \<and> PIDHASH (pidhash_pid p i) = i \<and>
      tcb_pid p t = pidhash_pid p i"
    "pidhash_tcb p i = None \<Longrightarrow> pidhash_pid p i = INVALID_PROCESS_ID"
  using assms unfolding pid_ok_def by (auto dest: spec [of _ i])

lemma live_pid_range:
  assumes "pid_ok p" "pid_live t p"
  shows "0 \<le> tcb_pid p t" "tcb_pid p t < 2 ^ 15"
  using assms pid_okD(1) [OF assms(1)] by (auto simp: pid_live_def)

text \<open>A live task is found by its PID, and by no other.\<close>

lemma get_tcb_live:
  assumes "pid_ok p"
  shows "nxsched_get_tcb pid p = Some t \<longleftrightarrow> pid_live t p \<and> tcb_pid p t = pid"
proof
  assume a: "nxsched_get_tcb pid p = Some t"
  then have "pidhash_tcb p (PIDHASH pid) = Some t" "pid = pidhash_pid p (PIDHASH pid)"
    by (auto simp: nxsched_get_tcb_def Let_def split: if_splits)
  then show "pid_live t p \<and> tcb_pid p t = pid"
    using pid_okD(1) [OF assms PIDHASH_less, of pid t] by (auto simp: pid_live_def intro: PIDHASH_less)
next
  assume "pid_live t p \<and> tcb_pid p t = pid"
  then obtain i where "i < CONFIG_MAX_TASKS" "pidhash_tcb p i = Some t" "tcb_pid p t = pid"
    by (auto simp: pid_live_def)
  with pid_okD(1) [OF assms] show "nxsched_get_tcb pid p = Some t"
    by (auto simp: nxsched_get_tcb_def Let_def)
qed

section \<open>The search for a free entry\<close>

definition next_pid :: "int \<Rightarrow> int" where
  "next_pid a = (if a = 2 ^ 15 - 1 then 1 else a + 1)"

lemma int16_inc:
  assumes "0 \<le> a" "a < 2 ^ 15"
  shows "(if int16 (a + 1) \<le> 0 then 1 else int16 (a + 1)) = next_pid a"
proof (cases "a = 2 ^ 15 - 1")
  case True
  then show ?thesis by (simp add: next_pid_def sint_cast_def)
next
  case False
  then have "int16 (a + 1) = a + 1" using assms by (intro sint_cast_id) auto
  then show ?thesis using assms False by (simp add: next_pid_def)
qed

lemma next_pid_range: "0 \<le> a \<Longrightarrow> a < 2 ^ 15 \<Longrightarrow> 0 < next_pid a \<and> next_pid a < 2 ^ 15"
  by (simp add: next_pid_def)

lemma next_pids_range:
  "0 \<le> a \<Longrightarrow> a < 2 ^ 15 \<Longrightarrow> 0 < k \<Longrightarrow> 0 < (next_pid ^^ k) a \<and> (next_pid ^^ k) a < 2 ^ 15"
proof (induction k arbitrary: a)
  case (Suc k)
  have "0 < next_pid a \<and> next_pid a < 2 ^ 15" using next_pid_range Suc.prems by blast
  then show ?case using Suc.IH [of "next_pid a"] by (cases "k = 0") (auto simp: funpow_swap1)
qed simp

text \<open>The candidates, and that they meet every entry but the first.\<close>

lemma next_pids:
  assumes "0 \<le> a" "a < 2 ^ 15" "k \<le> CONFIG_MAX_TASKS"
  shows "(next_pid ^^ k) a = (if a + int k < 2 ^ 15 then a + int k else a + int k - (2 ^ 15 - 1))"
  using assms
proof (induction k)
  case (Suc k)
  then have ih: "(next_pid ^^ k) a = (if a + int k < 2 ^ 15 then a + int k else a + int k - (2 ^ 15 - 1))" by simp
  show ?case
    unfolding funpow.simps comp_def ih using Suc.prems by (auto simp: next_pid_def CONFIG_MAX_TASKS_def)
qed auto

lemma next_pids_cover:
  assumes "0 \<le> a" "a < 2 ^ 15" "0 < i" "i < CONFIG_MAX_TASKS"
  shows "\<exists>k. 0 < k \<and> k \<le> CONFIG_MAX_TASKS \<and> PIDHASH ((next_pid ^^ k) a) = i"
proof -
  let ?r = "nat (a mod 16)"
  have r: "int ?r = a mod 16" "?r < 16" by (auto simp: nat_less_iff)
  show ?thesis
  proof (cases "a + 16 < 2 ^ 15")
    case True
    define k where "k = (if ?r < i then i - ?r else i + 16 - ?r)"
    have k: "0 < k" "k \<le> 16" using r assms(3,4) by (auto simp: k_def CONFIG_MAX_TASKS_def)
    have "(next_pid ^^ k) a = a + int k" using next_pids [OF assms(1,2), of k] k True by (simp add: CONFIG_MAX_TASKS_def)
    moreover have "(a + int k) mod 16 = int i"
    proof -
      have "(a + int k) mod 16 = (int ?r + int k) mod 16" by (simp add: r(1) mod_add_left_eq)
      also have "int ?r + int k = (if ?r < i then int i else int i + 16)" using r by (auto simp: k_def)
      also have "\<dots> mod 16 = int i" using assms(4) by (auto simp: CONFIG_MAX_TASKS_def)
      finally show ?thesis .
    qed
    ultimately show ?thesis using k by (intro exI [of _ k]) (simp add: PIDHASH_def CONFIG_MAX_TASKS_def)
  next
    case False
    define j where "j = nat (2 ^ 15 - 1 - a)"
    have j: "int j = 2 ^ 15 - 1 - a" "j \<le> 15" using assms(2) False by (auto simp: j_def)
    show ?thesis
    proof (cases "16 - j \<le> i")
      case True
      define k where "k = i + j - 15"
      have k: "0 < k" "k \<le> 16" "int k = int i + int j - 15" using True assms(4) j(2) by (auto simp: k_def CONFIG_MAX_TASKS_def)
      have "a + int k = 32752 + int i" "int i < 16" using k(3) j(1) assms(4) by (auto simp: CONFIG_MAX_TASKS_def)
      then have "(next_pid ^^ k) a = 32752 + int i"
        using next_pids [OF assms(1,2), of k] k(2) by (simp add: CONFIG_MAX_TASKS_def)
      moreover have "(16 * 2047 + int i) mod 16 = int i"
        using assms(4) by (subst mod_mult_self4) (simp add: CONFIG_MAX_TASKS_def)
      ultimately show ?thesis using k by (intro exI [of _ k]) (simp add: PIDHASH_def CONFIG_MAX_TASKS_def)
    next
      case f: False
      have k: "j + i \<le> 16" using f j(2) by simp
      have "a + int (j + i) = 32767 + int i" using j(1) by simp
      then have "(next_pid ^^ (j + i)) a = int i"
        using next_pids [OF assms(1,2), of "j + i"] k assms(3) by (simp only: CONFIG_MAX_TASKS_def) simp
      then show ?thesis using k assms(3,4) by (intro exI [of _ "j + i"]) (simp add: PIDHASH_def CONFIG_MAX_TASKS_def)
    qed
  qed
qed

text \<open>The table after a successful search.\<close>

definition pid_enter :: "nat \<Rightarrow> int \<Rightarrow> pidtab \<Rightarrow> pidtab" where
  "pid_enter t n p = p\<lparr>g_lastpid := n, pidhash_tcb := (pidhash_tcb p)(PIDHASH n := Some t),
     pidhash_pid := (pidhash_pid p)(PIDHASH n := n), tcb_pid := (tcb_pid p)(t := n)\<rparr>"

lemma assign_pid_loop_step:
  assumes "0 \<le> g_lastpid p" "g_lastpid p < 2 ^ 15"
  shows "assign_pid_loop (Suc n) t p =
    (if pidhash_tcb p (PIDHASH (next_pid (g_lastpid p))) = None then (0, pid_enter t (next_pid (g_lastpid p)) p)
     else assign_pid_loop n t (p\<lparr>g_lastpid := next_pid (g_lastpid p)\<rparr>))"
  unfolding assign_pid_loop.simps int16_inc [OF assms] Let_def pid_enter_def by (auto split: option.splits)

declare assign_pid_loop.simps(2) [simp del]

lemma assign_pid_loop_spec:
  assumes "0 \<le> g_lastpid p" "g_lastpid p < 2 ^ 15"
  shows "(\<exists>k. 0 < k \<and> k \<le> n \<and> pidhash_tcb p (PIDHASH ((next_pid ^^ k) (g_lastpid p))) = None \<and>
          assign_pid_loop n t p = (0, pid_enter t ((next_pid ^^ k) (g_lastpid p)) p)) \<or>
    (\<forall>k. 0 < k \<and> k \<le> n \<longrightarrow> pidhash_tcb p (PIDHASH ((next_pid ^^ k) (g_lastpid p))) \<noteq> None) \<and>
      assign_pid_loop n t p = (- 1, p\<lparr>g_lastpid := (next_pid ^^ n) (g_lastpid p)\<rparr>)"
  using assms
proof (induction n arbitrary: p)
  case 0
  then show ?case by simp
next
  case (Suc n)
  let ?a = "g_lastpid p"
  let ?p = "p\<lparr>g_lastpid := next_pid ?a\<rparr>"
  have shift: "(next_pid ^^ k) (next_pid ?a) = (next_pid ^^ Suc k) ?a" for k by (simp add: funpow_swap1)
  note step = assign_pid_loop_step [OF Suc.prems, of n t]
  show ?case
  proof (cases "pidhash_tcb p (PIDHASH (next_pid ?a)) = None")
    case True
    then show ?thesis using step by (intro disjI1 exI [of _ 1]) simp
  next
    case False
    have nx: "assign_pid_loop (Suc n) t p = assign_pid_loop n t ?p" unfolding step by (rule if_not_P [OF False])
    have "0 \<le> g_lastpid ?p" "g_lastpid ?p < 2 ^ 15" using next_pid_range [OF Suc.prems] by auto
    from Suc.IH [OF this] show ?thesis
    proof
      assume "\<exists>k. 0 < k \<and> k \<le> n \<and> pidhash_tcb ?p (PIDHASH ((next_pid ^^ k) (g_lastpid ?p))) = None \<and>
          assign_pid_loop n t ?p = (0, pid_enter t ((next_pid ^^ k) (g_lastpid ?p)) ?p)"
      then obtain k where "k \<le> n" "pidhash_tcb p (PIDHASH ((next_pid ^^ Suc k) ?a)) = None"
        "assign_pid_loop n t ?p = (0, pid_enter t ((next_pid ^^ Suc k) ?a) p)"
        by (auto simp: shift pid_enter_def simp del: funpow.simps)
      then show ?thesis unfolding nx by (intro disjI1 exI [of _ "Suc k"]) simp
    next
      assume a: "(\<forall>k. 0 < k \<and> k \<le> n \<longrightarrow> pidhash_tcb ?p (PIDHASH ((next_pid ^^ k) (g_lastpid ?p))) \<noteq> None) \<and>
          assign_pid_loop n t ?p = (- 1, ?p\<lparr>g_lastpid := (next_pid ^^ n) (g_lastpid ?p)\<rparr>)"
      have "pidhash_tcb p (PIDHASH ((next_pid ^^ k) ?a)) \<noteq> None" if "0 < k" "k \<le> Suc n" for k
      proof (cases "k = 1")
        case True
        then show ?thesis using False by simp
      next
        case k: False
        define j where "j = k - 1"
        have "k = Suc j" "0 < j" "j \<le> n" using that k by (auto simp: j_def)
        then show ?thesis using a by (auto simp: shift simp del: funpow.simps)
      qed
      then show ?thesis unfolding nx using a shift [of n] by (intro disjI2) auto
    qed
  qed
qed

lemma pid_ok_enter:
  assumes ok: "pid_ok p" and t: "\<not> pid_live t p" and n: "0 < n" "n < 2 ^ 15"
    and fr: "pidhash_tcb p (PIDHASH n) = None"
  shows "pid_ok (pid_enter t n p)"
  unfolding pid_ok_def
proof (intro conjI allI impI)
  show "0 \<le> g_lastpid (pid_enter t n p)" "g_lastpid (pid_enter t n p) < 2 ^ 15"
    using n by (simp_all add: pid_enter_def)
  show "pidhash_tcb (pid_enter t n p) 0 \<noteq> None" using ok by (simp add: pid_enter_def pid_ok_def)
  fix i assume i: "i < CONFIG_MAX_TASKS"
  show "case pidhash_tcb (pid_enter t n p) i of None \<Rightarrow> pidhash_pid (pid_enter t n p) i = INVALID_PROCESS_ID
     | Some x \<Rightarrow> 0 \<le> pidhash_pid (pid_enter t n p) i \<and> pidhash_pid (pid_enter t n p) i < 2 ^ 15 \<and> PIDHASH (pidhash_pid (pid_enter t n p) i) = i \<and>
         tcb_pid (pid_enter t n p) x = pidhash_pid (pid_enter t n p) i"
  proof (cases "i = PIDHASH n")
    case True
    then show ?thesis using n by (simp add: pid_enter_def)
  next
    case False
    have "x \<noteq> t" if "pidhash_tcb p i = Some x" for x using t i that by (auto simp: pid_live_def)
    then show ?thesis using pid_okD [OF ok i] False by (auto simp: pid_enter_def split: option.splits)
  qed
qed

text \<open>The new task is live, and every live task stays live with its PID.\<close>

lemma pid_live_enter:
  assumes "pidhash_tcb p (PIDHASH n) = None"
  shows "pid_live x (pid_enter t n p) \<longleftrightarrow> x = t \<or> pid_live x p"
proof
  assume "pid_live x (pid_enter t n p)"
  then show "x = t \<or> pid_live x p" by (auto simp: pid_live_def pid_enter_def split: if_splits)
next
  assume "x = t \<or> pid_live x p"
  then show "pid_live x (pid_enter t n p)"
  proof
    assume "x = t"
    then show ?thesis by (auto simp: pid_live_def pid_enter_def intro!: exI [of _ "PIDHASH n"])
  next
    assume "pid_live x p"
    then obtain i where "i < CONFIG_MAX_TASKS" "pidhash_tcb p i = Some x" by (auto simp: pid_live_def)
    moreover have "i \<noteq> PIDHASH n" using assms calculation by auto
    ultimately show ?thesis by (auto simp: pid_live_def pid_enter_def intro!: exI [of _ i])
  qed
qed

lemma nxtask_assign_pid_spec:
  assumes ok: "pid_ok p" and t: "\<not> pid_live t p"
  shows "if \<forall>i < CONFIG_MAX_TASKS. pidhash_tcb p i \<noteq> None
    then \<exists>n. nxtask_assign_pid t p = (- 1, p\<lparr>g_lastpid := n\<rparr>) \<and> pid_ok (p\<lparr>g_lastpid := n\<rparr>)
    else \<exists>n. nxtask_assign_pid t p = (0, pid_enter t n p) \<and> 0 < n \<and> n < 2 ^ 15 \<and>
      pidhash_tcb p (PIDHASH n) = None"
proof -
  let ?a = "g_lastpid p"
  have a: "0 \<le> ?a" "?a < 2 ^ 15" using ok by (auto simp: pid_ok_def)
  note L = assign_pid_loop_spec [OF a, of CONFIG_MAX_TASKS t]
  show ?thesis
  proof (cases "\<forall>i < CONFIG_MAX_TASKS. pidhash_tcb p i \<noteq> None")
    case True
    let ?n = "(next_pid ^^ CONFIG_MAX_TASKS) ?a"
    have "nxtask_assign_pid t p = (- 1, p\<lparr>g_lastpid := ?n\<rparr>)"
      using L True by (auto simp: nxtask_assign_pid_def)
    moreover have "0 < ?n \<and> ?n < 2 ^ 15" by (rule next_pids_range [OF a]) (simp add: CONFIG_MAX_TASKS_def)
    then have "pid_ok (p\<lparr>g_lastpid := ?n\<rparr>)" using ok by (auto simp: pid_ok_def split: option.splits)
    ultimately show ?thesis using True by auto
  next
    case False
    then obtain i where i: "i < CONFIG_MAX_TASKS" "pidhash_tcb p i = None" by auto
    moreover have "0 < i" using ok i(2) by (cases i) (auto simp: pid_ok_def)
    ultimately obtain k where "0 < k" "k \<le> CONFIG_MAX_TASKS" "PIDHASH ((next_pid ^^ k) ?a) = i"
      using next_pids_cover [OF a] by blast
    with i(2) L obtain j where "0 < j" "pidhash_tcb p (PIDHASH ((next_pid ^^ j) ?a)) = None"
      "nxtask_assign_pid t p = (0, pid_enter t ((next_pid ^^ j) ?a) p)"
      by (auto simp: nxtask_assign_pid_def)
    then show ?thesis using False next_pids_range [OF a, of j] by auto
  qed
qed

lemma nxsched_releasepid_spec:
  assumes ok: "pid_ok p" and t: "pid_live t p" "tcb_pid p t = pid" "PIDHASH pid \<noteq> 0"
  shows "pid_ok (nxsched_releasepid pid p)" "pid_live x (nxsched_releasepid pid p) \<longleftrightarrow> pid_live x p \<and> x \<noteq> t"
proof -
  obtain i where i: "i < CONFIG_MAX_TASKS" "pidhash_tcb p i = Some t" using t(1) by (auto simp: pid_live_def)
  have h: "PIDHASH pid = i" using pid_okD(1) [OF ok i] t(2) by simp
  have un: "j = i" if "j < CONFIG_MAX_TASKS" "pidhash_tcb p j = Some t" for j
  proof -
    have "PIDHASH (tcb_pid p t) = j" using pid_okD(1) [OF ok that] by simp
    then show ?thesis using t(2) h by simp
  qed
  have "case pidhash_tcb (nxsched_releasepid pid p) j of
      None \<Rightarrow> pidhash_pid (nxsched_releasepid pid p) j = INVALID_PROCESS_ID
    | Some x \<Rightarrow> 0 \<le> pidhash_pid (nxsched_releasepid pid p) j \<and> pidhash_pid (nxsched_releasepid pid p) j < 2 ^ 15 \<and> PIDHASH (pidhash_pid (nxsched_releasepid pid p) j) = j \<and>
        tcb_pid (nxsched_releasepid pid p) x = pidhash_pid (nxsched_releasepid pid p) j" if "j < CONFIG_MAX_TASKS" for j
    using pid_okD [OF ok that]
    by (cases "j = i"; cases "pidhash_tcb p j") (simp_all add: nxsched_releasepid_def Let_def h)
  then show "pid_ok (nxsched_releasepid pid p)"
    using ok t(3) unfolding pid_ok_def by (simp add: nxsched_releasepid_def Let_def)
  show "pid_live x (nxsched_releasepid pid p) \<longleftrightarrow> pid_live x p \<and> x \<noteq> t"
  proof
    assume "pid_live x (nxsched_releasepid pid p)"
    then obtain j where j: "j < CONFIG_MAX_TASKS" "j \<noteq> i" "pidhash_tcb p j = Some x"
      by (auto simp: pid_live_def nxsched_releasepid_def Let_def h split: if_splits)
    then show "pid_live x p \<and> x \<noteq> t" using un by (auto simp: pid_live_def)
  next
    assume a: "pid_live x p \<and> x \<noteq> t"
    then obtain j where "j < CONFIG_MAX_TASKS" "pidhash_tcb p j = Some x" by (auto simp: pid_live_def)
    moreover have "j \<noteq> i" using calculation(2) i(2) a by auto
    ultimately show "pid_live x (nxsched_releasepid pid p)"
      by (auto simp: pid_live_def nxsched_releasepid_def Let_def h intro!: exI [of _ j])
  qed
qed

end
