(* ===== verification/Sched_Task.thy ===== *)
theory Sched_Task
  imports Sched_Prio Sched_Merge Pidhash
begin

text \<open>
  The life of the scheduler: its state after \<open>nx_start\<close>, the creation and activation of tasks, the
  steps that may follow in any order, and the invariant of every state they lead to.
\<close>

section \<open>Start and creation of tasks\<close>

text \<open>
  The task lists after \<open>nx_start\<close>: all empty, then the idle task, whose control block is zero but
  for its state, put first in the list of the running task.
\<close>

definition nx_start_tasklists :: "nat \<Rightarrow> sched" where
  "nx_start_tasklists idle =
     (let s = \<lparr>tlinks = \<lparr>flink = (\<lambda>_. None), blink = (\<lambda>_. None)\<rparr>, tlists = (\<lambda>_. dq_init),
               sched_priority = (\<lambda>_. 0), task_state = (\<lambda>_. TSTATE_TASK_INVALID),
               lockcount = (\<lambda>_. 0), timeslice = (\<lambda>_. 0), sched_rr = (\<lambda>_. False)\<rparr>;
          s1 = set_state idle TSTATE_TASK_RUNNING s
      in put_list G_readytorun (dq_addfirst idle (get_list G_readytorun s1)) s1)"

definition nxthread_setup_scheduler ::
    "nat \<Rightarrow> int \<Rightarrow> pidtab \<times> sched \<Rightarrow> (int \<times> pidtab \<times> sched) option" where
  "nxthread_setup_scheduler tcb priority ps =
     (let (p, s) = ps; (ret, p1) = nxtask_assign_pid tcb p
      in if ret = 0
         then (let s1 = set_state tcb TSTATE_TASK_INVALID (set_prio tcb (nat (uint8 priority)) s);
                   s2 = sched_lock False s1;
                   s3 = put_list G_inactivetasks (dq_addfirst tcb (get_list G_inactivetasks s2)) s2;
                   s4 = set_state tcb TSTATE_TASK_INACTIVE s3
               in do { s5 \<leftarrow> sched_unlock False s4; Some (ret, p1, s5) })
         else Some (ret, p1, s))"

definition nxtask_activate :: "nat \<Rightarrow> sched \<Rightarrow> sched option" where
  "nxtask_activate tcb s = up_unblock_task tcb s"

lemma sched_ok_start: "sched_ok (nx_start_tasklists idle) ((\<lambda>_. [])(G_readytorun := [idle])) idle"
proof -
  let ?q = "(\<lambda>_. [])(G_readytorun := [idle])"
  let ?s = "nx_start_tasklists idle"
  note D = nx_start_tasklists_def put_list_def get_list_def set_state_def dq_addfirst_def dq_init_def
    set_flink_def set_blink_def Let_def
  have "sched_lists ?s ?q" by (auto simp: sched_lists_def D dq_list_def)
  moreover have "queues_ok (sched_priority ?s) (task_state ?s) ?q idle"
    unfolding queues_ok_def by (auto simp: D state_in_def)
  ultimately show ?thesis by (simp add: sched_ok_def sched_base_def D)
qed

text \<open>The tasks in some list.\<close>

definition listed :: "queues \<Rightarrow> nat set" where
  "listed q = (\<Union>L. set (q L))"

lemma listed_enter [simp]: "listed (q_enter pr L t q) = insert t (listed q)"
proof -
  have "x \<in> listed (q_enter pr L t q) \<longleftrightarrow> x = t \<or> x \<in> listed q" for x
    unfolding listed_def q_enter_def by (auto split: if_splits)
  then show ?thesis by blast
qed

lemma listed_remove [simp]: "listed (q_remove t q) = listed q - {t}"
  by (auto simp: listed_def q_remove_def)

lemma listed_merge [simp]: "listed (q_merge pr q) = listed q"
proof
  show "listed (q_merge pr q) \<subseteq> listed q" by (auto simp: listed_def q_merge_def split: if_splits)
  show "listed q \<subseteq> listed (q_merge pr q)"
  proof
    fix x assume "x \<in> listed q"
    then obtain L where "x \<in> set (q L)" by (auto simp: listed_def)
    then have "x \<in> set (q_merge pr q L) \<or> x \<in> set (q_merge pr q G_readytorun)"
      by (cases L) (auto simp: q_merge_def)
    then show "x \<in> listed (q_merge pr q)" by (auto simp: listed_def)
  qed
qed

lemma listed_ops [simp]:
  "listed (q_ready pr lk t q) = insert t (listed q)"
  "listed (q_block pr L t q) = insert t (listed q)"
  "listed (q_unblock pr lk t q) = insert t (listed q)"
  "listed (q_reprio pr lk t q) = insert t (listed q)"
  "listed (q_unlock pr lk q) = listed q"
  by (auto simp: q_ready_def q_block_def q_unblock_def q_reprio_def q_unlock_def Let_def)

lemma listed_setprio [simp]: "t \<in> set (q L) \<Longrightarrow> listed (q_setprio pr lk t p L q) = listed q"
  by (auto simp: q_setprio_def) (auto simp: listed_def)

lemma listed_rotate [simp]: "q G_readytorun \<noteq> [] \<Longrightarrow> listed (q_rotate pr q) = listed q"
proof -
  assume ne: "q G_readytorun \<noteq> []"
  have "set (q_rotate pr q L) = set (q L)" for L
    using list.collapse [OF ne] by (cases "L = G_readytorun") (simp_all add: q_rotate_def, metis list.set(2))
  then show ?thesis by (simp add: listed_def)
qed

lemma dq_addfirst_frame:
  assumes "dq_list st xs"
  shows "links_frame (insert n (set xs)) (fst st) (fst (dq_addfirst n st))"
proof (cases st)
  case (Pair l q)
  have "\<And>h. dq_head q = Some h \<Longrightarrow> h \<in> set xs"
    unfolding dq_list_ends(1) [OF assms [unfolded Pair]] by (rule hd_opt_in_set)
  then show ?thesis
    using Pair by (auto simp: dq_addfirst_def Let_def split: option.splits)
qed

lemma setup_scheduler_spec:
  assumes ok: "sched_ok s q idle" and t: "unlisted t q" and p: "1 \<le> priority" "priority \<le> 255"
    and a: "nxtask_assign_pid t p0 = (0, p1)" and r: "r = hd (q G_readytorun)" "0 \<le> lockcount s r" "lockcount s r < 32767"
  shows "\<exists>s'. nxthread_setup_scheduler t priority (p0, s) = Some (0, p1, s') \<and>
     sched_ok s' (q(G_inactivetasks := t # q G_inactivetasks)) idle \<and>
     same_tcb (set_prio t (nat priority) s) s'"
proof -
  have b: "sched_base s q idle" using ok by (simp add: sched_ok_def)
  have u: "uint8 priority = priority" using p by (intro uint_cast_id) auto
  define s1 where "s1 = set_state t TSTATE_TASK_INVALID (set_prio t (nat priority) s)"
  have b1: "sched_base s1 q idle"
    unfolding s1_def by (intro sched_base_unlisted(1) sched_base_unlisted(2) b t)
  have ok1: "sched_ok s1 q idle" using b1 ok by (simp add: sched_ok_def s1_def set_state_def set_prio_def)
  have lk1: "lockcount s1 r = lockcount s r" by (simp add: s1_def set_state_def set_prio_def)
  define s2 where "s2 = set_lockcount r (lockcount s r + 1) s1"
  have s2: "sched_lock False s1 = s2" "sched_base s2 q idle"
    using sched_lock_spec(1) [OF ok1, of r] r lk1 b1 by (simp_all add: s2_def)
  define s4 where "s4 = set_state t TSTATE_TASK_INACTIVE (put_list G_inactivetasks (dq_addfirst t (get_list G_inactivetasks s2)) s2)"
  let ?q = "q(G_inactivetasks := t # q G_inactivetasks)"
  have l: "sched_lists s2 q" and o: "queues_ok (sched_priority s2) (task_state s2) q idle"
    using s2(2) by (auto simp: sched_base_def)
  note S = sched_listsD [OF l]
  have d: "dq_list (get_list G_inactivetasks s2) (q G_inactivetasks)" using S(1) by (simp add: get_list_def)
  have tn: "t \<notin> set (q M)" for M using t by (simp add: unlisted_def)
  have l4: "sched_lists (put_list G_inactivetasks (dq_addfirst t (get_list G_inactivetasks s2)) s2) ?q"
  proof (rule sched_lists_put [OF l dq_addfirst_list [OF d tn]])
    show "links_frame (insert t (set (q G_inactivetasks))) (tlinks s2) (fst (dq_addfirst t (get_list G_inactivetasks s2)))"
      using dq_addfirst_frame [OF d, of t] by (simp add: get_list_def)
    show "insert t (set (q G_inactivetasks)) \<inter> set (q M) = {}" "set (t # q G_inactivetasks) \<inter> set (q M) = {}"
      if "M \<noteq> G_inactivetasks" for M using S(5) [of M G_inactivetasks] that tn by auto
  qed
  have "queues_ok (sched_priority s2) ((task_state s2)(t := TSTATE_TASK_INACTIVE)) ?q idle"
  proof (rule queues_ok_upd [OF o])
    note D = queues_okD [OF o]
    show "sched_priority s2 x = sched_priority s2 x \<and> ((task_state s2)(t := TSTATE_TASK_INACTIVE)) x = task_state s2 x"
      if "x \<in> set (q M)" for x M using that tn by auto
    show "1 \<le> sched_priority s2 x \<and> sched_priority s2 x \<le> 255" if "x \<in> set (t # q G_inactivetasks)" "x \<noteq> idle" for x
      using that D(3) [of x G_inactivetasks] p by (auto simp: s2_def s1_def set_state_def set_prio_def)
    show "((task_state s2)(t := TSTATE_TASK_INACTIVE)) x = state_in ?q G_inactivetasks x"
      if "x \<in> set (t # q G_inactivetasks)" for x
      using that D(5) [of x G_inactivetasks] by (auto simp: state_in_def)
  qed simp_all
  then have b4: "sched_base s4 ?q idle"
    using sched_lists_cong [OF l4, of s4] by (simp add: sched_base_def s4_def set_state_def put_list_def)
  have lk4: "lockcount s4 = (lockcount s)(r := lockcount s r + 1)"
    by (simp add: s4_def s2_def s1_def set_state_def put_list_def set_lockcount_def set_prio_def)
  have rq: "hd (?q G_readytorun) = r" using r(1) by simp
  have ok4: "sched_ok s4 ?q idle" using b4 lk4 rq r(2) by (simp add: sched_ok_def)
  obtain s5 where s5: "sched_unlock False s4 = Some s5"
    "sched_ok s5 (q_unlock (sched_priority s4) (lockcount s4) ?q) idle"
    "same_tcb (set_lockcount r (max 0 (lockcount s4 r - 1)) s4) s5"
    using sched_unlock_spec [OF ok4, of r] rq by auto
  have qu: "q_unlock (sched_priority s4) (lockcount s4) ?q = ?q"
  proof (cases "lockcount s r \<ge> 1")
    case True
    then show ?thesis using rq lk4 by (simp add: q_unlock_def)
  next
    case False
    then have "q G_pendingtasks = []" using ok r(1) by (simp add: sched_ok_def)
    then show ?thesis using rq lk4 by (simp add: q_unlock_def q_merge_none)
  qed
  have "(lockcount s4)(r := max 0 (lockcount s4 r - 1)) = lockcount s" using lk4 r(2) by auto
  then have "same_tcb (set_prio t (nat priority) s) s5"
    using s5(3) by (simp add: same_tcb_def s4_def s2_def s1_def set_state_def put_list_def set_prio_def)
      (simp add: set_lockcount_def)
  moreover have "nxthread_setup_scheduler t priority (p0, s) = Some (0, p1, s5)"
    using a u s2(1) s5(1) by (simp add: nxthread_setup_scheduler_def Let_def s1_def s4_def)
  ultimately show ?thesis using s5(2) qu by auto
qed

section \<open>Reachable states\<close>

text \<open>
  The critical section of \<open>nxsched_set_scheduler\<close>: the policy of a task and its time slice.  The
  change of priority that follows it is a step of its own.
\<close>

definition set_policy :: "nat \<Rightarrow> bool \<Rightarrow> sched \<Rightarrow> sched" where
  "set_policy tcb rr s =
     set_timeslice tcb (if rr then RR_TICKS else 0) (s\<lparr>sched_rr := (sched_rr s)(tcb := rr)\<rparr>)"

text \<open>
  What may happen next.  \<open>C\<close> is the set of tasks set up so far.  Operations of a task are those of
  the running one; the idle task does not block and keeps its priority; preemption locks are not
  nested beyond the range of their counter.
\<close>

inductive sched_step :: "nat \<Rightarrow> sched \<times> nat set \<Rightarrow> sched \<times> nat set \<Rightarrow> bool" for idle where
  create: "t \<notin> C \<Longrightarrow> 1 \<le> p \<Longrightarrow> p \<le> 255 \<Longrightarrow> this_task s = Some r \<Longrightarrow> lockcount s r < 32767 \<Longrightarrow>
    nxthread_setup_scheduler t p (pt, s) = Some (0, pt', s') \<Longrightarrow> sched_step idle (s, C) (s', insert t C)"
| block: "this_task s = Some t \<Longrightarrow> t \<noteq> idle \<Longrightarrow> TLIST_HEAD st = Some L \<Longrightarrow> L \<noteq> G_readytorun \<Longrightarrow>
    L \<noteq> G_pendingtasks \<Longrightarrow> up_block_task t st s = Some s' \<Longrightarrow> sched_step idle (s, C) (s', C)"
| unblock: "t \<in> C \<Longrightarrow> TLIST_HEAD (task_state s t) = Some L \<Longrightarrow> L \<noteq> G_readytorun \<Longrightarrow>
    up_unblock_task t s = Some s' \<Longrightarrow> sched_step idle (s, C) (s', C)"
| lock: "this_task s = Some r \<Longrightarrow> lockcount s r < 32767 \<Longrightarrow>
    sched_step idle (s, C) (sched_lock False s, C)"
| unlock: "sched_unlock False s = Some s' \<Longrightarrow> sched_step idle (s, C) (s', C)"
| unlock_tail: "sched_step idle (s, C) (sched_unlock_tail t s, C)"
| set_priority: "t \<in> C \<Longrightarrow> t \<noteq> idle \<Longrightarrow> nxsched_set_priority t p s = Some (ret, s') \<Longrightarrow>
    sched_step idle (s, C) (s', C)"
| policy: "sched_step idle (s, C) (set_policy t rr s, C)"
| yield: "this_task s = Some t \<Longrightarrow> t \<noteq> idle \<Longrightarrow> sched_yield s = Some (ret, s') \<Longrightarrow>
    sched_step idle (s, C) (s', C)"
| tick: "nxsched_process_scheduler s = Some s' \<Longrightarrow> sched_step idle (s, C) (s', C)"

inductive sched_reachable :: "nat \<Rightarrow> sched \<Rightarrow> nat set \<Rightarrow> bool" for idle where
  start: "sched_reachable idle (nx_start_tasklists idle) {idle}"
| step: "sched_reachable idle s C \<Longrightarrow> sched_step idle (s, C) (s', C') \<Longrightarrow> sched_reachable idle s' C'"

text \<open>The lists are well formed and hold every task set up so far, each once.\<close>

definition sched_inv :: "nat \<Rightarrow> sched \<Rightarrow> nat set \<Rightarrow> bool" where
  "sched_inv idle s C \<longleftrightarrow>
     (\<exists>q. sched_ok s q idle \<and> listed q = C) \<and> (\<forall>t. 0 \<le> lockcount s t)"

lemma sched_invI: "sched_ok s q idle \<Longrightarrow> listed q = C \<Longrightarrow> (\<And>t. 0 \<le> lockcount s t) \<Longrightarrow> sched_inv idle s C"
  by (auto simp: sched_inv_def)

text \<open>The task is in the list its state names.\<close>

lemma listed_in:
  assumes "sched_ok s q idle" "t \<in> listed q" "TLIST_HEAD (task_state s t) = Some L"
  shows "t \<in> set (q L)"
proof -
  obtain M where "t \<in> set (q M)" using assms(2) by (auto simp: listed_def)
  then show ?thesis using state_list(1) [of s q idle t M] assms(1,3) by (auto simp: sched_ok_def)
qed

lemma hd_listed: "sched_ok s q idle \<Longrightarrow> hd (q G_readytorun) \<in> set (q G_readytorun)"
  using base_ready_ne [of s q idle] by (simp add: sched_ok_def)

text \<open>An operation on the ready-to-run tasks leaves the lists of blocked tasks alone.\<close>

definition only_ready :: "queues \<Rightarrow> queues \<Rightarrow> bool" where
  "only_ready q q' \<longleftrightarrow> (\<forall>L. L \<noteq> G_readytorun \<and> L \<noteq> G_pendingtasks \<longrightarrow> q' L = q L)"

lemma only_ready_refl [simp]: "only_ready q q"
  by (simp add: only_ready_def)

lemma only_ready_reprio:
  assumes "sched_ok s q idle" "t \<in> set (q G_readytorun)"
  shows "only_ready q (q_reprio pr lk t q)"
proof -
  have "t \<notin> set (q L)" if "L \<noteq> G_readytorun" for L
    using assms that sched_listsD(5) [of s q L G_readytorun] by (auto simp: sched_ok_def sched_base_def)
  then have "filter (\<lambda>x. x \<noteq> t) (q L) = q L" if "L \<noteq> G_readytorun" for L using that by (auto simp: filter_id_conv)
  then show ?thesis
    by (auto simp: only_ready_def q_reprio_def q_unblock_def q_ready_def q_enter_def q_remove_def q_merge_def Let_def)
qed

lemma roundrobin_ok:
  assumes ok: "sched_ok s q idle" and t: "t = hd (q G_readytorun)"
  shows "\<exists>ret s' q'. nxsched_process_roundrobin t 1 False s = Some (ret, s') \<and> sched_ok s' q' idle \<and>
     same_tcb s s' \<and> listed q' = listed q \<and> only_ready q q'"
proof -
  have b: "sched_base s q idle" using ok by (simp add: sched_ok_def)
  define d where "d = int32 (timeslice s t - (if uint32 (timeslice s t) < 1 then timeslice s t else int32 1))"
  let ?s1 = "set_timeslice t d s" and ?s2 = "set_timeslice t RR_TICKS s"
  have twice: "set_timeslice t RR_TICKS ?s1 = ?s2" by (simp add: set_timeslice_def)
  have run: "nxsched_process_roundrobin t 1 False s =
      (if d \<le> 0 \<and> \<not> lockcount s t > 0
       then (case flink (tlinks s) t of
               None \<Rightarrow> Some (RR_TICKS, ?s2)
             | Some n \<Rightarrow> if sched_priority s n \<ge> sched_priority s t
                then do { s3 \<leftarrow> up_reprioritize_rtr t (sched_priority s t) ?s2; Some (RR_TICKS, s3) }
                else Some (RR_TICKS, ?s2))
       else Some (uint32 d, ?s1))"
    unfolding nxsched_process_roundrobin_def Let_def d_def [symmetric] twice set_timeslice_fields
      fun_upd_same if_False ..
  have same: "same_tcb s (set_timeslice t v s)" for v by (simp add: same_tcb_def)
  have ok1: "sched_ok (set_timeslice t v s) q idle" for v using ok by simp
  have plain: "\<exists>ret s' q'. Some (ret0, set_timeslice t v s) = Some (ret, s') \<and> sched_ok s' q' idle \<and>
     same_tcb s s' \<and> listed q' = listed q \<and> only_ready q q'" for ret0 v
    using ok1 [of v] same [of v] only_ready_refl by blast
  show ?thesis
  proof (cases "t = idle")
    case True
    obtain rs where "q G_readytorun = rs @ [idle]"
      using b queues_okD(1) [of "sched_priority s" "task_state s" q idle] by (auto simp: sched_base_def)
    moreover have "distinct (q G_readytorun)" using b sched_listsD(4) by (auto simp: sched_base_def)
    ultimately have "q G_readytorun = [idle]" using t True by (cases rs) auto
    moreover have "dq_list (tlinks s, tlists s G_readytorun) (q G_readytorun)"
      using b sched_listsD(1) by (auto simp: sched_base_def)
    ultimately have "flink (tlinks s) t = None" using True by (simp add: dq_list_def)
    then show ?thesis unfolding run using plain by simp
  next
    case False
    have tin: "t \<in> set (q G_readytorun)" using hd_listed [OF ok] t by simp
    have p: "1 \<le> sched_priority s t" "sched_priority s t \<le> 255" using base_prio [OF b tin False] by auto
    have "set_prio t (sched_priority s t) ?s2 = ?s2" by (simp add: set_prio_def set_timeslice_def)
    with up_reprioritize_rtr_spec [OF ok1 tin False p] obtain s3 q3 where
      s3: "up_reprioritize_rtr t (sched_priority s t) ?s2 = Some s3" "sched_ok s3 q3 idle" "same_tcb ?s2 s3"
        "listed q3 = insert t (listed q)" "only_ready q q3"
      using listed_ops(4) only_ready_reprio [OF ok tin] by metis
    have "same_tcb s s3" by (rule same_tcb_trans [OF same s3(3)])
    moreover have "t \<in> listed q" using tin by (auto simp: listed_def)
    ultimately have rep: "\<exists>ret s' q'. do { s3 \<leftarrow> up_reprioritize_rtr t (sched_priority s t) ?s2; Some (RR_TICKS, s3) } =
        Some (ret, s') \<and> sched_ok s' q' idle \<and> same_tcb s s' \<and> listed q' = listed q \<and> only_ready q q'"
      using s3 by (auto simp: insert_absorb)
    show ?thesis unfolding run using plain rep by (auto split: option.splits)
  qed
qed

lemma sched_inv_same:
  assumes "sched_ok s' q' idle" "listed q' = C" "same_tcb s0 s'" "\<And>t. 0 \<le> lockcount s0 t"
  shows "sched_inv idle s' C"
  using assms by (intro sched_invI [of s' q']) (auto simp: same_tcb_def)

lemma assign_pid_result: "nxtask_assign_pid t pt = (r, pt') \<Longrightarrow> r = 0 \<or> r = - 1"
proof -
  have "fst (assign_pid_loop n t pt) = 0 \<or> fst (assign_pid_loop n t pt) = - 1" for n pt
    by (induction n arbitrary: pt) (auto simp: assign_pid_loop.simps(2) Let_def split: option.splits)
  then show "nxtask_assign_pid t pt = (r, pt') \<Longrightarrow> r = 0 \<or> r = - 1"
    by (metis fst_conv nxtask_assign_pid_def)
qed

lemma sched_step_inv:
  assumes "sched_step idle (s, C) (s', C')" "sched_inv idle s C"
  shows "sched_inv idle s' C'"
proof -
  obtain q where ok: "sched_ok s q idle" and C: "listed q = C" and lk: "\<And>t. 0 \<le> lockcount s t"
    using assms(2) by (auto simp: sched_inv_def)
  have b: "sched_base s q idle" using ok by (simp add: sched_ok_def)
  have th: "this_task s = Some (hd (q G_readytorun))" by (rule this_task_hd [OF b])
  have hin: "hd (q G_readytorun) \<in> set (q G_readytorun)" "hd (q G_readytorun) \<in> C"
    using hd_listed [OF ok] C by (auto simp: listed_def)
  from assms(1) show ?thesis
  proof (cases rule: sched_step.cases)
    case (create t p r pt pt')
    have u: "unlisted t q" using create(2) C by (auto simp: unlisted_def listed_def)
    obtain ret p1 where a: "nxtask_assign_pid t pt = (ret, p1)" by (cases "nxtask_assign_pid t pt")
    have "ret = 0" using create(7) a by (auto simp: nxthread_setup_scheduler_def Let_def split: if_splits)
    then obtain s1 where "nxthread_setup_scheduler t p (pt, s) = Some (0, p1, s1)"
      "sched_ok s1 (q(G_inactivetasks := t # q G_inactivetasks)) idle" "same_tcb (set_prio t (nat p) s) s1"
      using setup_scheduler_spec [OF ok u create(3,4), of pt p1 r] a create(5,6) th lk by auto
    moreover have "listed (q(G_inactivetasks := t # q G_inactivetasks)) = insert t C"
      using C by (auto simp: listed_def split: if_splits)
    ultimately show ?thesis using create(1,7) lk
      by (intro sched_inv_same [of s' "q(G_inactivetasks := t # q G_inactivetasks)" _ _ "set_prio t (nat p) s"])
        (auto simp: set_prio_def)
  next
    case (block t st L)
    obtain s1 where "up_block_task t st s = Some s1" "sched_ok s1 (q_block (sched_priority s) L t q) idle" "same_tcb s s1"
      using up_block_task_spec [OF ok _ _ block(4-6)] block(2,3) th hin(1) by auto
    then show ?thesis using block hin th C lk
      by (intro sched_inv_same [of s' "q_block (sched_priority s) L t q" _ _ s]) auto
  next
    case (unblock t L)
    have tin: "t \<in> set (q L)" using listed_in [OF ok _ unblock(3)] unblock(2) C by simp
    obtain s1 where "up_unblock_task t s = Some s1" "sched_ok s1 (q_unblock (sched_priority s) (lockcount s) t q) idle"
      "same_tcb s s1"
      using up_unblock_task_spec [OF ok tin unblock(4)] by auto
    then show ?thesis using unblock C lk
      by (intro sched_inv_same [of s' "q_unblock (sched_priority s) (lockcount s) t q" _ _ s]) auto
  next
    case (lock r)
    have r: "r = hd (q G_readytorun)" using lock(3) th by simp
    note L = sched_lock_spec [OF ok lk lock(4) r]
    show ?thesis using lock(1,2) L C lk by (intro sched_invI [of _ q]) auto
  next
    case unlock
    let ?r = "hd (q G_readytorun)"
    obtain s1 where "sched_unlock False s = Some s1" "sched_ok s1 (q_unlock (sched_priority s) (lockcount s) q) idle"
      "same_tcb (set_lockcount ?r (max 0 (lockcount s ?r - 1)) s) s1"
      using sched_unlock_spec [OF ok refl] by blast
    then show ?thesis using unlock C lk
      by (intro sched_inv_same [of s' "q_unlock (sched_priority s) (lockcount s) q" _ _
            "set_lockcount ?r (max 0 (lockcount s ?r - 1)) s"]) auto
  next
    case (unlock_tail t)
    have "sched_ok s' q idle" "lockcount s' = lockcount s"
      using ok unlock_tail(1) by (auto simp: sched_unlock_tail_def)
    then show ?thesis using unlock_tail(2) C lk by (intro sched_invI [of s' q]) auto
  next
    case (set_priority t p ret)
    show ?thesis
    proof (cases "p < SCHED_PRIORITY_MIN \<or> p > SCHED_PRIORITY_MAX")
      case True
      then have "s' = s" using set_priority(4) by (simp add: nxsched_set_priority_def)
      then show ?thesis using set_priority(1) assms(2) by simp
    next
      case False
      define n where "n = nat p"
      have n: "p = int n" "1 \<le> n" "n \<le> 255"
        using False by (auto simp: n_def SCHED_PRIORITY_MIN_def SCHED_PRIORITY_MAX_def)
      obtain L where tin: "t \<in> set (q L)" using set_priority(2) C by (auto simp: listed_def)
      obtain s1 where "nxsched_set_priority t p s = Some (0, s1)"
        "sched_ok s1 (q_setprio (sched_priority s) (lockcount s) t n L q) idle" "same_tcb (set_prio t n s) s1"
        using nxsched_set_priority_spec [OF ok tin set_priority(3) n(2,3)] n(1) by auto
      then show ?thesis using set_priority C lk tin
        by (intro sched_inv_same [of s' "q_setprio (sched_priority s) (lockcount s) t n L q" _ _ "set_prio t n s"])
          (auto simp: set_prio_def)
    qed
  next
    case (policy t rr)
    have "sched_ok (s\<lparr>sched_rr := (sched_rr s)(t := rr)\<rparr>) q idle"
      using ok by (simp add: sched_ok_def sched_base_def sched_lists_def)
    then show ?thesis using policy C lk by (intro sched_invI [of s' q]) (auto simp: set_policy_def)
  next
    case (yield t ret)
    have t: "t = hd (q G_readytorun)" using yield(2) th by simp
    let ?q = "if sched_priority s t \<le> sched_priority s (q G_readytorun ! 1)
                 then q_merge (sched_priority s) (q_rotate (sched_priority s) q) else q"
    obtain s1 where "sched_yield s = Some (0, s1)" "sched_ok s1 ?q idle" "same_tcb s s1"
      using sched_yield_spec [OF ok t yield(3)] by blast
    then show ?thesis using yield C lk base_ready_ne [OF b] by (intro sched_inv_same [of s' ?q _ _ s]) auto
  next
    case tick
    obtain ret s1 q1 where "nxsched_process_roundrobin (hd (q G_readytorun)) 1 False s = Some (ret, s1)"
      "sched_ok s1 q1 idle" "same_tcb s s1" "listed q1 = listed q"
      using roundrobin_ok [OF ok refl] by blast
    then show ?thesis using tick ok th C lk
      by (cases "sched_rr s (hd (q G_readytorun))")
        (auto simp: nxsched_process_scheduler_def intro: sched_inv_same sched_invI)
  qed
qed

lemma sched_reachable_inv: "sched_reachable idle s C \<Longrightarrow> sched_inv idle s C"
proof (induction rule: sched_reachable.induct)
  case start
  show ?case
    by (rule sched_invI [OF sched_ok_start])
      (auto simp: listed_def nx_start_tasklists_def put_list_def set_state_def Let_def split: if_splits)
next
  case (step s C s' C')
  then show ?case by (blast intro: sched_step_inv)
qed

end
