(* ===== verification/Sched_Theorems.thy ===== *)
theory Sched_Theorems
  imports Sched_Task
begin

text \<open>
  The properties of the scheduler, each with a witness on a concrete state.
\<close>

section \<open>A concrete state\<close>

text \<open>
  Tasks 1 and 2, round-robin tasks of priority 100, and the idle task 0 are ready to run; task 3,
  of priority 150, waits for a semaphore.
\<close>

definition demo_queues :: queues where
  "demo_queues = (\<lambda>_. [])(G_readytorun := [1, 2, 0], G_waitingforsemaphore := [3])"

definition demo :: sched where
  "demo =
     \<lparr>tlinks = \<lparr>flink = (\<lambda>_. None)(1 := Some 2, 2 := Some 0), blink = (\<lambda>_. None)(0 := Some 2, 2 := Some 1)\<rparr>,
      tlists = (\<lambda>_. dq_init)(G_readytorun := \<lparr>dq_head = Some 1, dq_tail = Some 0\<rparr>,
                  G_waitingforsemaphore := \<lparr>dq_head = Some 3, dq_tail = Some 3\<rparr>),
      sched_priority = (\<lambda>_. 0)(1 := 100, 2 := 100, 3 := 150),
      task_state = (\<lambda>_. TSTATE_TASK_INVALID)(0 := TSTATE_TASK_READYTORUN, 1 := TSTATE_TASK_RUNNING,
                     2 := TSTATE_TASK_READYTORUN, 3 := TSTATE_WAIT_SEM),
      lockcount = (\<lambda>_. 0), timeslice = (\<lambda>_. 20), sched_rr = (\<lambda>_. False)(1 := True, 2 := True)\<rparr>"

lemma demo_ok: "sched_ok demo demo_queues 0"
proof -
  have "dq_list (tlinks demo, tlists demo L) (demo_queues L)" for L
    by (cases L) (simp_all add: demo_def demo_queues_def dq_list_def dq_init_def)
  moreover have "set (demo_queues L) \<inter> set (demo_queues M) = {}" if "L \<noteq> M" for L M
    using that by (cases L; cases M) (simp_all add: demo_queues_def)
  ultimately have "sched_lists demo demo_queues" by (simp add: sched_lists_def)
  moreover have "queues_ok (sched_priority demo) (task_state demo) demo_queues 0"
    unfolding queues_ok_def
  proof (intro conjI allI)
    fix L
    show "\<forall>t \<in> set (demo_queues L). t \<noteq> 0 \<longrightarrow> 1 \<le> sched_priority demo t \<and> sched_priority demo t \<le> 255"
      by (cases L) (simp_all add: demo_def demo_queues_def)
    show "TLIST_ISPRIORITIZED (list_state L) \<longrightarrow> desc (sched_priority demo) (demo_queues L)"
      by (cases L) (simp_all add: demo_def demo_queues_def)
    show "\<forall>t \<in> set (demo_queues L). task_state demo t = state_in demo_queues L t"
      by (cases L) (simp_all add: demo_def demo_queues_def state_in_def)
  qed (simp_all add: demo_def demo_queues_def)
  ultimately show ?thesis by (simp add: sched_ok_def sched_base_def demo_queues_def)
qed

lemma demo_lists: "sched_lists demo demo_queues"
  using demo_ok by (simp add: sched_ok_def sched_base_def)

lemma demo_queue [simp]:
  "demo_queues G_readytorun = [1, 2, 0]" "demo_queues G_pendingtasks = []"
  "demo_queues G_waitingforsemaphore = [3]" "demo_queues G_inactivetasks = []"
  by (simp_all add: demo_queues_def)

lemma demo_fields [simp]:
  "sched_priority demo 0 = 0" "sched_priority demo 1 = 100" "sched_priority demo 2 = 100"
  "sched_priority demo 3 = 150" "lockcount demo t = 0" "timeslice demo t = 20"
  "sched_rr demo 1" "sched_rr demo 2"
  by (simp_all add: demo_def)

lemma demo_priority [simp]: "sched_priority demo (Suc 0) = 100" "sched_rr demo (Suc 0)"
  by (simp_all add: demo_def)

section \<open>Properties\<close>

lemma running_highest:
  assumes "sched_ok s q idle" "t \<in> set (q G_readytorun)"
  shows "sched_priority s t \<le> sched_priority s (hd (q G_readytorun))"
proof -
  have "desc (sched_priority s) (q G_readytorun)"
    using assms(1) queues_okD(4) [of _ _ q idle G_readytorun] by (auto simp: sched_ok_def sched_base_def)
  then show ?thesis using assms(2) by (cases "q G_readytorun") auto
qed

text \<open>
  C1. In every state reachable from system start by any sequence of task creation, blocking,
  unblocking, preemption locking and unlocking, priority and policy changes, yields and timer ticks,
  there is a running task; no task that is ready to run has a higher priority; unless the running
  task holds the preemption lock no task is held pending; and every task set up so far has the state
  of exactly the list it is linked in.
\<close>

theorem sched_highest_priority_runs:
  assumes "sched_reachable idle s C"
  shows "\<exists>r. this_task s = Some r \<and> r \<in> C \<and> task_state s r = TSTATE_TASK_RUNNING \<and>
    (\<forall>t. t \<in> C \<and> task_state s t = TSTATE_TASK_READYTORUN \<longrightarrow> sched_priority s t \<le> sched_priority s r) \<and>
    (lockcount s r = 0 \<longrightarrow> dq_head (tlists s G_pendingtasks) = None) \<and>
    (\<forall>t \<in> C. \<exists>L. TLIST_HEAD (task_state s t) = Some L \<and>
       (\<forall>M. (\<exists>xs. dq_list (tlinks s, tlists s M) xs \<and> t \<in> set xs) \<longleftrightarrow> M = L))"
proof -
  obtain q where ok: "sched_ok s q idle" and C: "listed q = C"
    using sched_reachable_inv [OF assms] by (auto simp: sched_inv_def)
  have b: "sched_base s q idle" using ok by (simp add: sched_ok_def)
  have l: "sched_lists s q" using b by (simp add: sched_base_def)
  let ?r = "hd (q G_readytorun)"
  have hin: "?r \<in> set (q G_readytorun)" by (rule hd_listed [OF ok])
  have mem: "(\<exists>xs. dq_list (tlinks s, tlists s M) xs \<and> t \<in> set xs) \<longleftrightarrow> t \<in> set (q M)" for t M
    using sched_listsD(1) [OF l, of M] dq_list_unique by blast
  have "\<exists>L. TLIST_HEAD (task_state s t) = Some L \<and>
       (\<forall>M. (\<exists>xs. dq_list (tlinks s, tlists s M) xs \<and> t \<in> set xs) \<longleftrightarrow> M = L)" if tC: "t \<in> C" for t
  proof -
    obtain L where L: "t \<in> set (q L)" using tC C by (auto simp: listed_def)
    have "t \<in> set (q M) \<longleftrightarrow> M = L" for M
      using L state_list(1) [OF b, of t M] state_list(1) [OF b L] by auto
    then show ?thesis unfolding mem using state_list(1) [OF b L] by auto
  qed
  moreover have "sched_priority s t \<le> sched_priority s ?r" if "t \<in> C" "task_state s t = TSTATE_TASK_READYTORUN" for t
    using running_highest [OF ok] listed_in [OF ok] that C by simp
  moreover have "dq_head (tlists s G_pendingtasks) = None" if "lockcount s ?r = 0"
    using that ok sched_listsD(2) [OF l] by (simp add: sched_ok_def)
  moreover have "?r \<in> C" "task_state s ?r = TSTATE_TASK_RUNNING"
    using hin C state_list(2) [OF b hin] by (auto simp: listed_def)
  ultimately show ?thesis using this_task_hd [OF b] by blast
qed

lemma reachable_demo: "\<exists>s. sched_reachable 0 s {0, 1} \<and> this_task s = Some 0"
proof -
  let ?q = "(\<lambda>_. [])(G_readytorun := [0 :: nat])" and ?s = "nx_start_tasklists 0"
  have "fst (nxtask_assign_pid 1 (nx_start_pids 0)) = 0" by code_simp
  then have a: "nxtask_assign_pid 1 (nx_start_pids 0) = (0, snd (nxtask_assign_pid 1 (nx_start_pids 0)))"
    by (metis prod.collapse)
  have lk: "lockcount ?s = (\<lambda>_. 0)" by (simp add: nx_start_tasklists_def put_list_def set_state_def Let_def)
  have th: "this_task ?s = Some 0"
    by (simp add: this_task_def nx_start_tasklists_def put_list_def dq_addfirst_def get_list_def set_state_def dq_init_def Let_def)
  obtain s' where s': "nxthread_setup_scheduler 1 100 (nx_start_pids 0, ?s) =
      Some (0, snd (nxtask_assign_pid 1 (nx_start_pids 0)), s')"
    "sched_ok s' (?q(G_inactivetasks := [1])) 0"
    using setup_scheduler_spec [OF sched_ok_start, of 1 0 100, OF _ _ _ a refl] lk by (auto simp: unlisted_def)
  have "sched_step 0 (?s, {0}) (s', insert 1 {0})"
    by (rule sched_step.create [OF _ _ _ th _ s'(1)]) (simp_all add: lk)
  then have "sched_reachable 0 s' {0, 1}"
    using sched_reachable.step [OF sched_reachable.start] by (metis insert_commute)
  moreover have "this_task s' = Some 0" using this_task_hd [of s' _ 0] s'(2) by (auto simp: sched_ok_def)
  ultimately show ?thesis by blast
qed

theorem sched_highest_priority_runs_witness:
  "\<exists>s. sched_reachable 0 s {0, 1} \<and> this_task s = Some 0 \<and>
    (\<exists>L. TLIST_HEAD (task_state s 1) = Some L \<and>
       (\<forall>M. (\<exists>xs. dq_list (tlinks s, tlists s M) xs \<and> 1 \<in> set xs) \<longleftrightarrow> M = L))"
proof -
  obtain s where s: "sched_reachable 0 s {0, 1}" "this_task s = Some 0" using reachable_demo by blast
  then show ?thesis using sched_highest_priority_runs [OF s(1)] by auto
qed

text \<open>
  C16. No operation of the scheduler loops or follows a NULL pointer: in every reachable state the
  timer tick, the release of the preemption lock and the merge of the pending tasks return, and so do
  blocking and yielding of a running task other than the idle task, unblocking of any task that is not
  ready to run, and any change of priority.
\<close>

theorem sched_operations_return:
  assumes "sched_reachable idle s C"
  shows "nxsched_process_scheduler s \<noteq> None \<and> sched_unlock False s \<noteq> None \<and> nxsched_merge_pending s \<noteq> None \<and>
    (\<forall>t p. t \<in> C \<and> t \<noteq> idle \<longrightarrow> nxsched_set_priority t p s \<noteq> None) \<and>
    (\<forall>t. t \<in> C \<and> TLIST_HEAD (task_state s t) \<noteq> Some G_readytorun \<longrightarrow> up_unblock_task t s \<noteq> None) \<and>
    (\<forall>t st L. this_task s = Some t \<and> t \<noteq> idle \<and> TLIST_HEAD st = Some L \<and> L \<notin> {G_readytorun, G_pendingtasks} \<longrightarrow>
       up_block_task t st s \<noteq> None \<and> sched_yield s \<noteq> None)"
proof -
  obtain q where ok: "sched_ok s q idle" and C: "listed q = C"
    using sched_reachable_inv [OF assms] by (auto simp: sched_inv_def)
  have b: "sched_base s q idle" using ok by (simp add: sched_ok_def)
  have th: "this_task s = Some (hd (q G_readytorun))" by (rule this_task_hd [OF b])
  have "nxsched_process_scheduler s \<noteq> None"
    using roundrobin_ok [OF ok refl] th by (auto simp: nxsched_process_scheduler_def)
  moreover have "sched_unlock False s \<noteq> None" using sched_unlock_spec [OF ok refl] by auto
  moreover have "nxsched_merge_pending s \<noteq> None" using nxsched_merge_pending_spec [OF b] by auto
  moreover have "nxsched_set_priority t p s \<noteq> None" if "t \<in> C" "t \<noteq> idle" for t p
  proof (cases "p < SCHED_PRIORITY_MIN \<or> p > SCHED_PRIORITY_MAX")
    case True
    then show ?thesis by (simp add: nxsched_set_priority_def)
  next
    case False
    then have p: "1 \<le> nat p" "nat p \<le> 255" "int (nat p) = p"
      by (auto simp: SCHED_PRIORITY_MIN_def SCHED_PRIORITY_MAX_def)
    obtain L where "t \<in> set (q L)" using \<open>t \<in> C\<close> C by (auto simp: listed_def)
    from nxsched_set_priority_spec [OF ok this that(2) p(1,2)] show ?thesis unfolding p(3) by auto
  qed
  moreover have "up_unblock_task t s \<noteq> None" if tC: "t \<in> C" and "TLIST_HEAD (task_state s t) \<noteq> Some G_readytorun" for t
  proof -
    obtain L where L: "t \<in> set (q L)" using tC C by (auto simp: listed_def)
    then have "L \<noteq> G_readytorun" using state_list(1) [OF b L] that(2) by auto
    from up_unblock_task_spec [OF ok L this] show ?thesis by auto
  qed
  moreover have "up_block_task t st s \<noteq> None \<and> sched_yield s \<noteq> None"
    if "this_task s = Some t" "t \<noteq> idle" "TLIST_HEAD st = Some L" "L \<notin> {G_readytorun, G_pendingtasks}" for t st L
  proof -
    have t: "t = hd (q G_readytorun)" using that(1) th by simp
    have "t \<in> set (q G_readytorun)" "L \<noteq> G_readytorun" "L \<noteq> G_pendingtasks"
      using t hd_listed [OF ok] that(4) by auto
    from up_block_task_spec [OF ok this(1) that(2,3) this(2,3)] sched_yield_spec [OF ok t that(2)]
    show ?thesis by (elim exE conjE) simp
  qed
  ultimately show ?thesis by blast
qed

theorem sched_operations_return_witness:
  "\<exists>s. sched_reachable 0 s {0, 1} \<and> nxsched_process_scheduler s \<noteq> None \<and> nxsched_set_priority 1 200 s \<noteq> None"
proof -
  obtain s where s: "sched_reachable 0 s {0, 1}" using reachable_demo by blast
  note R = sched_operations_return [OF s]
  have "nxsched_process_scheduler s \<noteq> None" using R by (elim conjE)
  moreover have "\<forall>t p. t \<in> {0, 1} \<and> t \<noteq> 0 \<longrightarrow> nxsched_set_priority t p s \<noteq> None" using R by (elim conjE)
  ultimately show ?thesis using s by (intro exI [of _ s]) simp
qed

text \<open>
  C28. \<open>nxsched_add_prioritized\<close> links a task behind all tasks of at least its priority and before
  all tasks of lower priority, leaves every other list as it was, and returns whether the task is the
  new head.
\<close>

theorem add_prioritized_position:
  assumes "sched_lists s q" "unlisted t q" "desc (sched_priority s) (q L)"
  shows "\<exists>s' us ws. nxsched_add_prioritized t L s = Some (us = [], s') \<and> q L = us @ ws \<and>
    sched_lists s' (q(L := us @ t # ws)) \<and> lists_only s s' \<and>
    (\<forall>x \<in> set us. sched_priority s t \<le> sched_priority s x) \<and>
    (\<forall>x \<in> set ws. sched_priority s x < sched_priority s t)"
proof -
  let ?P = "\<lambda>x. sched_priority s t \<le> sched_priority s x"
  let ?us = "takeWhile ?P (q L)" and ?ws = "dropWhile ?P (q L)"
  have t: "t \<notin> set (q L)" using assms(2) by (simp add: unlisted_def)
  have "t \<notin> set ?us" using t by (meson set_takeWhileD)
  then have e: "hd (?us @ t # ?ws) = t \<longleftrightarrow> ?us = []" by (cases ?us) auto
  obtain s' where s': "nxsched_add_prioritized t L s = Some (?us = [], s')"
    "sched_lists s' (q(L := ?us @ t # ?ws))" "lists_only s s'"
    using nxsched_add_prioritized_spec [OF assms(1,2), of L] unfolding insert_prio_def e by blast
  have "sched_priority s x < sched_priority s t" if xw: "x \<in> set ?ws" for x
  proof -
    obtain w ws where ws: "?ws = w # ws" using list.set_cases [OF xw] by metis
    have "\<not> ?P w" using ws by (metis hd_dropWhile list.sel(1) list.distinct(1))
    moreover have "desc (sched_priority s) (?us @ w # ws)" using assms(3) ws by (metis takeWhile_dropWhile_id)
    then have "sched_priority s x \<le> sched_priority s w" using xw ws by (auto simp: desc_append)
    ultimately show ?thesis by simp
  qed
  moreover have "\<forall>x \<in> set ?us. ?P x" by (auto dest: set_takeWhileD)
  ultimately show ?thesis using s' by (intro exI [of _ s'] exI [of _ ?us] exI [of _ ?ws]) simp
qed

theorem add_prioritized_position_witness:
  "\<exists>s' us ws. nxsched_add_prioritized 4 G_readytorun demo = Some (us = [], s') \<and> [1, 2, 0] = us @ ws \<and>
    sched_lists s' (demo_queues(G_readytorun := us @ 4 # ws))"
proof -
  have "unlisted 4 demo_queues" by (auto simp: unlisted_def demo_queues_def)
  from add_prioritized_position [OF demo_lists this, of G_readytorun] show ?thesis
    unfolding demo_queue by (simp del: One_nat_def) blast
qed

text \<open>
  C29. \<open>nxsched_merge_prioritized\<close> is equivalent to inserting the tasks of the first list into the
  second one after the other by \<open>nxsched_add_prioritized\<close>'s order: it empties the first list, gives
  its tasks the new state, and leaves every other list alone.
\<close>

theorem merge_prioritized_inserts:
  assumes "sched_lists s q" "L1 \<noteq> L2" "desc (sched_priority s) (q L1)" "desc (sched_priority s) (q L2)"
  shows "\<exists>s'. nxsched_merge_prioritized L1 L2 st s = Some s' \<and>
    sched_lists s' (q(L1 := [], L2 := foldl (\<lambda>xs t. insert_prio (sched_priority s) t xs) (q L2) (q L1))) \<and>
    task_state s' = (\<lambda>x. if x \<in> set (q L1) then st else task_state s x) \<and>
    sched_priority s' = sched_priority s \<and> lockcount s' = lockcount s"
  using nxsched_merge_prioritized_spec [OF assms, of st] unfolding merge_prio_def same_tcb_def by blast

theorem merge_prioritized_inserts_witness:
  "\<exists>s'. nxsched_merge_prioritized G_waitingforsemaphore G_readytorun TSTATE_TASK_READYTORUN demo = Some s' \<and>
    sched_lists s' ((\<lambda>_. [])(G_readytorun := [3, 1, 2, 0]))"
proof -
  have "sched_lists s' (demo_queues(G_waitingforsemaphore := [], G_readytorun := [3, 1, 2, 0])) \<longleftrightarrow>
      sched_lists s' ((\<lambda>_. [])(G_readytorun := [3, 1, 2, 0]))" for s'
    by (rule arg_cong [of _ _ "sched_lists s'"]) (auto simp: demo_queues_def)
  moreover have "foldl (\<lambda>xs t. insert_prio (sched_priority demo) t xs) [1, 2, 0] [3] = [3, 1, 2, 0]"
    by (simp add: insert_prio_Cons)
  ultimately show ?thesis
    using merge_prioritized_inserts [OF demo_lists, of G_waitingforsemaphore G_readytorun TSTATE_TASK_READYTORUN]
    unfolding demo_queue by (simp del: One_nat_def foldl_Cons) blast
qed

text \<open>
  C14. Blocking a task refines the abstract scheduler: the task leaves the ready-to-run list, enters the
  list of its new state at the place its priority gives it, pending tasks join the ready-to-run list,
  and the task then running is the abstract head.
\<close>

theorem block_refines:
  assumes "sched_ok s q idle" "t \<in> set (q G_readytorun)" "t \<noteq> idle"
    and "TLIST_HEAD st = Some L" "L \<noteq> G_readytorun" "L \<noteq> G_pendingtasks"
  shows "\<exists>s'. up_block_task t st s = Some s' \<and> sched_ok s' (q_block (sched_priority s) L t q) idle \<and>
    this_task s' = Some (hd (q_block (sched_priority s) L t q G_readytorun)) \<and>
    task_state s' t = st \<and> sched_priority s' = sched_priority s \<and> lockcount s' = lockcount s"
proof -
  let ?q = "q_block (sched_priority s) L t q"
  obtain s' where s': "up_block_task t st s = Some s'" "sched_ok s' ?q idle" "same_tcb s s'"
    using up_block_task_spec [OF assms] by blast
  have b: "sched_base s' ?q idle" using s'(2) by (simp add: sched_ok_def)
  have "t \<in> set (?q L)" using assms(5,6) by (simp add: q_block_def q_merge_def q_enter_def)
  then have "TLIST_HEAD (task_state s' t) = Some L" "task_state s' t \<noteq> TSTATE_TASK_RUNNING"
    using state_list [OF b] assms(5) by auto
  moreover have "st \<noteq> TSTATE_TASK_RUNNING" using assms(4,5) by auto
  ultimately have "task_state s' t = st" using list_state_eq assms(4) by metis
  then show ?thesis using s' this_task_hd [OF b] by (auto simp: same_tcb_def)
qed

theorem block_refines_witness:
  "\<exists>s'. up_block_task 1 TSTATE_WAIT_SEM demo = Some s' \<and> this_task s' = Some 2 \<and> task_state s' 1 = TSTATE_WAIT_SEM"
proof -
  have "q_block (sched_priority demo) G_waitingforsemaphore 1 demo_queues G_readytorun = [2, 0]"
    by (simp add: q_block_def q_merge_def q_enter_def q_remove_def merge_prio_def)
  then show ?thesis using block_refines [OF demo_ok, of 1 TSTATE_WAIT_SEM G_waitingforsemaphore] by auto
qed

text \<open>
  C15. While the running task holds the preemption lock, unblocking a task never takes the processor
  away from it; a task of higher priority is held pending, any other becomes ready to run.
\<close>

theorem lock_prevents_preemption:
  assumes "sched_ok s q idle" "t \<in> set (q L)" "L \<noteq> G_readytorun"
    and "r = hd (q G_readytorun)" "lockcount s r > 0"
  shows "\<exists>s'. up_unblock_task t s = Some s' \<and> this_task s' = Some r \<and> timeslice s' = timeslice s \<and>
    task_state s' t = (if sched_priority s r < sched_priority s t then TSTATE_TASK_PENDING
                       else TSTATE_TASK_READYTORUN)"
proof -
  let ?q = "q_unblock (sched_priority s) (lockcount s) t q"
  have b: "sched_base s q idle" using assms(1) by (simp add: sched_ok_def)
  have ne: "q G_readytorun \<noteq> []" by (rule base_ready_ne [OF b])
  have "t \<notin> set (q G_readytorun)"
    using queues_ok_disjoint [of "sched_priority s" "task_state s" q idle t L G_readytorun] b assms(2,3)
    by (auto simp: sched_base_def)
  then have rt: "r \<noteq> t" using hd_in_set [OF ne] assms(4) by auto
  have hr: "hd (q_remove t q G_readytorun) = r" using hd_q_remove [of q G_readytorun t, OF ne] rt assms(4) by simp
  have hb: "held_back (sched_priority s) (lockcount s) t (q_remove t q) \<longleftrightarrow> sched_priority s r < sched_priority s t"
    using assms(5) by (simp add: held_back_def hr)
  have ne1: "q_remove t q G_readytorun \<noteq> []"
    using ne rt assms(4) by (cases "q G_readytorun") (auto simp: q_remove_def)
  obtain s' where s': "up_unblock_task t s = Some s'" "sched_ok s' ?q idle"
    "resumed (hd (?q G_readytorun) \<noteq> hd (q G_readytorun)) ?q s s'"
    using up_unblock_task_spec [OF assms(1-3)] by blast
  have b': "sched_base s' ?q idle" using s'(2) by (simp add: sched_ok_def)
  have hd': "hd (?q G_readytorun) = r"
    unfolding q_unblock_def using hd_q_ready [of "q_remove t q", OF ne1] hb hr by simp
  have tin: "t \<in> set (?q (if sched_priority s r < sched_priority s t then G_pendingtasks else G_readytorun))"
    unfolding q_unblock_def q_ready_def hb by (simp add: q_enter_def)
  have "task_state s' t = (if sched_priority s r < sched_priority s t then TSTATE_TASK_PENDING else TSTATE_TASK_READYTORUN)"
    using b' queues_okD(5) [of "sched_priority s'" "task_state s'" ?q idle t
        "if sched_priority s r < sched_priority s t then G_pendingtasks else G_readytorun"] tin hd' rt
    by (auto simp: sched_base_def state_in_def)
  then show ?thesis using s'(1,3) this_task_hd [OF b'] hd' assms(4) by (simp add: resumed_def)
qed

theorem lock_prevents_preemption_witness:
  "\<exists>s'. up_unblock_task 3 (sched_lock False demo) = Some s' \<and> this_task s' = Some 1 \<and>
    task_state s' 3 = TSTATE_TASK_PENDING"
proof -
  have L: "sched_lock False demo = set_lockcount 1 1 demo" "sched_ok (sched_lock False demo) demo_queues 0"
    using sched_lock_spec [OF demo_ok, of 1] by simp_all
  then show ?thesis
    using lock_prevents_preemption [OF L(2), of 3 G_waitingforsemaphore 1] by auto
qed

text \<open>
  C18. Releasing the last level of the preemption lock lets every pending task compete: no task is
  pending afterwards, and the task that runs has the highest priority of all that were ready or
  pending.
\<close>

theorem unlock_releases_pending:
  assumes "sched_ok s q idle" "lockcount s (hd (q G_readytorun)) \<le> 1"
  shows "\<exists>s' r. sched_unlock False s = Some s' \<and> this_task s' = Some r \<and>
    dq_head (tlists s' G_pendingtasks) = None \<and>
    (\<forall>t \<in> set (q G_readytorun) \<union> set (q G_pendingtasks). sched_priority s t \<le> sched_priority s r)"
proof -
  let ?q = "q_merge (sched_priority s) q"
  have "q_unlock (sched_priority s) (lockcount s) q = ?q" using assms(2) by (simp add: q_unlock_def)
  then obtain s' where s': "sched_unlock False s = Some s'" "sched_ok s' ?q idle"
    "same_tcb (set_lockcount (hd (q G_readytorun)) (max 0 (lockcount s (hd (q G_readytorun)) - 1)) s) s'"
    using sched_unlock_spec [OF assms(1) refl] by auto
  have pr: "sched_priority s' = sched_priority s" using s'(3) by (simp add: same_tcb_def)
  have b: "sched_base s' ?q idle" using s'(2) by (simp add: sched_ok_def)
  have "\<forall>t \<in> set (q G_readytorun) \<union> set (q G_pendingtasks). sched_priority s t \<le> sched_priority s (hd (?q G_readytorun))"
    using running_highest [OF s'(2)] unfolding pr by (auto simp: q_merge_def)
  moreover have "dq_head (tlists s' G_pendingtasks) = None"
    using b sched_listsD(2) [of s' ?q G_pendingtasks] by (simp add: sched_base_def q_merge_def)
  ultimately show ?thesis using s'(1) this_task_hd [OF b] by blast
qed

theorem unlock_releases_pending_witness:
  "\<exists>s1 s2. up_unblock_task 3 (sched_lock False demo) = Some s1 \<and> this_task s1 = Some 1 \<and>
     sched_unlock False s1 = Some s2 \<and> dq_head (tlists s2 G_pendingtasks) = None"
proof -
  let ?s = "sched_lock False demo" and ?q = "q_unblock (sched_priority demo) ((\<lambda>_. 0)(1 := 1)) 3 demo_queues"
  have L: "?s = set_lockcount 1 1 demo" "sched_ok ?s demo_queues 0"
    using sched_lock_spec [OF demo_ok, of 1] by simp_all
  have lk: "lockcount ?s = (\<lambda>_. 0)(1 := 1)" using L(1) by auto
  obtain s1 where s1: "up_unblock_task 3 ?s = Some s1" "sched_ok s1 ?q 0" "same_tcb ?s s1"
    using up_unblock_task_spec [OF L(2), of 3 G_waitingforsemaphore] L(1) lk by auto
  have q: "?q G_readytorun = [1, 2, 0]"
    by (simp add: q_unblock_def q_ready_def held_back_def q_remove_def q_enter_def)
  have "this_task s1 = Some 1" using this_task_hd [of s1 ?q 0] s1(2) q by (simp add: sched_ok_def)
  moreover have "lockcount s1 (hd (?q G_readytorun)) \<le> 1" using s1(3) lk q by (simp add: same_tcb_def)
  ultimately show ?thesis using unlock_releases_pending [OF s1(2)] s1(1) by auto
qed

text \<open>
  C30. \<open>nxsched_set_priority\<close> rejects a priority outside 1 to 255 with \<open>-EINVAL\<close> and changes
  nothing; otherwise it returns 0, the task has the new priority and every other task its old one,
  no task is lost, and the task that runs afterwards has the highest priority of the ready ones.
\<close>

theorem set_priority_effect:
  assumes "sched_ok s q idle" "t \<in> set (q L)" "t \<noteq> idle"
  shows "if p < 1 \<or> 255 < p then nxsched_set_priority t p s = Some (- EINVAL, s)
    else \<exists>s' q'. nxsched_set_priority t p s = Some (0, s') \<and> sched_ok s' q' idle \<and>
      sched_priority s' = (sched_priority s)(t := nat p) \<and> lockcount s' = lockcount s \<and>
      (\<Union>M. set (q' M)) = (\<Union>M. set (q M)) \<and> this_task s' = Some (hd (q' G_readytorun)) \<and>
      (\<forall>x \<in> set (q' G_readytorun). sched_priority s' x \<le> sched_priority s' (hd (q' G_readytorun)))"
proof (cases "p < 1 \<or> 255 < p")
  case True
  then show ?thesis by (auto simp: nxsched_set_priority_def SCHED_PRIORITY_MIN_def SCHED_PRIORITY_MAX_def)
next
  case False
  define n where "n = nat p"
  have n: "p = int n" "1 \<le> n" "n \<le> 255" using False by (auto simp: n_def)
  let ?q = "q_setprio (sched_priority s) (lockcount s) t n L q"
  obtain s' where s': "nxsched_set_priority t p s = Some (0, s')" "sched_ok s' ?q idle" "same_tcb (set_prio t n s) s'"
    using nxsched_set_priority_spec [OF assms n(2,3)] n(1) by auto
  have "sched_priority s' = (sched_priority s)(t := nat p)" "lockcount s' = lockcount s"
    using s'(3) by (simp_all add: same_tcb_def set_prio_def n_def)
  moreover have "(\<Union>M. set (?q M)) = (\<Union>M. set (q M))"
    using listed_setprio [of t q L "sched_priority s" "lockcount s" n, OF assms(2)] by (simp add: listed_def)
  moreover have "this_task s' = Some (hd (?q G_readytorun))"
    using this_task_hd [of s' ?q idle] s'(2) by (simp add: sched_ok_def)
  ultimately show ?thesis using False s'(1,2) running_highest [OF s'(2)] unfolding if_not_P [OF False] by blast
qed

theorem set_priority_effect_witness:
  "nxsched_set_priority 3 0 demo = Some (- EINVAL, demo) \<and>
   (\<exists>s'. nxsched_set_priority 2 200 demo = Some (0, s') \<and> sched_priority s' 2 = 200)"
proof
  show "nxsched_set_priority 3 0 demo = Some (- EINVAL, demo)"
    using set_priority_effect [OF demo_ok, of 3 G_waitingforsemaphore 0] by simp
  show "\<exists>s'. nxsched_set_priority 2 200 demo = Some (0, s') \<and> sched_priority s' 2 = 200"
    using set_priority_effect [OF demo_ok, of 2 G_readytorun 200] by auto
qed

text \<open>
  C31. \<open>sched_yield\<close> puts the running task behind all ready tasks of its priority: if the next task
  has the same priority it runs, otherwise the caller keeps running.
\<close>

theorem yield_rotates:
  assumes "sched_ok s q idle" "q G_readytorun = t # peers @ lower" "lockcount s t \<le> 0" "1 \<le> sched_priority s t"
    and "\<forall>x \<in> set peers. sched_priority s x = sched_priority s t"
    and "\<forall>y \<in> set lower. sched_priority s y < sched_priority s t"
  shows "\<exists>s' q'. sched_yield s = Some (0, s') \<and> sched_ok s' q' idle \<and>
    q' = q(G_readytorun := peers @ t # lower) \<and> sched_priority s' = sched_priority s"
proof -
  let ?pr = "sched_priority s"
  have b: "sched_base s q idle" using assms(1) by (simp add: sched_ok_def)
  have th: "t = hd (q G_readytorun)" using assms(2) by simp
  have "?pr idle = 0" using b queues_okD(2) by (auto simp: sched_base_def)
  then have ti: "t \<noteq> idle" using assms(4) by auto
  let ?q = "if ?pr t \<le> ?pr (q G_readytorun ! 1) then q_merge ?pr (q_rotate ?pr q) else q"
  obtain s' where s': "sched_yield s = Some (0, s')" "sched_ok s' ?q idle" "same_tcb s s'"
    using sched_yield_spec [OF assms(1) th ti] by blast
  have pend: "q G_pendingtasks = []" using assms(1,3) th by (simp add: sched_ok_def)
  have "?q = q(G_readytorun := peers @ t # lower)"
  proof (cases peers)
    case Nil
    obtain rest where rest: "q G_readytorun = t # q G_readytorun ! 1 # rest" by (rule second_ready [OF b th ti])
    then have "q G_readytorun ! 1 \<in> set lower" using assms(2) Nil by (cases lower) auto
    then have "\<not> ?pr t \<le> ?pr (q G_readytorun ! 1)" using assms(6) by auto
    then show ?thesis using assms(2) Nil by auto
  next
    case (Cons x xs)
    then have "?pr t \<le> ?pr (q G_readytorun ! 1)" using assms(2,5) by simp
    moreover have "q_rotate ?pr q = q(G_readytorun := peers @ t # lower)"
      using insert_prio_peers [of peers ?pr t lower] assms(2,5,6) by (simp add: q_rotate_def)
    ultimately show ?thesis using pend by (simp add: q_merge_none)
  qed
  then show ?thesis using s' by (auto simp: same_tcb_def)
qed

theorem yield_rotates_witness:
  "\<exists>s' q'. sched_yield demo = Some (0, s') \<and> sched_ok s' q' 0 \<and> q' G_readytorun = [2, 1, 0]"
proof -
  obtain s' where "sched_yield demo = Some (0, s')" "sched_ok s' (demo_queues(G_readytorun := [2, 1, 0])) 0"
    using yield_rotates [OF demo_ok, of 1 "[2]" "[0]"] by auto
  then show ?thesis by (metis fun_upd_same)
qed

text \<open>
  C6. Round-robin tasks of the highest priority all run: if \<open>m\<close> ticks of the running task's time slice
  are left, the \<open>i\<close>-th task behind it runs after exactly \<open>m + (i - 1) * 20\<close> timer ticks.
\<close>

theorem round_robin_everyone_runs:
  assumes "sched_ok s q idle" "q G_readytorun = ts @ lower" "1 \<le> p"
    and "\<forall>x \<in> set ts. sched_priority s x = p \<and> sched_rr s x \<and> lockcount s x \<le> 0"
    and "\<forall>y \<in> set lower. sched_priority s y < p"
    and "timeslice s (hd ts) = int m" "1 \<le> m" "m \<le> 20" "0 < i" "i < length ts"
  shows "\<exists>s'. run_ticks (m + (i - 1) * 20) s = Some s' \<and> this_task s' = Some (ts ! i)"
proof -
  have "ts \<noteq> []" using assms(10) by auto
  then have "rr_group s q idle ts p" using assms(1-5) by (auto simp: rr_group_def)
  then show ?thesis by (rule rr_everyone_runs [OF _ assms(6-10)])
qed

theorem round_robin_everyone_runs_witness:
  "\<exists>s'. run_ticks 20 demo = Some s' \<and> this_task s' = Some 2"
proof -
  have "\<exists>s'. run_ticks (20 + (1 - 1) * 20) demo = Some s' \<and> this_task s' = Some ([1, 2] ! 1)"
    by (rule round_robin_everyone_runs [OF demo_ok, of "[1, 2]" "[0]" 100]) auto
  then show ?thesis by simp
qed

text \<open>
  C32. \<open>nxtask_assign_pid\<close> fails only when the table is full.  When it succeeds, the new PID is a
  positive 16-bit number that was in use by no task, the lookup of that PID gives the new task, and
  every lookup that gave a task before still gives it.
\<close>

theorem assign_pid_lookup:
  assumes "pid_ok p" "\<not> pid_live t p"
  shows "if \<forall>i < CONFIG_MAX_TASKS. pidhash_tcb p i \<noteq> None then fst (nxtask_assign_pid t p) = - 1
    else \<exists>p' n. nxtask_assign_pid t p = (0, p') \<and> pid_ok p' \<and> 0 < n \<and> n < 2 ^ 15 \<and>
      nxsched_get_tcb n p = None \<and> nxsched_get_tcb n p' = Some t \<and> nxsched_verify_tcb t p' \<and>
      (\<forall>pid x. nxsched_get_tcb pid p = Some x \<longrightarrow> nxsched_get_tcb pid p' = Some x)"
proof (cases "\<forall>i < CONFIG_MAX_TASKS. pidhash_tcb p i \<noteq> None")
  case True
  then show ?thesis using nxtask_assign_pid_spec [OF assms] by auto
next
  case False
  then obtain n where n: "nxtask_assign_pid t p = (0, pid_enter t n p)" "0 < n" "n < 2 ^ 15"
    "pidhash_tcb p (PIDHASH n) = None"
    using nxtask_assign_pid_spec [OF assms] unfolding if_not_P [OF False] by blast
  let ?p = "pid_enter t n p"
  have ok: "pid_ok ?p" by (rule pid_ok_enter [OF assms n(2-4)])
  have tp: "tcb_pid ?p t = n" by (simp add: pid_enter_def)
  have "nxsched_get_tcb n p = None" using n(4) by (simp add: nxsched_get_tcb_def Let_def)
  moreover have "nxsched_get_tcb n ?p = Some t"
    using get_tcb_live [OF ok] pid_live_enter [OF n(4)] tp by simp
  moreover have "nxsched_get_tcb pid ?p = Some x" if "nxsched_get_tcb pid p = Some x" for pid x
  proof -
    have x: "pid_live x p" "tcb_pid p x = pid" using that get_tcb_live [OF assms(1)] by auto
    then have "x \<noteq> t" using assms(2) by auto
    then show ?thesis using x get_tcb_live [OF ok] pid_live_enter [OF n(4)] by (simp add: pid_enter_def)
  qed
  moreover have "nxsched_verify_tcb t ?p" by (simp add: nxsched_verify_tcb_def pid_enter_def)
  ultimately show ?thesis using n(1-3) ok unfolding if_not_P [OF False] by blast
qed

theorem assign_pid_lookup_witness:
  "\<exists>p' n. nxtask_assign_pid 7 (nx_start_pids 0) = (0, p') \<and> nxsched_get_tcb n p' = Some 7 \<and>
     nxsched_get_tcb 0 p' = Some 0"
proof -
  have "\<not> pid_live 7 (nx_start_pids 0)" by (auto simp: pid_live_def nx_start_pids_def)
  note P = assign_pid_lookup [OF pid_ok_start this]
  have free: "\<not> (\<forall>i < CONFIG_MAX_TASKS. pidhash_tcb (nx_start_pids 0) i \<noteq> None)"
    by (auto simp: nx_start_pids_def PIDHASH_def CONFIG_MAX_TASKS_def intro!: exI [of _ 1])
  have "nxsched_get_tcb 0 (nx_start_pids 0) = Some 0" by (simp add: nxsched_get_tcb_def nx_start_pids_def)
  then show ?thesis using P unfolding if_not_P [OF free] by blast
qed

end
