(* ===== verification/Sem.thy ===== *)
theory Sem
  imports Sched_Task
begin

text \<open>
  Counting semaphores (\<open>sched/semaphore\<close>, \<open>libs/libc/semaphore\<close>) without priority inheritance, on
  top of the scheduler.

  A semaphore is named by a number, a pointer to one that may be NULL is an \<open>option\<close>.  Every call
  runs in a critical section and is one step, except that \<open>nxsem_wait\<close> may suspend its caller: then
  it yields no result yet, and \<open>nxsem_wait_resume\<close> is the rest of the function, executed when the
  caller runs again.  In each result the outer \<open>None\<close> means a NULL pointer followed or a loop that
  does not end.  Assertions are compiled out and there are no cancellation points.
\<close>

section \<open>State\<close>

record kernel =
  ksched :: sched
  kpids :: pidtab
  semcount :: "nat \<Rightarrow> int"
  waitsem :: "nat \<Rightarrow> nat option"
  errcode :: "nat \<Rightarrow> int"
  tl_errno :: "nat \<Rightarrow> int"

definition SEM_VALUE_MAX :: int where "SEM_VALUE_MAX = 0x7fff"

definition set_semcount :: "nat \<Rightarrow> int \<Rightarrow> 'a kernel_scheme \<Rightarrow> 'a kernel_scheme" where
  "set_semcount m n k = k\<lparr>semcount := (semcount k)(m := int16 n)\<rparr>"

definition set_waitsem :: "nat \<Rightarrow> nat option \<Rightarrow> 'a kernel_scheme \<Rightarrow> 'a kernel_scheme" where
  "set_waitsem t m k = k\<lparr>waitsem := (waitsem k)(t := m)\<rparr>"

definition set_errcode :: "nat \<Rightarrow> int \<Rightarrow> 'a kernel_scheme \<Rightarrow> 'a kernel_scheme" where
  "set_errcode t e k = k\<lparr>errcode := (errcode k)(t := int16 e)\<rparr>"

text \<open>\<open>set_errno\<close> of the running task, and the way POSIX functions report a negated error number.\<close>

definition set_errno :: "int \<Rightarrow> 'a kernel_scheme \<Rightarrow> 'a kernel_scheme" where
  "set_errno e k =
     (case this_task (ksched k) of
        None \<Rightarrow> k
      | Some t \<Rightarrow> k\<lparr>tl_errno := (tl_errno k)(t := e)\<rparr>)"

definition posix_result :: "int \<times> 'a kernel_scheme \<Rightarrow> int \<times> 'a kernel_scheme" where
  "posix_result r = (if fst r < 0 then (- 1, set_errno (- fst r) (snd r)) else r)"

section \<open>Operations\<close>

definition nxsem_init :: "nat option \<Rightarrow> int \<Rightarrow> 'a kernel_scheme \<Rightarrow> int \<times> 'a kernel_scheme" where
  "nxsem_init sem value k =
     (case sem of
        Some m \<Rightarrow> if value \<le> SEM_VALUE_MAX then (0, set_semcount m value k) else (- EINVAL, k)
      | None \<Rightarrow> (- EINVAL, k))"

definition sem_init :: "nat option \<Rightarrow> int \<Rightarrow> 'a kernel_scheme \<Rightarrow> int \<times> 'a kernel_scheme" where
  "sem_init sem value k = posix_result (nxsem_init sem value k)"

text \<open>The value stored through \<open>sval\<close> is the second result; \<open>sval\<close> says whether it is not NULL.\<close>

definition nxsem_get_value :: "nat option \<Rightarrow> bool \<Rightarrow> 'a kernel_scheme \<Rightarrow> int \<times> int option" where
  "nxsem_get_value sem sval k =
     (case sem of
        Some m \<Rightarrow> if sval then (0, Some (semcount k m)) else (- EINVAL, None)
      | None \<Rightarrow> (- EINVAL, None))"

definition sem_getvalue :: "nat option \<Rightarrow> bool \<Rightarrow> 'a kernel_scheme \<Rightarrow> int \<times> int option \<times> 'a kernel_scheme" where
  "sem_getvalue sem sval k =
     (let (ret, v) = nxsem_get_value sem sval k; (ret', k') = posix_result (ret, k) in (ret', v, k'))"

definition nxsem_wait :: "nat option \<Rightarrow> 'a kernel_scheme \<Rightarrow> (int option \<times> 'a kernel_scheme) option" where
  "nxsem_wait sem k =
     (case sem of
        None \<Rightarrow> Some (Some (- EINVAL), k)
      | Some m \<Rightarrow>
          do {
            rtcb \<leftarrow> this_task (ksched k);
            if semcount k m > 0
            then Some (Some 0, set_waitsem rtcb None (set_semcount m (semcount k m - 1) k))
            else do {
              let k1 = set_errcode rtcb 0 (set_waitsem rtcb (Some m) (set_semcount m (semcount k m - 1) k));
              s \<leftarrow> up_block_task rtcb TSTATE_WAIT_SEM (ksched k1);
              Some (None, k1\<lparr>ksched := s\<rparr>) } })"

definition nxsem_wait_resume :: "nat \<Rightarrow> 'a kernel_scheme \<Rightarrow> int" where
  "nxsem_wait_resume rtcb k = (if errcode k rtcb \<noteq> 0 then - errcode k rtcb else 0)"

text \<open>
  \<open>nxsem_wait_uninterruptible\<close> starts as \<open>nxsem_wait\<close> does, whose immediate results are not
  \<open>-EINTR\<close>; when the caller runs again it returns or repeats the wait.
\<close>

definition nxsem_wait_uninterruptible ::
    "nat option \<Rightarrow> 'a kernel_scheme \<Rightarrow> (int option \<times> 'a kernel_scheme) option" where
  "nxsem_wait_uninterruptible sem k = nxsem_wait sem k"

definition nxsem_wait_uninterruptible_resume ::
    "nat \<Rightarrow> nat option \<Rightarrow> 'a kernel_scheme \<Rightarrow> (int option \<times> 'a kernel_scheme) option" where
  "nxsem_wait_uninterruptible_resume rtcb sem k =
     (let ret = nxsem_wait_resume rtcb k in if ret = - EINTR then nxsem_wait sem k else Some (Some ret, k))"

definition sem_wait :: "nat option \<Rightarrow> 'a kernel_scheme \<Rightarrow> (int option \<times> 'a kernel_scheme) option" where
  "sem_wait sem k =
     do { (r, k1) \<leftarrow> nxsem_wait sem k;
          Some (case r of None \<Rightarrow> (None, k1) | Some ret \<Rightarrow> map_prod Some id (posix_result (ret, k1))) }"

definition sem_wait_resume :: "nat \<Rightarrow> 'a kernel_scheme \<Rightarrow> int \<times> 'a kernel_scheme" where
  "sem_wait_resume rtcb k = posix_result (nxsem_wait_resume rtcb k, k)"

definition nxsem_trywait :: "nat option \<Rightarrow> 'a kernel_scheme \<Rightarrow> (int \<times> 'a kernel_scheme) option" where
  "nxsem_trywait sem k =
     (case sem of
        Some m \<Rightarrow>
          if semcount k m > 0
          then do { rtcb \<leftarrow> this_task (ksched k);
                    Some (0, set_waitsem rtcb None (set_semcount m (semcount k m - 1) k)) }
          else Some (- EAGAIN, k)
      | None \<Rightarrow> Some (- EINVAL, k))"

definition sem_trywait :: "nat option \<Rightarrow> 'a kernel_scheme \<Rightarrow> (int \<times> 'a kernel_scheme) option" where
  "sem_trywait sem k = map_option posix_result (nxsem_trywait sem k)"

text \<open>\<open>for (stcb = g_waitingforsemaphore.head; stcb && stcb->waitsem != sem; stcb = stcb->flink);\<close>\<close>

partial_function (option) sem_search ::
    "nat option \<Rightarrow> (nat \<Rightarrow> nat option) \<Rightarrow> (nat \<Rightarrow> nat option) \<Rightarrow> nat \<Rightarrow> nat option option" where
  "sem_search stcb next ws m =
     (case stcb of
        None \<Rightarrow> Some None
      | Some t \<Rightarrow> if ws t \<noteq> Some m then sem_search (next t) next ws m else Some (Some t))"

definition nxsem_post :: "nat option \<Rightarrow> 'a kernel_scheme \<Rightarrow> (int \<times> 'a kernel_scheme) option" where
  "nxsem_post sem k =
     (case sem of
        None \<Rightarrow> Some (- EINVAL, k)
      | Some m \<Rightarrow>
          if semcount k m \<ge> SEM_VALUE_MAX then Some (- EOVERFLOW, k)
          else (let k1 = set_semcount m (semcount k m + 1) k
                in if semcount k1 m \<le> 0
                   then do {
                     stcb \<leftarrow> sem_search (dq_head (tlists (ksched k1) G_waitingforsemaphore))
                              (flink (tlinks (ksched k1))) (waitsem k1) m;
                     case stcb of
                       None \<Rightarrow> Some (0, k1)
                     | Some t \<Rightarrow>
                         do { let k2 = set_waitsem t None k1;
                              s \<leftarrow> up_unblock_task t (ksched k2);
                              Some (0, k2\<lparr>ksched := s\<rparr>) } }
                   else Some (0, k1)))"

definition sem_post :: "nat option \<Rightarrow> 'a kernel_scheme \<Rightarrow> (int \<times> 'a kernel_scheme) option" where
  "sem_post sem k = map_option posix_result (nxsem_post sem k)"

text \<open>The end of a wait by a signal or a timeout.\<close>

definition nxsem_wait_irq :: "nat \<Rightarrow> int \<Rightarrow> 'a kernel_scheme \<Rightarrow> 'a kernel_scheme option" where
  "nxsem_wait_irq wtcb err k =
     (if task_state (ksched k) wtcb = TSTATE_WAIT_SEM
      then do {
        m \<leftarrow> waitsem k wtcb;
        let k1 = set_errcode wtcb err (set_waitsem wtcb None (set_semcount m (semcount k m + 1) k));
        s \<leftarrow> up_unblock_task wtcb (ksched k1);
        Some (k1\<lparr>ksched := s\<rparr>) }
      else Some k)"

definition nxsem_timeout :: "int \<Rightarrow> 'a kernel_scheme \<Rightarrow> 'a kernel_scheme option" where
  "nxsem_timeout pid k =
     (case nxsched_get_tcb (int16 pid) (kpids k) of
        None \<Rightarrow> Some k
      | Some wtcb \<Rightarrow>
          if task_state (ksched k) wtcb = TSTATE_WAIT_SEM then nxsem_wait_irq wtcb ETIMEDOUT k else Some k)"

definition nxsem_recover :: "nat \<Rightarrow> 'a kernel_scheme \<Rightarrow> 'a kernel_scheme option" where
  "nxsem_recover tcb k =
     (if task_state (ksched k) tcb = TSTATE_WAIT_SEM
      then do { m \<leftarrow> waitsem k tcb;
                Some (set_waitsem tcb None (set_semcount m (semcount k m + 1) k)) }
      else Some k)"

definition nxsem_destroy :: "nat option \<Rightarrow> 'a kernel_scheme \<Rightarrow> int \<times> 'a kernel_scheme" where
  "nxsem_destroy sem k =
     (case sem of
        Some m \<Rightarrow> (0, if semcount k m \<ge> 0 then set_semcount m 1 k else k)
      | None \<Rightarrow> (- EINVAL, k))"

definition sem_destroy :: "nat option \<Rightarrow> 'a kernel_scheme \<Rightarrow> int \<times> 'a kernel_scheme" where
  "sem_destroy sem k = posix_result (nxsem_destroy sem k)"

partial_function (option) sem_reset_loop ::
    "nat \<Rightarrow> int \<Rightarrow> 'a kernel_scheme \<Rightarrow> (int \<times> 'a kernel_scheme) option" where
  "sem_reset_loop m count k =
     (if semcount k m < 0 \<and> count > 0
      then do { (_, k1) \<leftarrow> nxsem_post (Some m) k; sem_reset_loop m (int16 (count - 1)) k1 }
      else Some (count, k))"

definition nxsem_reset :: "bool \<Rightarrow> nat \<Rightarrow> int \<Rightarrow> 'a kernel_scheme \<Rightarrow> (int \<times> 'a kernel_scheme) option" where
  "nxsem_reset irq m count k =
     do {
       let k1 = k\<lparr>ksched := sched_lock irq (ksched k)\<rparr>;
       (count', k2) \<leftarrow> sem_reset_loop m count k1;
       let k3 = (if semcount k2 m \<ge> 0 then set_semcount m count' k2 else k2);
       s \<leftarrow> sched_unlock irq (ksched k3);
       Some (0, k3\<lparr>ksched := s\<rparr>)
     }"

end
