(* ===== verification/Sem_Correct.thy ===== *)
theory Sem_Correct
  imports Sem
begin

text \<open>
  The invariant of the semaphores and the effect of every operation on counts and waiting tasks:
  a negative count is the number of tasks that wait, and they wait in the order of their
  priorities, those of equal priority in the order of their arrival.
\<close>

section \<open>Invariant\<close>

abbreviation W :: tasklist where "W \<equiv> G_waitingforsemaphore"

definition sem_waiters :: "'a kernel_scheme \<Rightarrow> queues \<Rightarrow> nat \<Rightarrow> nat list" where
  "sem_waiters k q m = filter (\<lambda>t. waitsem k t = Some m) (q W)"

definition sem_inv :: "'a kernel_scheme \<Rightarrow> queues \<Rightarrow> nat \<Rightarrow> bool" where
  "sem_inv k q idle \<longleftrightarrow>
     sched_ok (ksched k) q idle \<and>
     (\<forall>m. - 32768 \<le> semcount k m \<and> semcount k m \<le> SEM_VALUE_MAX \<and>
          length (sem_waiters k q m) = nat (- semcount k m)) \<and>
     (\<forall>t. waitsem k t \<noteq> None \<longrightarrow> t \<in> set (q W))"

lemma sem_invD:
  assumes "sem_inv k q idle"
  shows "sched_ok (ksched k) q idle" "- 32768 \<le> semcount k m" "semcount k m \<le> SEM_VALUE_MAX"
    "length (sem_waiters k q m) = nat (- semcount k m)" "waitsem k t = Some m \<Longrightarrow> t \<in> set (q W)"
    "t \<notin> set (q W) \<Longrightarrow> waitsem k t = None"
  using assms unfolding sem_inv_def by blast+

lemma int16_id: "- 32768 \<le> n \<Longrightarrow> n \<le> 32767 \<Longrightarrow> int16 n = n"
  by (rule sint_cast_id) simp_all

lemma kernel_fields [simp]:
  "ksched (set_semcount m n k) = ksched k" "ksched (set_waitsem t w k) = ksched k" "ksched (set_errcode t e k) = ksched k"
  "kpids (set_semcount m n k) = kpids k" "kpids (set_waitsem t w k) = kpids k" "kpids (set_errcode t e k) = kpids k"
  "semcount (set_semcount m n k) = (semcount k)(m := int16 n)" "semcount (set_waitsem t w k) = semcount k"
  "semcount (set_errcode t e k) = semcount k"
  "waitsem (set_semcount m n k) = waitsem k" "waitsem (set_waitsem t w k) = (waitsem k)(t := w)"
  "waitsem (set_errcode t e k) = waitsem k"
  "errcode (set_semcount m n k) = errcode k" "errcode (set_waitsem t w k) = errcode k"
  "errcode (set_errcode t e k) = (errcode k)(t := int16 e)"
  by (simp_all add: set_semcount_def set_waitsem_def set_errcode_def)

lemma sched_ok_distinct:
  assumes "sched_ok s q idle"
  shows "distinct (q L)" "L \<noteq> M \<Longrightarrow> t \<in> set (q L) \<Longrightarrow> t \<notin> set (q M)"
  using assms sched_listsD(4,5) [of s q] by (auto simp: sched_ok_def sched_base_def)

lemma waiting_desc:
  assumes "sched_ok s q idle"
  shows "desc (sched_priority s) (q W)"
  using assms queues_okD(4) [of "sched_priority s" "task_state s" q idle W]
  by (simp add: sched_ok_def sched_base_def)

lemma waiting_state:
  assumes "sched_ok s q idle" "t \<in> set (q W)"
  shows "task_state s t = TSTATE_WAIT_SEM"
  using state_list(1) [of s q idle t W] assms by (cases "task_state s t") (auto simp: sched_ok_def)

lemma running_not_waiting:
  assumes "sem_inv k q idle"
  shows "hd (q G_readytorun) \<notin> set (q W)" "waitsem k (hd (q G_readytorun)) = None" "this_task (ksched k) = Some (hd (q G_readytorun))"
proof -
  note ok = sem_invD(1) [OF assms]
  have b: "sched_base (ksched k) q idle" using ok by (simp add: sched_ok_def)
  have "hd (q G_readytorun) \<in> set (q G_readytorun)" using base_ready_ne [OF b] by simp
  then show n: "hd (q G_readytorun) \<notin> set (q W)" using sched_ok_distinct(2) [OF ok, of G_readytorun W] by simp
  then show "waitsem k (hd (q G_readytorun)) = None" by (rule sem_invD(6) [OF assms])
  show "this_task (ksched k) = Some (hd (q G_readytorun))" by (rule this_task_hd [OF b])
qed

section \<open>Lists of waiting tasks\<close>

lemma filter_insert_prio:
  "desc pr xs \<Longrightarrow> filter P (insert_prio pr t xs) = (if P t then insert_prio pr t (filter P xs) else filter P xs)"
proof (induction xs)
  case (Cons x xs)
  have low: "insert_prio pr t (filter P xs) = t # filter P xs" if "pr x < pr t"
  proof (cases "filter P xs")
    case (Cons y ys)
    then have "y \<in> set (filter P xs)" by simp
    then have "y \<in> set xs" by simp
    then have "pr y < pr t" using Cons.prems that by (fastforce intro: order_le_less_trans)
    then show ?thesis using Cons by (simp add: insert_prio_Cons)
  qed simp
  show ?case using Cons low by (auto simp: insert_prio_Cons)
qed simp

lemma q_block_W:
  assumes "sched_ok s q idle" "t \<in> set (q G_readytorun)"
  shows "q_block pr W t q W = insert_prio pr t (q W)"
proof -
  have "t \<notin> set (q W)" using sched_ok_distinct(2) [OF assms(1), of G_readytorun W] assms(2) by simp
  then have "filter (\<lambda>x. x \<noteq> t) (q W) = q W" by (auto simp: filter_id_conv)
  then show ?thesis by (simp add: q_block_def q_merge_def q_enter_def q_remove_def enqueue_def)
qed

lemma q_unblock_W: "q_unblock pr lk t q W = filter (\<lambda>x. x \<noteq> t) (q W)"
  by (simp add: q_unblock_def q_ready_def q_enter_def q_remove_def)

lemma waiters_leave:
  assumes "filter (\<lambda>x. x \<noteq> t) (q' W) = filter (\<lambda>x. x \<noteq> t) (q W)" "waitsem k' = (waitsem k)(t := None)"
  shows "sem_waiters k' q' m = filter (\<lambda>x. x \<noteq> t) (sem_waiters k q m)"
proof -
  have "sem_waiters k' q' m = filter (\<lambda>x. waitsem k x = Some m) (filter (\<lambda>x. x \<noteq> t) (q' W))"
    using assms(2) by (auto simp: sem_waiters_def intro: filter_cong)
  then show ?thesis unfolding assms(1) by (simp add: sem_waiters_def conj_commute)
qed

lemma length_remove1_distinct: "distinct xs \<Longrightarrow> t \<in> set xs \<Longrightarrow> length (filter (\<lambda>x. x \<noteq> t) xs) = length xs - 1"
proof (induction xs)
  case (Cons x xs)
  show ?case
  proof (cases "x = t")
    case True
    then have "filter (\<lambda>x. x \<noteq> t) xs = xs" using Cons.prems(1) by (auto simp: filter_id_conv)
    then show ?thesis using True by simp
  next
    case False
    then have "t \<in> set xs" using Cons.prems(2) by simp
    then show ?thesis using False Cons length_pos_if_in_set [of t xs] by simp
  qed
qed simp

lemma waiters_distinct: "sched_ok (ksched k) q idle \<Longrightarrow> distinct (sem_waiters k q m)"
  by (simp add: sem_waiters_def sched_ok_distinct(1))

text \<open>A waiting task leaves: the count of its semaphore goes up by one.\<close>

lemma sem_inv_leave:
  assumes inv: "sem_inv k q idle" and t: "waitsem k t = Some m"
    and ok: "sched_ok (ksched k') q' idle" and q': "filter (\<lambda>x. x \<noteq> t) (q' W) = filter (\<lambda>x. x \<noteq> t) (q W)"
    and k': "waitsem k' = (waitsem k)(t := None)" "semcount k' = (semcount k)(m := int16 (semcount k m + 1))"
  shows "sem_inv k' q' idle" "semcount k m < 0" "semcount k' m = semcount k m + 1"
proof -
  note D = sem_invD [OF inv]
  have tm: "t \<in> set (sem_waiters k q m)" using t D(5) [of t m] by (simp add: sem_waiters_def)
  then have "0 < length (sem_waiters k q m)" by (cases "sem_waiters k q m") auto
  then show neg: "semcount k m < 0" using D(4) [of m] by simp
  then show s: "semcount k' m = semcount k m + 1"
    using D(2) [of m] k'(2) int16_id [of "semcount k m + 1"] by simp
  have w: "sem_waiters k' q' m' = filter (\<lambda>x. x \<noteq> t) (sem_waiters k q m')" for m'
    using q' k'(1) by (rule waiters_leave)
  have "length (sem_waiters k' q' m') = nat (- semcount k' m')" for m'
  proof (cases "m' = m")
    case True
    then show ?thesis using w length_remove1_distinct [OF waiters_distinct [OF D(1)] tm] D(4) [of m] s neg by simp
  next
    case False
    then have "t \<notin> set (sem_waiters k q m')" using t by (simp add: sem_waiters_def)
    then have "filter (\<lambda>x. x \<noteq> t) (sem_waiters k q m') = sem_waiters k q m'" by (auto simp: filter_id_conv)
    then show ?thesis using w D(4) [of m'] False k'(2) by simp
  qed
  moreover have "- 32768 \<le> semcount k' m' \<and> semcount k' m' \<le> SEM_VALUE_MAX" for m'
    using D(2,3) [of m'] D(2) [of m] s neg k'(2) by (cases "m' = m") (auto simp: SEM_VALUE_MAX_def)
  moreover have "v \<in> set (q' W)" if "waitsem k' v \<noteq> None" for v
  proof -
    have "v \<in> set (filter (\<lambda>x. x \<noteq> t) (q W))" using that D(5) [of v] k'(1) by (auto split: if_splits)
    then show ?thesis unfolding q' [symmetric] by simp
  qed
  ultimately show "sem_inv k' q' idle" using ok by (simp add: sem_inv_def)
qed

section \<open>Waiting\<close>

lemma sem_inv_count:
  assumes "sem_inv k q idle" "0 \<le> semcount k m" "0 \<le> n" "n \<le> SEM_VALUE_MAX"
    and "ksched k' = ksched k" "waitsem k' = waitsem k" "semcount k' = (semcount k)(m := n)"
  shows "sem_inv k' q idle"
  using assms unfolding sem_inv_def sem_waiters_def by auto

lemma nxsem_wait_take:
  assumes inv: "sem_inv k q idle" and c: "0 < semcount k m"
  shows "\<exists>k'. nxsem_wait (Some m) k = Some (Some 0, k') \<and> sem_inv k' q idle \<and> ksched k' = ksched k \<and>
    semcount k' = (semcount k)(m := semcount k m - 1) \<and> waitsem k' = waitsem k \<and> errcode k' = errcode k \<and> kpids k' = kpids k"
proof -
  let ?t = "hd (q G_readytorun)"
  let ?k = "set_waitsem ?t None (set_semcount m (semcount k m - 1) k)"
  note D = sem_invD [OF inv] and R = running_not_waiting [OF inv]
  have i: "int16 (semcount k m - 1) = semcount k m - 1"
    using D(3) [of m] c by (intro int16_id) (auto simp: SEM_VALUE_MAX_def)
  have w: "waitsem ?k = waitsem k" using R(2) by auto
  have s: "semcount ?k = (semcount k)(m := semcount k m - 1)" using i by simp
  have inv': "sem_inv ?k q idle"
    by (rule sem_inv_count [OF inv, of m "semcount k m - 1"]) (use c D(3) [of m] w s in auto)
  have "nxsem_wait (Some m) k = Some (Some 0, ?k)" using c R(3) by (simp add: nxsem_wait_def)
  then show ?thesis using inv' w s by fastforce
qed

lemma nxsem_wait_block:
  assumes inv: "sem_inv k q idle" and c: "semcount k m \<le> 0" "- 32768 < semcount k m" and t: "t = hd (q G_readytorun)" "t \<noteq> idle"
  defines "pr \<equiv> sched_priority (ksched k)"
  defines "q' \<equiv> q_block pr W t q"
  shows "\<exists>k'. nxsem_wait (Some m) k = Some (None, k') \<and> sem_inv k' q' idle \<and>
    same_tcb (ksched k) (ksched k') \<and> kpids k' = kpids k \<and>
    semcount k' = (semcount k)(m := semcount k m - 1) \<and> waitsem k' = (waitsem k)(t := Some m) \<and>
    errcode k' = (errcode k)(t := 0) \<and> sem_waiters k' q' m = insert_prio pr t (sem_waiters k q m)"
proof -
  note D = sem_invD [OF inv] and R = running_not_waiting [OF inv, folded t(1)]
  define k1 where "k1 = set_errcode t 0 (set_waitsem t (Some m) (set_semcount m (semcount k m - 1) k))"
  have i: "int16 (semcount k m - 1) = semcount k m - 1" "int16 0 = 0"
    using c D(3) [of m] by (simp_all add: int16_id SEM_VALUE_MAX_def)
  have b: "sched_base (ksched k) q idle" using D(1) by (simp add: sched_ok_def)
  have tr: "t \<in> set (q G_readytorun)" using base_ready_ne [OF b] t(1) by simp
  obtain s where s: "up_block_task t TSTATE_WAIT_SEM (ksched k) = Some s" "sched_ok s q' idle" "same_tcb (ksched k) s"
    using up_block_task_spec [OF D(1) tr t(2), of TSTATE_WAIT_SEM W] by (auto simp: q'_def pr_def)
  define k' where "k' = k1\<lparr>ksched := s\<rparr>"
  have qW: "q' W = insert_prio pr t (q W)" unfolding q'_def by (rule q_block_W [OF D(1) tr])
  have fields: "ksched k' = s" "kpids k' = kpids k" "semcount k' = (semcount k)(m := semcount k m - 1)"
    "waitsem k' = (waitsem k)(t := Some m)" "errcode k' = (errcode k)(t := 0)"
    using i by (simp_all add: k'_def k1_def)
  have w: "sem_waiters k' q' m' = (if m' = m then insert_prio pr t (sem_waiters k q m) else sem_waiters k q m')" for m'
  proof -
    have "filter (\<lambda>x. waitsem k' x = Some m') (q W) = sem_waiters k q m'"
      using R(1) fields(4) by (auto simp: sem_waiters_def intro: filter_cong)
    moreover have "sem_waiters k' q' m' = (if waitsem k' t = Some m'
        then insert_prio pr t (filter (\<lambda>x. waitsem k' x = Some m') (q W)) else filter (\<lambda>x. waitsem k' x = Some m') (q W))"
      unfolding sem_waiters_def qW pr_def by (rule filter_insert_prio [OF waiting_desc [OF D(1)]])
    moreover have "waitsem k' t = Some m' \<longleftrightarrow> m' = m" using fields(4) by auto
    ultimately show ?thesis by (simp only:) simp
  qed
  have len: "length (insert_prio pr t xs) = Suc (length xs)" for xs by (induction xs) (auto simp: insert_prio_Cons)
  have "sem_inv k' q' idle" unfolding sem_inv_def
  proof (intro conjI allI impI)
    show "sched_ok (ksched k') q' idle" using s(2) fields(1) by simp
    show "length (sem_waiters k' q' m') = nat (- semcount k' m')" for m'
      using w [of m'] len D(4) [of m'] c fields(3) by auto
    show "- 32768 \<le> semcount k' m'" "semcount k' m' \<le> SEM_VALUE_MAX" for m'
      using D(2,3) [of m'] c fields(3) by (auto simp: SEM_VALUE_MAX_def)
    show "v \<in> set (q' W)" if "waitsem k' v \<noteq> None" for v
      using that D(5) [of v] qW fields(4) by (auto split: if_splits)
  qed
  moreover have "nxsem_wait (Some m) k = Some (None, k')"
    using R(3) c(1) s(1) by (simp add: nxsem_wait_def k'_def k1_def Let_def)
  ultimately show ?thesis using fields w [of m] s(3) by auto
qed

section \<open>Posting\<close>

lemma sem_search_path:
  assumes "path next stcb xs None"
  shows "sem_search stcb next ws m = Some (hd_opt (filter (\<lambda>t. ws t = Some m) xs))"
  using assms
proof (induction xs arbitrary: stcb)
  case Nil
  then show ?case by (simp add: sem_search.simps)
next
  case (Cons n xs)
  then have "stcb = Some n" "path next (next n) xs None" by auto
  then show ?case using Cons.IH [of "next n"] by (subst sem_search.simps) simp
qed

lemma sem_search_waiters:
  assumes "sem_inv k q idle" "waitsem k1 = waitsem k" "ksched k1 = ksched k"
  shows "sem_search (dq_head (tlists (ksched k1) W)) (flink (tlinks (ksched k1))) (waitsem k1) m = Some (hd_opt (sem_waiters k q m))"
proof -
  have "dq_list (tlinks (ksched k), tlists (ksched k) W) (q W)"
    using sem_invD(1) [OF assms(1)] sched_listsD(1) by (auto simp: sched_ok_def sched_base_def)
  then have "path (flink (tlinks (ksched k))) (dq_head (tlists (ksched k) W)) (q W) None" by (simp add: dq_list_def)
  from sem_search_path [OF this] show ?thesis unfolding assms(2,3) sem_waiters_def .
qed

lemma nxsem_post_count:
  assumes inv: "sem_inv k q idle" and c: "0 \<le> semcount k m" "semcount k m < SEM_VALUE_MAX"
  shows "\<exists>k'. nxsem_post (Some m) k = Some (0, k') \<and> sem_inv k' q idle \<and> ksched k' = ksched k \<and> kpids k' = kpids k \<and>
    semcount k' = (semcount k)(m := semcount k m + 1) \<and> waitsem k' = waitsem k \<and> errcode k' = errcode k"
proof -
  let ?k = "set_semcount m (semcount k m + 1) k"
  have i: "int16 (semcount k m + 1) = semcount k m + 1" using c by (intro int16_id) (auto simp: SEM_VALUE_MAX_def)
  then have "nxsem_post (Some m) k = Some (0, ?k)" using c by (simp add: nxsem_post_def Let_def)
  moreover have "sem_inv ?k q idle"
    by (rule sem_inv_count [OF inv, of m "semcount k m + 1"]) (use c i in auto)
  ultimately show ?thesis using i by auto
qed

text \<open>The task that leaves the waiting list is unblocked: common to posting, signals and timeouts.\<close>

lemma unblock_waiter:
  assumes inv: "sem_inv k q idle" and t: "waitsem k t = Some m"
    and k1: "ksched k1 = ksched k" "waitsem k1 = (waitsem k)(t := None)"
      "semcount k1 = (semcount k)(m := int16 (semcount k m + 1))"
  defines "q' \<equiv> q_unblock (sched_priority (ksched k)) (lockcount (ksched k)) t q"
  shows "\<exists>s. up_unblock_task t (ksched k1) = Some s \<and> sem_inv (k1\<lparr>ksched := s\<rparr>) q' idle \<and> same_tcb (ksched k) s \<and>
    semcount k1 m = semcount k m + 1 \<and> semcount k m < 0 \<and>
    (\<forall>m'. sem_waiters (k1\<lparr>ksched := s\<rparr>) q' m' = filter (\<lambda>x. x \<noteq> t) (sem_waiters k q m'))"
proof -
  note D = sem_invD [OF inv]
  obtain s where s: "up_unblock_task t (ksched k) = Some s" "sched_ok s q' idle" "same_tcb (ksched k) s"
    using up_unblock_task_spec [OF D(1) D(5) [OF t]] by (auto simp: q'_def)
  have q': "filter (\<lambda>x. x \<noteq> t) (q' W) = filter (\<lambda>x. x \<noteq> t) (q W)" by (simp add: q'_def q_unblock_W)
  note l = sem_inv_leave [OF inv t, of "k1\<lparr>ksched := s\<rparr>" q']
  show ?thesis using s k1 l q' waiters_leave [where q' = q' and t = t and q = q and k' = "k1\<lparr>ksched := s\<rparr>" and k = k] by auto
qed

lemma nxsem_post_wake:
  assumes inv: "sem_inv k q idle" and c: "semcount k m < 0" and t: "t = hd (sem_waiters k q m)"
  defines "q' \<equiv> q_unblock (sched_priority (ksched k)) (lockcount (ksched k)) t q"
  shows "\<exists>k'. nxsem_post (Some m) k = Some (0, k') \<and> sem_inv k' q' idle \<and> same_tcb (ksched k) (ksched k') \<and>
    kpids k' = kpids k \<and> semcount k' = (semcount k)(m := semcount k m + 1) \<and> waitsem k t = Some m \<and>
    waitsem k' = (waitsem k)(t := None) \<and> errcode k' = errcode k \<and> sem_waiters k' q' m = tl (sem_waiters k q m)"
proof -
  note D = sem_invD [OF inv]
  have ne: "sem_waiters k q m \<noteq> []" using D(4) [of m] c by auto
  then have "t \<in> set (sem_waiters k q m)" using t by simp
  then have wt: "waitsem k t = Some m" by (simp add: sem_waiters_def)
  define k1 where "k1 = set_semcount m (semcount k m + 1) k"
  define k2 where "k2 = set_waitsem t None k1"
  have f: "ksched k2 = ksched k" "waitsem k2 = (waitsem k)(t := None)"
      "semcount k2 = (semcount k)(m := int16 (semcount k m + 1))" "kpids k2 = kpids k" "errcode k2 = errcode k"
    by (simp_all add: k2_def k1_def)
  obtain s where s: "up_unblock_task t (ksched k2) = Some s" "sem_inv (k2\<lparr>ksched := s\<rparr>) q' idle"
      "same_tcb (ksched k) s" "semcount k2 m = semcount k m + 1"
      "sem_waiters (k2\<lparr>ksched := s\<rparr>) q' m = filter (\<lambda>x. x \<noteq> t) (sem_waiters k q m)"
    using unblock_waiter [OF inv wt f(1-3)] by (auto simp: q'_def)
  have i: "int16 (semcount k m + 1) = semcount k m + 1" using s(4) f(3) by simp
  have tl: "filter (\<lambda>x. x \<noteq> t) (sem_waiters k q m) = tl (sem_waiters k q m)"
    using waiters_distinct [OF D(1), of m] ne t by (cases "sem_waiters k q m") (auto simp: filter_id_conv)
  have srch: "sem_search (dq_head (tlists (ksched k1) W)) (flink (tlinks (ksched k1))) (waitsem k1) m = Some (Some t)"
    using sem_search_waiters [OF inv, of k1 m] ne t by (cases "sem_waiters k q m") (auto simp: k1_def)
  have "nxsem_post (Some m) k = Some (0, k2\<lparr>ksched := s\<rparr>)"
    using c srch s(1) i f(1) unfolding nxsem_post_def by (simp add: k1_def [symmetric] k2_def [symmetric] Let_def SEM_VALUE_MAX_def)
      (simp add: k1_def)
  then show ?thesis using s(2,3,5) f i tl wt by (intro exI [of _ "k2\<lparr>ksched := s\<rparr>"]) simp
qed

section \<open>Signals, timeouts and deletion\<close>

lemma nxsem_wait_irq_spec:
  assumes inv: "sem_inv k q idle" and t: "waitsem k t = Some m" and e: "- 32768 \<le> e" "e \<le> 32767"
  defines "q' \<equiv> q_unblock (sched_priority (ksched k)) (lockcount (ksched k)) t q"
  shows "\<exists>k'. nxsem_wait_irq t e k = Some k' \<and> sem_inv k' q' idle \<and> same_tcb (ksched k) (ksched k') \<and>
    kpids k' = kpids k \<and> semcount k' = (semcount k)(m := semcount k m + 1) \<and> semcount k m < 0 \<and>
    waitsem k' = (waitsem k)(t := None) \<and> errcode k' = (errcode k)(t := e)"
proof -
  note D = sem_invD [OF inv]
  have st: "task_state (ksched k) t = TSTATE_WAIT_SEM"
    using waiting_state [OF D(1) D(5) [OF t]] .
  define k1 where "k1 = set_errcode t e (set_waitsem t None (set_semcount m (semcount k m + 1) k))"
  have f: "ksched k1 = ksched k" "waitsem k1 = (waitsem k)(t := None)"
      "semcount k1 = (semcount k)(m := int16 (semcount k m + 1))" "kpids k1 = kpids k" "errcode k1 = (errcode k)(t := e)"
    using e by (simp_all add: k1_def int16_id)
  obtain s where s: "up_unblock_task t (ksched k1) = Some s" "sem_inv (k1\<lparr>ksched := s\<rparr>) q' idle"
      "same_tcb (ksched k) s" "semcount k1 m = semcount k m + 1" "semcount k m < 0"
    using unblock_waiter [OF inv t f(1-3)] by (auto simp: q'_def)
  have "nxsem_wait_irq t e k = Some (k1\<lparr>ksched := s\<rparr>)"
    using st t s(1) by (simp add: nxsem_wait_irq_def k1_def Let_def)
  then show ?thesis using s(2-5) f by (intro exI [of _ "k1\<lparr>ksched := s\<rparr>"]) simp
qed

lemma nxsem_recover_spec:
  assumes inv: "sem_inv k q idle" and t: "waitsem k t = Some m"
  shows "\<exists>k'. nxsem_recover t k = Some k' \<and> sem_inv k' q idle \<and> ksched k' = ksched k \<and> kpids k' = kpids k \<and>
    semcount k' = (semcount k)(m := semcount k m + 1) \<and> waitsem k' = (waitsem k)(t := None)"
proof -
  note D = sem_invD [OF inv]
  let ?k = "set_waitsem t None (set_semcount m (semcount k m + 1) k)"
  have "nxsem_recover t k = Some ?k"
    using waiting_state [OF D(1) D(5) [OF t]] t by (simp add: nxsem_recover_def)
  moreover have "sem_inv ?k q idle" "semcount ?k m = semcount k m + 1"
    by (rule sem_inv_leave [OF inv t]; simp add: D(1))+
  ultimately show ?thesis by auto
qed

section \<open>Reset\<close>

lemma listed_unblock [simp]: "listed (q_unblock pr lk t q) = insert t (listed q)"
  by (simp add: q_unblock_def q_ready_def)

lemma hd_unblock_locked:
  assumes ok: "sched_ok s q idle" and t: "t \<in> set (q W)" and lk: "0 < lockcount s (hd (q G_readytorun))"
  shows "hd (q_unblock (sched_priority s) (lockcount s) t q G_readytorun) = hd (q G_readytorun)"
proof -
  have ne: "q G_readytorun \<noteq> []" using ok base_ready_ne by (auto simp: sched_ok_def)
  have tn: "t \<notin> set (q G_readytorun)" using sched_ok_distinct(2) [OF ok _ t, of G_readytorun] by simp
  then have hd: "hd (q G_readytorun) \<noteq> t" using ne by (metis hd_in_set)
  then have r: "hd (q_remove t q G_readytorun) = hd (q G_readytorun)" using hd_q_remove [of q G_readytorun t] ne by simp
  have "q_remove t q G_readytorun \<noteq> []" using ne tn by (cases "q G_readytorun") (auto simp: q_remove_def)
  then show ?thesis using lk hd_q_ready [of "q_remove t q" "sched_priority s" "lockcount s" t]
    by (auto simp: q_unblock_def held_back_def r)
qed

lemma sem_reset_loop_spec:
  fixes m :: nat
  assumes "sem_inv k q idle" "0 \<le> count" "count \<le> 32767"
  defines "n \<equiv> min (nat count) (length (sem_waiters k q m))"
  shows "\<exists>k' q'. sem_reset_loop m count k = Some (count - int n, k') \<and> sem_inv k' q' idle \<and>
    same_tcb (ksched k) (ksched k') \<and> kpids k' = kpids k \<and> errcode k' = errcode k \<and>
    semcount k' = (semcount k)(m := semcount k m + int n) \<and>
    waitsem k' = (\<lambda>t. if t \<in> set (take n (sem_waiters k q m)) then None else waitsem k t) \<and>
    sem_waiters k' q' m = drop n (sem_waiters k q m) \<and> listed q' = listed q \<and>
    set (q' W) = set (q W) - set (take n (sem_waiters k q m)) \<and>
    (0 < lockcount (ksched k) (hd (q G_readytorun)) \<longrightarrow> hd (q' G_readytorun) = hd (q G_readytorun))"
  using assms(1-3) unfolding n_def
proof (induction "nat count" arbitrary: count k q)
  case 0
  then have "sem_reset_loop m count k = Some (count, k)" by (subst sem_reset_loop.simps) simp
  then show ?case using 0 by (intro exI [of _ k] exI [of _ q]) auto
next
  case (Suc c)
  note D = sem_invD [OF Suc.prems(1)]
  show ?case
  proof (cases "semcount k m < 0")
    case False
    then have "sem_reset_loop m count k = Some (count, k)" "sem_waiters k q m = []"
      using D(4) [of m] by (simp_all add: sem_reset_loop.simps)
    then show ?thesis using Suc.prems by (intro exI [of _ k] exI [of _ q]) auto
  next
    case True
    have len: "length (sem_waiters k q m) = nat (- semcount k m)" by (rule D(4))
    then obtain t ts where ts: "sem_waiters k q m = t # ts" using True by (cases "sem_waiters k q m") auto
    define q1 where "q1 = q_unblock (sched_priority (ksched k)) (lockcount (ksched k)) t q"
    obtain k1 where k1: "nxsem_post (Some m) k = Some (0, k1)" "sem_inv k1 q1 idle" "same_tcb (ksched k) (ksched k1)"
      "kpids k1 = kpids k" "semcount k1 = (semcount k)(m := semcount k m + 1)" "waitsem k t = Some m"
      "waitsem k1 = (waitsem k)(t := None)" "errcode k1 = errcode k" "sem_waiters k1 q1 m = ts"
      using nxsem_post_wake [OF Suc.prems(1) True, of t] ts by (auto simp: q1_def)
    have tW: "t \<in> set (q W)" by (rule D(5) [OF k1(6)])
    have cnt: "int16 (count - 1) = count - 1" using Suc.prems by (intro int16_id) auto
    have c: "c = nat (count - 1)" "0 \<le> count - 1" "count - 1 \<le> 32767" using Suc.hyps(2) Suc.prems(3) by auto
    have run: "sem_reset_loop m count k = sem_reset_loop m (count - 1) k1"
      using True Suc.hyps(2) c(2) k1(1) cnt by (subst sem_reset_loop.simps) simp
    define n1 where "n1 = min (nat (count - 1)) (length ts)"
    have n: "min (nat count) (length (sem_waiters k q m)) = Suc n1" using ts c(1) Suc.hyps(2) by (simp add: n1_def)
    have hd1: "hd (q1 G_readytorun) = hd (q G_readytorun)" if "0 < lockcount (ksched k) (hd (q G_readytorun))"
      unfolding q1_def by (rule hd_unblock_locked [OF D(1) tW that])
    have "t \<in> listed q" using tW by (auto simp: listed_def)
    then have li: "listed q1 = listed q" by (auto simp: q1_def)
    obtain k' q' where ih: "sem_reset_loop m (count - 1) k1 = Some (count - 1 - int n1, k')" "sem_inv k' q' idle"
      "same_tcb (ksched k1) (ksched k')" "kpids k' = kpids k1" "errcode k' = errcode k1"
      "semcount k' = (semcount k1)(m := semcount k1 m + int n1)"
      "waitsem k' = (\<lambda>v. if v \<in> set (take n1 ts) then None else waitsem k1 v)"
      "sem_waiters k' q' m = drop n1 ts" "listed q' = listed q1" "set (q' W) = set (q1 W) - set (take n1 ts)"
      "0 < lockcount (ksched k1) (hd (q1 G_readytorun)) \<longrightarrow> hd (q' G_readytorun) = hd (q1 G_readytorun)"
      using Suc.hyps(1) [OF c(1) k1(2) c(2,3)] unfolding k1(9) n1_def by blast
    have tcb: "same_tcb (ksched k) (ksched k')" by (rule same_tcb_trans [OF k1(3) ih(3)])
    have w: "waitsem k' = (\<lambda>v. if v \<in> set (take (Suc n1) (t # ts)) then None else waitsem k v)"
      using ih(7) k1(7) by (auto simp: fun_eq_iff)
    have sc: "semcount k' = (semcount k)(m := semcount k m + int (Suc n1))" using ih(6) k1(5) by auto
    have "lockcount (ksched k1) = lockcount (ksched k)" using k1(3) by (simp add: same_tcb_def)
    then have h: "0 < lockcount (ksched k) (hd (q G_readytorun)) \<longrightarrow> hd (q' G_readytorun) = hd (q G_readytorun)"
      using hd1 ih(11) by auto
    have "set (q' W) = set (q W) - set (take (Suc n1) (t # ts))" using ih(10) by (auto simp: q1_def q_unblock_W)
    moreover have "sem_reset_loop m count k = Some (count - int (Suc n1), k')" using run ih(1) by simp
    ultimately show ?thesis unfolding n using ih(2,4,5,8,9) k1(4,8) ts tcb w sc h li
      by (intro exI [of _ k'] exI [of _ q']) simp
  qed
qed

lemma q_unlock_W: "q_unlock pr lk q W = q W"
  by (simp add: q_unlock_def q_merge_def)

lemma listed_unlock [simp]: "listed (q_unlock pr lk q) = listed q"
  by (simp add: q_unlock_def)

lemma sem_inv_sched:
  assumes "sem_inv k q idle" "sched_ok s q' idle" "q' W = q W"
  shows "sem_inv (k\<lparr>ksched := s\<rparr>) q' idle" "sem_waiters (k\<lparr>ksched := s\<rparr>) q' m = sem_waiters k q m"
  using assms by (auto simp: sem_inv_def sem_waiters_def)

lemma nxsem_reset_spec:
  fixes m :: nat
  assumes inv: "sem_inv k q idle" and c: "0 \<le> count" "count \<le> 32767"
    and lk: "0 \<le> lockcount (ksched k) r" "lockcount (ksched k) r < 32767" "r = hd (q G_readytorun)"
  defines "n \<equiv> min (nat count) (length (sem_waiters k q m))"
  shows "\<exists>k' q'. nxsem_reset False m count k = Some (0, k') \<and> sem_inv k' q' idle \<and> listed q' = listed q \<and> kpids k' = kpids k \<and>
    same_tcb (ksched k) (ksched k') \<and> errcode k' = errcode k \<and>
    set (q' W) = set (q W) - set (take n (sem_waiters k q m)) \<and>
    semcount k' = (semcount k)(m := if semcount k m < 0 then count + semcount k m else count) \<and>
    waitsem k' = (\<lambda>t. if t \<in> set (take n (sem_waiters k q m)) then None else waitsem k t) \<and>
    sem_waiters k' q' m = drop n (sem_waiters k q m)"
proof -
  note D = sem_invD [OF inv]
  define s1 where "s1 = sched_lock False (ksched k)"
  define k1 where "k1 = k\<lparr>ksched := s1\<rparr>"
  have s1: "s1 = set_lockcount r (lockcount (ksched k) r + 1) (ksched k)" "sched_ok s1 q idle"
    using sched_lock_spec [OF D(1) lk] by (auto simp: s1_def)
  have inv1: "sem_inv k1 q idle" and w1: "sem_waiters k1 q m = sem_waiters k q m"
    unfolding k1_def using sem_inv_sched [OF inv s1(2) refl] by auto
  have f1: "ksched k1 = s1" "waitsem k1 = waitsem k" "kpids k1 = kpids k" "semcount k1 = semcount k" "errcode k1 = errcode k"
    by (simp_all add: k1_def)
  have pos: "0 < lockcount s1 r" using lk(1) by (simp add: s1(1))
  obtain k2 q2 where k2: "sem_reset_loop m count k1 = Some (count - int n, k2)" "sem_inv k2 q2 idle"
    "same_tcb s1 (ksched k2)" "kpids k2 = kpids k"
    "semcount k2 = (semcount k)(m := semcount k m + int n)"
    "waitsem k2 = (\<lambda>t. if t \<in> set (take n (sem_waiters k q m)) then None else waitsem k t)"
    "sem_waiters k2 q2 m = drop n (sem_waiters k q m)" "listed q2 = listed q" "hd (q2 G_readytorun) = r"
    "errcode k2 = errcode k" "set (q2 W) = set (q W) - set (take n (sem_waiters k q m))"
    using sem_reset_loop_spec [OF inv1 c, of m, unfolded w1 n_def [symmetric] f1 lk(3) [symmetric]] pos by blast
  define k3 where "k3 = (if semcount k2 m \<ge> 0 then set_semcount m (count - int n) k2 else k2)"
  have n: "int n = min count (int (nat (- semcount k m)))" using c D(4) [of m] by (auto simp: n_def min_def)
  have i: "int16 (count - int n) = count - int n" using n c by (intro int16_id) auto
  have f3: "ksched k3 = ksched k2" "waitsem k3 = waitsem k2" "kpids k3 = kpids k2" "errcode k3 = errcode k2"
      "semcount k3 = (semcount k)(m := if semcount k m < 0 then count + semcount k m else count)"
    using i n k2(5) c(1) by (auto simp: k3_def)
  have inv3: "sem_inv k3 q2 idle"
  proof (cases "semcount k2 m \<ge> 0")
    case True
    show ?thesis
      by (rule sem_inv_count [OF k2(2) True, of "count - int n"])
        (use True n c i in \<open>auto simp: k3_def SEM_VALUE_MAX_def\<close>)
  qed (simp add: k3_def k2(2))
  have w3: "sem_waiters k3 q2 m = drop n (sem_waiters k q m)" using f3(2) k2(7) by (simp add: sem_waiters_def)
  define q' where "q' = q_unlock (sched_priority (ksched k3)) (lockcount (ksched k3)) q2"
  obtain s' where s': "sched_unlock False (ksched k3) = Some s'" "sched_ok s' q' idle"
    "same_tcb (set_lockcount r (max 0 (lockcount (ksched k3) r - 1)) (ksched k3)) s'"
    using sched_unlock_spec [OF sem_invD(1) [OF inv3], of r] k2(9) by (auto simp: q'_def)
  have qW: "q' W = q2 W" by (simp add: q'_def q_unlock_W)
  have "nxsem_reset False m count k = Some (0, k3\<lparr>ksched := s'\<rparr>)"
    using k2(1) s'(1) by (simp add: nxsem_reset_def k3_def [symmetric] k1_def [symmetric] s1_def [symmetric] Let_def)
  moreover have "same_tcb (ksched k) s'"
    using s'(3) k2(3) lk(1) f3(1) by (auto simp: same_tcb_def s1(1) set_lockcount_def)
  ultimately show ?thesis
    using sem_inv_sched [OF inv3 s'(2) qW] f3 k2(4,6,8,10,11) w3 qW
    by (intro exI [of _ "k3\<lparr>ksched := s'\<rparr>"] exI [of _ q']) (simp add: q'_def)
qed

end
