(* ===== verification/Sem_Theorems.thy ===== *)
theory Sem_Theorems
  imports Sem_Correct
begin

text \<open>
  Semaphores in the running system: all states that tasks, interrupt handlers and timeouts can
  reach, and the properties of the semaphore operations.
\<close>

section \<open>Reachable states\<close>

text \<open>
  What happened to a semaphore since it was set up: its initial value, the number of times a task
  took it and the number of posts.
\<close>

record history =
  inited :: "nat \<Rightarrow> int"
  taken :: "nat \<Rightarrow> int"
  posted :: "nat \<Rightarrow> int"

definition h_init :: "nat \<Rightarrow> int \<Rightarrow> history \<Rightarrow> history" where
  "h_init m v h = h\<lparr>inited := (inited h)(m := v), taken := (taken h)(m := 0), posted := (posted h)(m := 0)\<rparr>"

definition h_take :: "nat \<Rightarrow> int \<Rightarrow> history \<Rightarrow> history" where
  "h_take m n h = h\<lparr>taken := (taken h)(m := taken h m + n)\<rparr>"

definition h_post :: "nat \<Rightarrow> history \<Rightarrow> history" where
  "h_post m h = h\<lparr>posted := (posted h)(m := posted h m + 1)\<rparr>"

text \<open>The tasks whose wait for a semaphore ended between two states.\<close>

definition granted :: "'a kernel_scheme \<Rightarrow> 'a kernel_scheme \<Rightarrow> nat \<Rightarrow> nat set" where
  "granted k k' m = {t. waitsem k t = Some m \<and> waitsem k' t = None}"

text \<open>The kernel after \<open>nx_start\<close>.\<close>

definition nx_start_kernel :: "nat \<Rightarrow> kernel" where
  "nx_start_kernel idle =
     \<lparr>ksched = nx_start_tasklists idle, kpids = nx_start_pids idle, semcount = (\<lambda>_. 0), waitsem = (\<lambda>_. None),
      errcode = (\<lambda>_. 0), tl_errno = (\<lambda>_. 0)\<rparr>"

text \<open>
  What may happen next.  A scheduler step must not put a task into the wait for a semaphore or
  take one out of it; that is for the semaphore operations.  A semaphore is not set up again while
  tasks wait for it.
\<close>

inductive sem_step ::
    "nat \<Rightarrow> kernel \<times> nat set \<times> history \<Rightarrow> kernel \<times> nat set \<times> history \<Rightarrow> bool" for idle where
  sched: "sched_step idle (ksched k, C) (s', C) \<Longrightarrow>
    \<forall>t \<in> C. task_state s' t = TSTATE_WAIT_SEM \<longleftrightarrow> task_state (ksched k) t = TSTATE_WAIT_SEM \<Longrightarrow>
    sem_step idle (k, C, h) (k\<lparr>ksched := s'\<rparr>, C, h)"
| create: "t \<notin> C \<Longrightarrow> 1 \<le> p \<Longrightarrow> p \<le> 255 \<Longrightarrow> this_task (ksched k) = Some r \<Longrightarrow> lockcount (ksched k) r < 32767 \<Longrightarrow>
    nxthread_setup_scheduler t p (kpids k, ksched k) = Some (0, pt', s') \<Longrightarrow>
    sem_step idle (k, C, h) (k\<lparr>ksched := s', kpids := pt'\<rparr>, insert t C, h)"
| init: "0 \<le> v \<Longrightarrow> 0 \<le> semcount k m \<Longrightarrow> nxsem_init (Some m) v k = (0, k') \<Longrightarrow>
    sem_step idle (k, C, h) (k', C, h_init m v h)"
| wait: "this_task (ksched k) = Some t \<Longrightarrow> t \<noteq> idle \<Longrightarrow> nxsem_wait (Some m) k = Some (r, k') \<Longrightarrow>
    sem_step idle (k, C, h) (k', C, if r = Some 0 then h_take m 1 h else h)"
| trywait: "nxsem_trywait (Some m) k = Some (r, k') \<Longrightarrow>
    sem_step idle (k, C, h) (k', C, if r = 0 then h_take m 1 h else h)"
| post: "nxsem_post (Some m) k = Some (r, k') \<Longrightarrow>
    sem_step idle (k, C, h) (k', C, if r = 0 then h_take m (int (card (granted k k' m))) (h_post m h) else h)"
| irq: "e \<in> {EINTR, ETIMEDOUT} \<Longrightarrow> t \<in> C \<Longrightarrow> nxsem_wait_irq t e k = Some k' \<Longrightarrow> sem_step idle (k, C, h) (k', C, h)"
| timeout: "nxsem_timeout pid k = Some k' \<Longrightarrow> sem_step idle (k, C, h) (k', C, h)"
| reset: "0 \<le> v \<Longrightarrow> v \<le> 32767 \<Longrightarrow> this_task (ksched k) = Some t \<Longrightarrow> lockcount (ksched k) t < 32767 \<Longrightarrow>
    nxsem_reset False m v k = Some (r, k') \<Longrightarrow> sem_step idle (k, C, h) (k', C, h_init m (max 0 (semcount k' m)) h)"
| destroy: "nxsem_destroy (Some m) k = (r, k') \<Longrightarrow>
    sem_step idle (k, C, h) (k', C, if semcount k m \<ge> 0 then h_init m 1 h else h)"

inductive sem_reachable :: "nat \<Rightarrow> kernel \<Rightarrow> nat set \<Rightarrow> history \<Rightarrow> bool" for idle where
  start: "sem_reachable idle (nx_start_kernel idle) {idle} \<lparr>inited = (\<lambda>_. 0), taken = (\<lambda>_. 0), posted = (\<lambda>_. 0)\<rparr>"
| step: "sem_reachable idle k C h \<Longrightarrow> sem_step idle (k, C, h) (k', C', h') \<Longrightarrow> sem_reachable idle k' C' h'"

text \<open>
  The invariant: a waiting task has its semaphore recorded and no error yet, every task has a PID, which bounds the
  number of tasks, and the posts and the initial value of a semaphore are either taken or still
  available.
\<close>

definition balanced :: "'a kernel_scheme \<Rightarrow> history \<Rightarrow> nat \<Rightarrow> bool" where
  "balanced k h m \<longleftrightarrow> inited h m + posted h m = taken h m + max 0 (semcount k m)"

definition sem_sys :: "nat \<Rightarrow> 'a kernel_scheme \<Rightarrow> queues \<Rightarrow> nat set \<Rightarrow> bool" where
  "sem_sys idle k q C \<longleftrightarrow>
     sem_inv k q idle \<and> listed q = C \<and> (\<forall>t \<in> set (q W). waitsem k t \<noteq> None \<and> errcode k t = 0) \<and>
     (\<forall>t. 0 \<le> lockcount (ksched k) t) \<and> pid_ok (kpids k) \<and> (\<forall>t. pid_live t (kpids k) \<longleftrightarrow> t \<in> C)"

lemma sem_sysD:
  assumes "sem_sys idle k q C"
  shows "sem_inv k q idle" "listed q = C" "t \<in> set (q W) \<Longrightarrow> waitsem k t \<noteq> None \<and> errcode k t = 0"
    "0 \<le> lockcount (ksched k) t" "pid_ok (kpids k)" "pid_live t (kpids k) \<longleftrightarrow> t \<in> C" "sched_ok (ksched k) q idle"
  using assms sem_invD(1) unfolding sem_sys_def by blast+

lemma live_card:
  assumes "\<forall>t. pid_live t p \<longleftrightarrow> t \<in> C"
  shows "finite C" "card C \<le> CONFIG_MAX_TASKS"
proof -
  have sub: "C \<subseteq> (\<lambda>i. the (pidhash_tcb p i)) ` {..<CONFIG_MAX_TASKS}"
    using assms by (force simp: pid_live_def)
  then show "finite C" by (rule finite_subset) simp
  show "card C \<le> CONFIG_MAX_TASKS" using surj_card_le [OF _ sub] by simp
qed

lemma waiters_few:
  assumes "sem_sys idle k q C"
  shows "- 16 \<le> semcount k m"
proof -
  note D = sem_sysD [OF assms]
  have "set (sem_waiters k q m) \<subseteq> C" using D(2) by (auto simp: sem_waiters_def listed_def)
  moreover have "finite C" "card C \<le> 16" using live_card [of "kpids k" C] D(6) by (auto simp: CONFIG_MAX_TASKS_def)
  ultimately have "card (set (sem_waiters k q m)) \<le> 16" by (meson card_mono order_trans)
  then have "length (sem_waiters k q m) \<le> 16" using waiters_distinct [OF D(7), of m] by (simp add: distinct_card)
  then show ?thesis using sem_invD(4) [OF D(1), of m] by simp
qed

text \<open>A step of the scheduler that leaves the set of waiting tasks alone.\<close>

lemma set_waiting:
  assumes "sched_ok s q idle"
  shows "set (q W) = {t \<in> listed q. task_state s t = TSTATE_WAIT_SEM}"
proof
  show "set (q W) \<subseteq> {t \<in> listed q. task_state s t = TSTATE_WAIT_SEM}"
    using waiting_state [OF assms] by (auto simp: listed_def)
  show "{t \<in> listed q. task_state s t = TSTATE_WAIT_SEM} \<subseteq> set (q W)"
    using listed_in [OF assms, of _ W] by auto
qed

lemma sem_sys_sched:
  assumes sys: "sem_sys idle k q C" and ok: "sched_ok s' q' idle" and W: "set (q' W) = set (q W)"
    and C: "listed q' = C'" "\<And>t. 0 \<le> lockcount s' t" "pid_ok pt'" "\<And>t. pid_live t pt' \<longleftrightarrow> t \<in> C'"
  shows "sem_sys idle (k\<lparr>ksched := s', kpids := pt'\<rparr>) q' C'"
proof -
  note D = sem_sysD [OF sys]
  let ?k = "k\<lparr>ksched := s', kpids := pt'\<rparr>"
  have "set (sem_waiters ?k q' m) = set (sem_waiters k q m)" for m using W by (auto simp: sem_waiters_def)
  moreover have "distinct (sem_waiters ?k q' m)" "distinct (sem_waiters k q m)" for m
    using ok D(7) sched_ok_distinct(1) by (auto simp: sem_waiters_def)
  ultimately have "length (sem_waiters ?k q' m) = length (sem_waiters k q m)" for m
    by (metis distinct_card)
  then have "sem_inv ?k q' idle" using D(1) ok W by (simp add: sem_inv_def)
  then show ?thesis using D(3) C W by (simp add: sem_sys_def)
qed

lemma sem_step_sched:
  assumes sys: "sem_sys idle k q C" and step: "sched_step idle (ksched k, C) (s', C)"
    and same: "\<forall>t \<in> C. task_state s' t = TSTATE_WAIT_SEM \<longleftrightarrow> task_state (ksched k) t = TSTATE_WAIT_SEM"
  shows "\<exists>q'. sem_sys idle (k\<lparr>ksched := s'\<rparr>) q' C"
proof -
  note D = sem_sysD [OF sys]
  have "sched_inv idle (ksched k) C" using D by (intro sched_invI [of _ q]) auto
  from sched_step_inv [OF step this] obtain q' where q': "sched_ok s' q' idle" "listed q' = C" "\<And>t. 0 \<le> lockcount s' t"
    by (auto simp: sched_inv_def)
  have "set (q' W) = set (q W)" unfolding set_waiting [OF q'(1)] set_waiting [OF D(7)] using q'(2) D(2) same by auto
  then have "sem_sys idle (k\<lparr>ksched := s', kpids := kpids k\<rparr>) q' C"
    by (rule sem_sys_sched [OF sys q'(1) _ q'(2,3) D(5,6)])
  then show ?thesis by auto
qed

lemma sem_step_create:
  assumes sys: "sem_sys idle k q C" and t: "t \<notin> C" "1 \<le> p" "p \<le> 255"
    and r: "this_task (ksched k) = Some r" "lockcount (ksched k) r < 32767"
    and run: "nxthread_setup_scheduler t p (kpids k, ksched k) = Some (0, pt', s')"
  shows "\<exists>q'. sem_sys idle (k\<lparr>ksched := s', kpids := pt'\<rparr>) q' (insert t C)"
proof -
  note D = sem_sysD [OF sys]
  have u: "unlisted t q" using t(1) D(2) by (auto simp: unlisted_def listed_def)
  have rh: "r = hd (q G_readytorun)" using running_not_waiting(3) [OF D(1)] r(1) by simp
  obtain ret p1 where a: "nxtask_assign_pid t (kpids k) = (ret, p1)" by (cases "nxtask_assign_pid t (kpids k)")
  have "ret = 0" using run a by (auto simp: nxthread_setup_scheduler_def Let_def split: if_splits)
  then have a: "nxtask_assign_pid t (kpids k) = (0, p1)" using a by simp
  let ?q = "q(G_inactivetasks := t # q G_inactivetasks)"
  have s': "p1 = pt'" "sched_ok s' ?q idle" "same_tcb (set_prio t (nat p) (ksched k)) s'"
    using setup_scheduler_spec [OF D(7) u t(2,3) a rh D(4) r(2)] run by auto
  have "\<not> pid_live t (kpids k)" using D(6) t(1) by simp
  from nxtask_assign_pid_spec [OF D(5) this] a obtain n where n: "pt' = pid_enter t n (kpids k)" "0 < n" "n < 2 ^ 15"
    "pidhash_tcb (kpids k) (PIDHASH n) = None" by (auto simp: s'(1) split: if_splits)
  have pid: "pid_ok pt'" using pid_ok_enter [OF D(5) \<open>\<not> pid_live t (kpids k)\<close> n(2-4)] n(1) by simp
  have live: "pid_live v pt' \<longleftrightarrow> v \<in> insert t C" for v using pid_live_enter [OF n(4)] n(1) D(6) by simp
  have "listed ?q = insert t C" using D(2) by (auto simp: listed_def split: if_splits)
  moreover have "0 \<le> lockcount s' v" for v using s'(3) D(4) by (simp add: same_tcb_def set_prio_def)
  ultimately show ?thesis using sem_sys_sched [OF sys s'(2) _ _ _ pid live] by auto
qed

text \<open>A change of counts and of recorded semaphores only.\<close>

lemma sem_sysI:
  assumes "sem_sys idle k q C" "sem_inv k' q' idle" "listed q' = C" "kpids k' = kpids k"
    and "lockcount (ksched k') = lockcount (ksched k)" "\<And>t. t \<in> set (q' W) \<Longrightarrow> waitsem k' t \<noteq> None \<and> errcode k' t = 0"
  shows "sem_sys idle k' q' C"
  using assms by (simp add: sem_sys_def)

lemma step_wait_take:
  assumes sys: "sem_sys idle k q C" and c: "0 < semcount k m"
  shows "\<exists>k'. nxsem_wait (Some m) k = Some (Some 0, k') \<and> sem_sys idle k' q C \<and>
    semcount k' = (semcount k)(m := semcount k m - 1)"
proof -
  note D = sem_sysD [OF sys]
  obtain k' where "nxsem_wait (Some m) k = Some (Some 0, k')" "sem_inv k' q idle" "ksched k' = ksched k"
    "semcount k' = (semcount k)(m := semcount k m - 1)" "waitsem k' = waitsem k" "kpids k' = kpids k" "errcode k' = errcode k"
    using nxsem_wait_take [OF D(1) c] by blast
  then show ?thesis using sem_sysI [OF sys, of k' q] D(2,3) by auto
qed

lemma step_wait_block:
  assumes sys: "sem_sys idle k q C" and c: "semcount k m \<le> 0" and t: "this_task (ksched k) = Some t" "t \<noteq> idle"
  shows "\<exists>k' q'. nxsem_wait (Some m) k = Some (None, k') \<and> sem_sys idle k' q' C \<and>
    semcount k' = (semcount k)(m := semcount k m - 1) \<and> waitsem k' t = Some m \<and> errcode k' t = 0 \<and>
    sem_waiters k' q' m = insert_prio (sched_priority (ksched k)) t (sem_waiters k q m)"
proof -
  note D = sem_sysD [OF sys]
  have th: "t = hd (q G_readytorun)" using running_not_waiting(3) [OF D(1)] t(1) by simp
  have tr: "t \<in> set (q G_readytorun)" using hd_listed [OF D(7)] th by simp
  let ?q = "q_block (sched_priority (ksched k)) W t q"
  obtain k' where k': "nxsem_wait (Some m) k = Some (None, k')" "sem_inv k' ?q idle"
    "same_tcb (ksched k) (ksched k')" "kpids k' = kpids k" "semcount k' = (semcount k)(m := semcount k m - 1)"
    "waitsem k' = (waitsem k)(t := Some m)" "errcode k' = (errcode k)(t := 0)"
    "sem_waiters k' ?q m = insert_prio (sched_priority (ksched k)) t (sem_waiters k q m)"
    using nxsem_wait_block [OF D(1) c _ th t(2)] waiters_few [OF sys, of m] by auto
  have "t \<in> C" using D(2) tr by (auto simp: listed_def)
  then have "listed ?q = C" using D(2) by auto
  moreover have "waitsem k' v \<noteq> None \<and> errcode k' v = 0" if "v \<in> set (?q W)" for v
    using that q_block_W [OF D(7) tr] D(3) k'(6,7) by auto
  ultimately have "sem_sys idle k' ?q C" using sem_sysI [OF sys k'(2) _ k'(4)] k'(3) by (simp add: same_tcb_def)
  then show ?thesis using k' by auto
qed

lemma step_unblock:
  assumes sys: "sem_sys idle k q C" and t: "waitsem k t = Some m"
    and k': "sem_inv k' (q_unblock pr lk t q) idle" "same_tcb (ksched k) (ksched k')" "kpids k' = kpids k"
      "waitsem k' = (waitsem k)(t := None)" "\<And>v. v \<noteq> t \<Longrightarrow> errcode k' v = errcode k v"
  shows "sem_sys idle k' (q_unblock pr lk t q) C"
proof (rule sem_sysI [OF sys k'(1) _ k'(3)])
  note D = sem_sysD [OF sys]
  have "t \<in> C" using sem_invD(5) [OF D(1) t] D(2) by (auto simp: listed_def)
  then show "listed (q_unblock pr lk t q) = C" using D(2) by auto
  show "lockcount (ksched k') = lockcount (ksched k)" using k'(2) by (simp add: same_tcb_def)
  show "waitsem k' v \<noteq> None \<and> errcode k' v = 0" if "v \<in> set (q_unblock pr lk t q W)" for v
    using that D(3) k'(4,5) by (auto simp: q_unblock_W)
qed

lemma step_post:
  assumes sys: "sem_sys idle k q C" and c: "semcount k m < SEM_VALUE_MAX"
  shows "\<exists>k' q'. nxsem_post (Some m) k = Some (0, k') \<and> sem_sys idle k' q' C \<and>
    semcount k' = (semcount k)(m := semcount k m + 1) \<and>
    granted k k' m = set (take 1 (sem_waiters k q m)) \<and> sem_waiters k' q' m = tl (sem_waiters k q m) \<and>
    (semcount k m < 0 \<longrightarrow> q' = q_unblock (sched_priority (ksched k)) (lockcount (ksched k)) (hd (sem_waiters k q m)) q \<and>
       errcode k' = errcode k)"
proof (cases "semcount k m < 0")
  case False
  note D = sem_sysD [OF sys]
  obtain k' where k': "nxsem_post (Some m) k = Some (0, k')" "sem_inv k' q idle" "ksched k' = ksched k" "kpids k' = kpids k"
    "semcount k' = (semcount k)(m := semcount k m + 1)" "waitsem k' = waitsem k" "errcode k' = errcode k"
    using nxsem_post_count [OF D(1) _ c] False by auto
  have "sem_waiters k q m = []" using sem_invD(4) [OF D(1), of m] False by simp
  then have "granted k k' m = set (take 1 (sem_waiters k q m))" "sem_waiters k' q m = tl (sem_waiters k q m)"
    using k'(6) by (simp_all add: granted_def sem_waiters_def)
  moreover have "sem_sys idle k' q C" using sem_sysI [OF sys k'(2)] D(2,3) k'(3,4,6,7) by auto
  ultimately show ?thesis using k'(1,5) False by blast
next
  case True
  note D = sem_sysD [OF sys]
  let ?t = "hd (sem_waiters k q m)"
  let ?q = "q_unblock (sched_priority (ksched k)) (lockcount (ksched k)) ?t q"
  obtain k' where k': "nxsem_post (Some m) k = Some (0, k')" "sem_inv k' ?q idle" "same_tcb (ksched k) (ksched k')"
    "kpids k' = kpids k" "semcount k' = (semcount k)(m := semcount k m + 1)" "waitsem k ?t = Some m"
    "waitsem k' = (waitsem k)(?t := None)" "errcode k' = errcode k" "sem_waiters k' ?q m = tl (sem_waiters k q m)"
    using nxsem_post_wake [OF D(1) True refl] by auto
  have "sem_waiters k q m \<noteq> []" using sem_invD(4) [OF D(1), of m] True by auto
  then have "set (take 1 (sem_waiters k q m)) = {?t}" by (cases "sem_waiters k q m") auto
  moreover have "granted k k' m = {?t}" using k'(6,7) by (auto simp: granted_def)
  ultimately show ?thesis using k' step_unblock [OF sys k'(6,2,3,4,7)] by auto
qed

lemma step_irq:
  assumes sys: "sem_sys idle k q C" and e: "e \<in> {EINTR, ETIMEDOUT}" and t: "t \<in> C"
  shows "\<exists>k' q'. nxsem_wait_irq t e k = Some k' \<and> sem_sys idle k' q' C \<and> kpids k' = kpids k \<and>
    (\<forall>m. max 0 (semcount k' m) = max 0 (semcount k m)) \<and>
    (task_state (ksched k) t = TSTATE_WAIT_SEM \<longrightarrow> errcode k' t = e \<and> waitsem k' t = None \<and>
       (\<forall>m. waitsem k t = Some m \<longrightarrow> semcount k' = (semcount k)(m := semcount k m + 1)))"
proof (cases "task_state (ksched k) t = TSTATE_WAIT_SEM")
  case False
  then show ?thesis using sys by (auto simp: nxsem_wait_irq_def)
next
  case True
  note D = sem_sysD [OF sys]
  have "t \<in> set (q W)" using set_waiting [OF D(7)] True t D(2) by auto
  then obtain m where m: "waitsem k t = Some m" using D(3) by auto
  have e': "- 32768 \<le> e" "e \<le> 32767" using e by (auto simp: EINTR_def ETIMEDOUT_def)
  let ?q = "q_unblock (sched_priority (ksched k)) (lockcount (ksched k)) t q"
  obtain k' where k': "nxsem_wait_irq t e k = Some k'" "sem_inv k' ?q idle" "same_tcb (ksched k) (ksched k')"
    "kpids k' = kpids k" "semcount k' = (semcount k)(m := semcount k m + 1)" "semcount k m < 0"
    "waitsem k' = (waitsem k)(t := None)" "errcode k' = (errcode k)(t := e)"
    using nxsem_wait_irq_spec [OF D(1) m e'] by auto
  show ?thesis using k' m step_unblock [OF sys m k'(2,3,4,7)] k'(8) by (intro exI [of _ k'] exI [of _ ?q]) auto
qed

lemma nxsem_init_sys:
  assumes sys: "sem_sys idle k q C" and c: "0 \<le> semcount k m" "0 \<le> n" "n \<le> SEM_VALUE_MAX"
  shows "sem_sys idle (set_semcount m n k) q C" "semcount (set_semcount m n k) = (semcount k)(m := n)"
proof -
  note D = sem_sysD [OF sys]
  have i: "int16 n = n" using c by (intro int16_id) (auto simp: SEM_VALUE_MAX_def)
  then show e: "semcount (set_semcount m n k) = (semcount k)(m := n)" by simp
  have "sem_inv (set_semcount m n k) q idle" by (rule sem_inv_count [OF D(1) c]) (use e in auto)
  then show "sem_sys idle (set_semcount m n k) q C" using sem_sysI [OF sys, of "set_semcount m n k" q] D(2,3) by auto
qed

lemma step_reset:
  assumes sys: "sem_sys idle k q C" and v: "0 \<le> v" "v \<le> 32767"
    and t: "this_task (ksched k) = Some t" "lockcount (ksched k) t < 32767"
  shows "\<exists>k' q'. nxsem_reset False m v k = Some (0, k') \<and> sem_sys idle k' q' C \<and>
    semcount k' = (semcount k)(m := if semcount k m < 0 then v + semcount k m else v) \<and>
    granted k k' m = set (take (nat v) (sem_waiters k q m)) \<and> sem_waiters k' q' m = drop (nat v) (sem_waiters k q m)"
proof -
  note D = sem_sysD [OF sys]
  define n where "n = min (nat v) (length (sem_waiters k q m))"
  have th: "t = hd (q G_readytorun)" using running_not_waiting(3) [OF D(1)] t(1) by simp
  obtain k' q' where k': "nxsem_reset False m v k = Some (0, k')" "sem_inv k' q' idle" "listed q' = listed q"
    "kpids k' = kpids k" "same_tcb (ksched k) (ksched k')" "errcode k' = errcode k"
    "semcount k' = (semcount k)(m := if semcount k m < 0 then v + semcount k m else v)"
    "waitsem k' = (\<lambda>t. if t \<in> set (take n (sem_waiters k q m)) then None else waitsem k t)"
    "sem_waiters k' q' m = drop n (sem_waiters k q m)"
    "set (q' W) = set (q W) - set (take n (sem_waiters k q m))"
    using nxsem_reset_spec [OF D(1) v D(4) t(2) th, of m] unfolding n_def [symmetric] by blast
  have nv: "take n (sem_waiters k q m) = take (nat v) (sem_waiters k q m)"
    "drop n (sem_waiters k q m) = drop (nat v) (sem_waiters k q m)" by (auto simp: n_def min_def)
  have "sem_sys idle k' q' C"
    using sem_sysI [OF sys k'(2) _ k'(4)] D(2,3) k'(3,5,6,8,10) by (auto simp: same_tcb_def)
  moreover have "granted k k' m = set (take (nat v) (sem_waiters k q m))"
  proof -
    have "waitsem k x = Some m" if "x \<in> set (take n (sem_waiters k q m))" for x
      using in_set_takeD [OF that] by (simp add: sem_waiters_def)
    then show ?thesis unfolding granted_def nv(1) [symmetric] k'(8) by auto
  qed
  ultimately show ?thesis using k'(1,7,9) nv(2) by auto
qed

section \<open>The invariant is kept\<close>

lemma h_fields [simp]:
  "inited (h_take m n h) = inited h" "posted (h_take m n h) = posted h" "taken (h_take m n h) = (taken h)(m := taken h m + n)"
  "inited (h_post m h) = inited h" "posted (h_post m h) = (posted h)(m := posted h m + 1)" "taken (h_post m h) = taken h"
  "inited (h_init m v h) = (inited h)(m := v)" "posted (h_init m v h) = (posted h)(m := 0)"
  "taken (h_init m v h) = (taken h)(m := 0)"
  by (simp_all add: h_take_def h_post_def h_init_def)

definition sem_good :: "nat \<Rightarrow> 'a kernel_scheme \<Rightarrow> nat set \<Rightarrow> history \<Rightarrow> bool" where
  "sem_good idle k C h \<longleftrightarrow> (\<exists>q. sem_sys idle k q C) \<and> (\<forall>m. balanced k h m)"

lemma sem_goodI: "sem_sys idle k q C \<Longrightarrow> (\<And>m. balanced k h m) \<Longrightarrow> sem_good idle k C h"
  by (auto simp: sem_good_def)

lemma balanced_other: "balanced k h m' \<Longrightarrow> semcount k' m' = semcount k m' \<Longrightarrow> inited h' m' = inited h m' \<Longrightarrow>
    posted h' m' = posted h m' \<Longrightarrow> taken h' m' = taken h m' \<Longrightarrow> balanced k' h' m'"
  by (simp add: balanced_def)

lemma good_wait:
  assumes sys: "sem_sys idle k q C" and b: "\<forall>m. balanced k h m" and t: "this_task (ksched k) = Some t" "t \<noteq> idle"
    and run: "nxsem_wait (Some m) k = Some (r, k')"
  shows "sem_good idle k' C (if r = Some 0 then h_take m 1 h else h)"
proof (cases "0 < semcount k m")
  case True
  then show ?thesis using step_wait_take [OF sys True] run b
    by (auto simp: balanced_def intro!: sem_goodI)
next
  case False
  then have "semcount k m \<le> 0" by simp
  from step_wait_block [OF sys this t] show ?thesis using run b False
    by (auto simp: balanced_def intro!: sem_goodI)
qed

lemma nxsem_trywait_wait:
  assumes "0 < semcount k m"
  shows "nxsem_trywait (Some m) k = map_option (\<lambda>(r, k'). (0, k')) (nxsem_wait (Some m) k)"
  using assms by (cases "this_task (ksched k)") (simp_all add: nxsem_trywait_def nxsem_wait_def)

lemma good_trywait:
  assumes sys: "sem_sys idle k q C" and b: "\<forall>m. balanced k h m" and run: "nxsem_trywait (Some m) k = Some (r, k')"
  shows "sem_good idle k' C (if r = 0 then h_take m 1 h else h)"
proof (cases "0 < semcount k m")
  case True
  then show ?thesis using step_wait_take [OF sys True] run b nxsem_trywait_wait [OF True]
    by (auto simp: balanced_def intro!: sem_goodI)
next
  case False
  then show ?thesis using run sys b by (auto simp: nxsem_trywait_def EAGAIN_def intro: sem_goodI)
qed

lemma good_post:
  assumes sys: "sem_sys idle k q C" and b: "\<forall>m. balanced k h m" and run: "nxsem_post (Some m) k = Some (r, k')"
  shows "sem_good idle k' C (if r = 0 then h_take m (int (card (granted k k' m))) (h_post m h) else h)"
proof (cases "semcount k m < SEM_VALUE_MAX")
  case True
  note D = sem_sysD [OF sys]
  obtain k1 q1 where k1: "nxsem_post (Some m) k = Some (0, k1)" "sem_sys idle k1 q1 C"
    "semcount k1 = (semcount k)(m := semcount k m + 1)" "granted k k1 m = set (take 1 (sem_waiters k q m))"
    using step_post [OF sys True] by blast
  have "card (set (take 1 (sem_waiters k q m))) = (if semcount k m < 0 then 1 else 0)"
    using sem_invD(4) [OF D(1), of m] by (cases "sem_waiters k q m") auto
  then show ?thesis using k1 run b by (auto simp: balanced_def intro!: sem_goodI)
next
  case False
  then show ?thesis using run sys b by (auto simp: nxsem_post_def EOVERFLOW_def intro: sem_goodI)
qed

lemma good_irq:
  assumes sys: "sem_sys idle k q C" and b: "\<forall>m. balanced k h m" and e: "e \<in> {EINTR, ETIMEDOUT}" "t \<in> C"
    and run: "nxsem_wait_irq t e k = Some k'"
  shows "sem_good idle k' C h"
  using step_irq [OF sys e] run b by (auto simp: balanced_def intro!: sem_goodI)

lemma good_timeout:
  assumes sys: "sem_sys idle k q C" and b: "\<forall>m. balanced k h m" and run: "nxsem_timeout pid k = Some k'"
  shows "sem_good idle k' C h"
proof (cases "nxsched_get_tcb (int16 pid) (kpids k)")
  case None
  then show ?thesis using run sys b by (auto simp: nxsem_timeout_def intro: sem_goodI)
next
  case (Some t)
  then have "t \<in> C" using get_tcb_live [OF sem_sysD(5) [OF sys]] sem_sysD(6) [OF sys] by blast
  then show ?thesis using Some run sys b good_irq [OF sys b, of ETIMEDOUT t k']
    by (auto simp: nxsem_timeout_def intro: sem_goodI split: if_splits)
qed

lemma good_reset:
  assumes sys: "sem_sys idle k q C" and b: "\<forall>m. balanced k h m" and v: "0 \<le> v" "v \<le> 32767"
    and t: "this_task (ksched k) = Some t" "lockcount (ksched k) t < 32767" and run: "nxsem_reset False m v k = Some (r, k')"
  shows "sem_good idle k' C (h_init m (max 0 (semcount k' m)) h)"
  using step_reset [OF sys v t, of m] run b by (auto simp: balanced_def intro!: sem_goodI)

lemma good_init:
  assumes sys: "sem_sys idle k q C" and b: "\<forall>m. balanced k h m" and c: "0 \<le> semcount k m" "0 \<le> v" "v \<le> SEM_VALUE_MAX"
  shows "sem_good idle (set_semcount m v k) C (h_init m v h)"
  using nxsem_init_sys [OF sys c] b c(2) by (intro sem_goodI [of _ _ q]) (auto simp: balanced_def)

lemma sem_step_good:
  assumes "sem_step idle (k, C, h) (k', C', h')" "sem_good idle k C h"
  shows "sem_good idle k' C' h'"
proof -
  obtain q where sys: "sem_sys idle k q C" and b: "\<forall>m. balanced k h m" using assms(2) by (auto simp: sem_good_def)
  from assms(1) show ?thesis
  proof (cases rule: sem_step.cases)
    case (sched s')
    then show ?thesis using sem_step_sched [OF sys] b by (auto simp: sem_good_def balanced_def)
  next
    case (create t p r pt' s')
    then show ?thesis using sem_step_create [OF sys create(4-9)] b by (auto simp: sem_good_def balanced_def)
  next
    case (init v m)
    then show ?thesis using good_init [OF sys b, of m v] by (auto simp: nxsem_init_def EINVAL_def split: if_splits)
  next
    case (destroy m r)
    then show ?thesis using good_init [OF sys b, of m 1] sys b
      by (auto simp: nxsem_destroy_def SEM_VALUE_MAX_def intro: sem_goodI split: if_splits)
  qed (use good_wait [OF sys b] good_trywait [OF sys b] good_post [OF sys b] good_irq [OF sys b]
      good_timeout [OF sys b] good_reset [OF sys b] in auto)
qed

lemma sem_reachable_good: "sem_reachable idle k C h \<Longrightarrow> sem_good idle k C h"
proof (induction rule: sem_reachable.induct)
  case start
  let ?q = "(\<lambda>_. [])(G_readytorun := [idle])"
  have "sem_inv (nx_start_kernel idle) ?q idle"
    using sched_ok_start [of idle] by (simp add: sem_inv_def nx_start_kernel_def sem_waiters_def SEM_VALUE_MAX_def)
  moreover have "listed ?q = {idle}" by (auto simp: listed_def split: if_splits)
  moreover have "pid_live t (nx_start_pids idle) \<longleftrightarrow> t = idle" for t
    by (auto simp: pid_live_def nx_start_pids_def PIDHASH_def CONFIG_MAX_TASKS_def intro: exI [of _ 0])
  moreover have "0 \<le> lockcount (nx_start_tasklists idle) t" for t
    by (simp add: nx_start_tasklists_def put_list_def set_state_def Let_def)
  ultimately have "sem_sys idle (nx_start_kernel idle) ?q {idle}"
    using pid_ok_start [of idle] by (simp add: sem_sys_def nx_start_kernel_def)
  then show ?case by (rule sem_goodI) (simp add: balanced_def nx_start_kernel_def)
next
  case (step k C h k' C' h')
  then show ?case by (blast intro: sem_step_good)
qed

lemma running_state:
  assumes "sem_sys idle k q C" "this_task (ksched k) = Some r"
  shows "task_state (ksched k) r = TSTATE_TASK_RUNNING"
proof -
  note D = sem_sysD [OF assms(1)]
  have "r = hd (q G_readytorun)" using running_not_waiting(3) [OF D(1)] assms(2) by simp
  then show ?thesis using ready_state(2) [of "ksched k" q idle r] hd_listed [OF D(7)] D(7) by (auto simp: sched_ok_def)
qed

lemma hd_unblock:
  assumes "sched_ok s q idle" "t \<notin> set (q G_readytorun)"
  defines "r \<equiv> hd (q G_readytorun)"
  shows "hd (q_unblock (sched_priority s) (lockcount s) t q G_readytorun) =
    (if lockcount s r \<le> 0 \<and> sched_priority s r < sched_priority s t then t else r)"
proof -
  have ne: "q G_readytorun \<noteq> []" using assms(1) base_ready_ne by (auto simp: sched_ok_def)
  have "q_remove t q G_readytorun = q G_readytorun" using assms(2) by (auto simp: q_remove_def filter_id_conv)
  then show ?thesis using hd_q_ready [of "q_remove t q" "sched_priority s" "lockcount s" t] ne
    by (auto simp: q_unblock_def held_back_def r_def)
qed

section \<open>A concrete run\<close>

text \<open>
  Task 1, of priority 100, is created and started; it waits for semaphore 7, whose count is zero.
\<close>

abbreviation no_history :: history where
  "no_history \<equiv> \<lparr>inited = (\<lambda>_. 0), taken = (\<lambda>_. 0), posted = (\<lambda>_. 0)\<rparr>"

definition fresh_sems :: "kernel \<Rightarrow> bool" where
  "fresh_sems k \<longleftrightarrow> semcount k = (\<lambda>_. 0) \<and> waitsem k = (\<lambda>_. None) \<and> lockcount (ksched k) = (\<lambda>_. 0) \<and>
     sched_priority (ksched k) 0 = 0 \<and> sched_priority (ksched k) 1 = 100"

lemma demo_created:
  "\<exists>k. sem_reachable 0 k {0, 1} no_history \<and> sched_ok (ksched k) ((\<lambda>_. [])(G_readytorun := [0], G_inactivetasks := [1])) 0 \<and>
     fresh_sems k"
proof -
  let ?q0 = "(\<lambda>_. [])(G_readytorun := [0 :: nat])" and ?k0 = "nx_start_kernel 0"
  let ?q1 = "?q0(G_inactivetasks := [1])"
  have lk: "lockcount (ksched ?k0) = (\<lambda>_. 0)"
    by (simp add: nx_start_kernel_def nx_start_tasklists_def put_list_def set_state_def Let_def)
  have ok0: "sched_ok (ksched ?k0) ?q0 0" using sched_ok_start by (simp add: nx_start_kernel_def)
  then have th0: "this_task (ksched ?k0) = Some 0" using this_task_hd [of _ ?q0 0] by (simp add: sched_ok_def)
  have "fst (nxtask_assign_pid 1 (nx_start_pids 0)) = 0" by code_simp
  then obtain pt where a: "nxtask_assign_pid 1 (kpids ?k0) = (0, pt)"
    by (cases "nxtask_assign_pid 1 (nx_start_pids 0)") (simp add: nx_start_kernel_def)
  obtain s1 where s1: "nxthread_setup_scheduler 1 100 (kpids ?k0, ksched ?k0) = Some (0, pt, s1)"
    "sched_ok s1 ?q1 0" "same_tcb (set_prio 1 100 (ksched ?k0)) s1"
    using setup_scheduler_spec [OF ok0, of 1 100, OF _ _ _ a refl] lk by (auto simp: unlisted_def)
  define k1 where "k1 = ?k0\<lparr>ksched := s1, kpids := pt\<rparr>"
  have "sem_step 0 (?k0, {0}, no_history) (k1, insert 1 {0}, no_history)"
    unfolding k1_def by (rule sem_step.create [OF _ _ _ th0 _ s1(1)]) (simp_all add: lk)
  moreover have "insert 1 {0} = {0, 1 :: nat}" by auto
  ultimately have "sem_reachable 0 k1 {0, 1} no_history" using sem_reachable.step [OF sem_reachable.start] by simp
  moreover have "fresh_sems k1"
    using s1(2,3) lk queues_okD(2) [of "sched_priority s1" "task_state s1" ?q1 0]
    by (auto simp: fresh_sems_def k1_def nx_start_kernel_def same_tcb_def set_prio_def sched_ok_def sched_base_def)
  ultimately show ?thesis using s1(2) by (auto simp: k1_def)
qed

lemma demo_running:
  "\<exists>k q. sem_reachable 0 k {0, 1} no_history \<and> sem_inv k q 0 \<and> q G_readytorun = [1, 0] \<and> q G_pendingtasks = [] \<and> q W = [] \<and>
     fresh_sems k"
proof -
  let ?q1 = "(\<lambda>_. [])(G_readytorun := [0 :: nat], G_inactivetasks := [1])"
  obtain k1 where k1: "sem_reachable 0 k1 {0, 1} no_history" "sched_ok (ksched k1) ?q1 0" "fresh_sems k1"
    using demo_created by blast
  define q2 where "q2 = q_unblock (sched_priority (ksched k1)) (lockcount (ksched k1)) 1 ?q1"
  obtain s2 where s2: "up_unblock_task 1 (ksched k1) = Some s2" "sched_ok s2 q2 0" "same_tcb (ksched k1) s2"
    using up_unblock_task_spec [OF k1(2), of 1 G_inactivetasks] by (auto simp: q2_def)
  have q2: "q2 G_readytorun = [1, 0]" "q2 W = []" "q2 G_pendingtasks = []" "listed q2 = {0, 1}"
    using k1(3) by (auto simp: q2_def q_unblock_def q_ready_def q_enter_def q_remove_def held_back_def insert_prio_Cons
        fresh_sems_def listed_def split: if_splits)
  define k2 where "k2 = k1\<lparr>ksched := s2\<rparr>"
  have "TLIST_HEAD (task_state (ksched k1) 1) = Some G_inactivetasks"
    using state_list(1) [of "ksched k1" ?q1 0 1 G_inactivetasks] k1(2) by (simp add: sched_ok_def)
  then have "sched_step 0 (ksched k1, {0, 1}) (s2, {0, 1})"
    using sched_step.unblock [of 1 "{0, 1}" "ksched k1" G_inactivetasks s2 0] s2(1) by simp
  moreover have "\<forall>t \<in> {0, 1}. task_state s2 t = TSTATE_WAIT_SEM \<longleftrightarrow> task_state (ksched k1) t = TSTATE_WAIT_SEM"
    using set_waiting [OF s2(2)] set_waiting [OF k1(2)] q2 by (auto simp: listed_def split: if_splits)
  ultimately have "sem_step 0 (k1, {0, 1}, no_history) (k2, {0, 1}, no_history)" unfolding k2_def by (rule sem_step.sched)
  then have "sem_reachable 0 k2 {0, 1} no_history" by (rule sem_reachable.step [OF k1(1)])
  moreover have "sem_inv k2 q2 0" "fresh_sems k2"
    using s2(2,3) q2(2) k1(3) by (simp_all add: k2_def sem_inv_def sem_waiters_def SEM_VALUE_MAX_def fresh_sems_def same_tcb_def)
  ultimately show ?thesis using q2 by blast
qed

lemma sem_demo:
  "\<exists>k h. sem_reachable 0 k {0, 1} h \<and> semcount k 7 = - 1 \<and> waitsem k 1 = Some 7 \<and>
     this_task (ksched k) = Some 0 \<and> lockcount (ksched k) = (\<lambda>_. 0) \<and> sched_priority (ksched k) 1 = 100 \<and>
     sched_priority (ksched k) 0 = 0"
proof -
  obtain k2 q2 where k2: "sem_reachable 0 k2 {0, 1} no_history" "sem_inv k2 q2 0" "q2 G_readytorun = [1, 0]"
    "q2 G_pendingtasks = []" "q2 W = []" "fresh_sems k2" using demo_running by blast
  let ?q3 = "q_block (sched_priority (ksched k2)) W 1 q2"
  have c: "semcount k2 7 = 0" "waitsem k2 = (\<lambda>_. None)" using k2(6) by (simp_all add: fresh_sems_def)
  obtain k3 where k3: "nxsem_wait (Some 7) k2 = Some (None, k3)" "sem_inv k3 ?q3 0" "same_tcb (ksched k2) (ksched k3)"
    "semcount k3 = (semcount k2)(7 := semcount k2 7 - 1)" "waitsem k3 = (waitsem k2)(1 := Some 7)"
    using nxsem_wait_block [OF k2(2), of 7 1] c k2(3) by auto
  have th2: "this_task (ksched k2) = Some 1" using running_not_waiting(3) [OF k2(2)] k2(3) by simp
  have "sem_step 0 (k2, {0, 1}, no_history) (k3, {0, 1}, if None = Some (0::int) then h_take 7 1 no_history else no_history)"
    by (rule sem_step.wait [OF th2 _ k3(1)]) simp
  then have "sem_reachable 0 k3 {0, 1} no_history" using sem_reachable.step [OF k2(1)] by simp
  moreover have "?q3 G_readytorun = [0]"
    using k2(3,4) by (simp add: q_block_def q_merge_def q_enter_def q_remove_def merge_prio_def)
  then have "this_task (ksched k3) = Some 0" using running_not_waiting(3) [OF k3(2)] by simp
  ultimately show ?thesis using k3(3-5) c k2(6) by (auto simp: fresh_sems_def same_tcb_def)
qed

section \<open>Properties\<close>

text \<open>
  C7. In every state that any sequence of semaphore operations, scheduler steps, interrupts and
  timeouts can reach, the number of times a semaphore was taken is its initial value plus the
  number of posts, less the count that is still available: it is never handed out more often than
  it was made available, and no count is lost.  A negative count is the number of tasks that wait
  for the semaphore, and none waits while it is available.  All operations return in such a state.
\<close>

theorem semaphores_never_overcommit:
  assumes "sem_reachable idle k C h"
  shows "inited h m + posted h m = taken h m + max 0 (semcount k m) \<and>
    card {t \<in> C. task_state (ksched k) t = TSTATE_WAIT_SEM \<and> waitsem k t = Some m} = nat (- semcount k m) \<and>
    (this_task (ksched k) \<noteq> Some idle \<longrightarrow> nxsem_wait (Some m) k \<noteq> None) \<and> nxsem_trywait (Some m) k \<noteq> None \<and>
    nxsem_post (Some m) k \<noteq> None \<and> nxsem_timeout pid k \<noteq> None"
proof -
  obtain q where sys: "sem_sys idle k q C" and b: "balanced k h m"
    using sem_reachable_good [OF assms] by (auto simp: sem_good_def)
  note D = sem_sysD [OF sys]
  note r = running_not_waiting(3) [OF D(1)]
  have "{t \<in> C. task_state (ksched k) t = TSTATE_WAIT_SEM \<and> waitsem k t = Some m} = set (sem_waiters k q m)"
    using set_waiting [OF D(7)] D(2) by (auto simp: sem_waiters_def)
  then have w: "card {t \<in> C. task_state (ksched k) t = TSTATE_WAIT_SEM \<and> waitsem k t = Some m} = nat (- semcount k m)"
    using distinct_card [OF waiters_distinct [OF D(7), of m]] sem_invD(4) [OF D(1)] by simp
  have wait: "nxsem_wait (Some m) k \<noteq> None" if "this_task (ksched k) \<noteq> Some idle"
    using step_wait_take [OF sys, of m] step_wait_block [OF sys, of m] r that by (cases "0 < semcount k m") auto
  have tryw: "nxsem_trywait (Some m) k \<noteq> None" using r by (simp add: nxsem_trywait_def)
  have post: "nxsem_post (Some m) k \<noteq> None"
    using step_post [OF sys, of m] by (cases "semcount k m < SEM_VALUE_MAX") (auto simp: nxsem_post_def)
  have "nxsem_timeout pid k \<noteq> None"
  proof (cases "nxsched_get_tcb (int16 pid) (kpids k)")
    case (Some t)
    then have "t \<in> C" using get_tcb_live [OF D(5)] D(6) by blast
    then show ?thesis using Some step_irq [OF sys, of ETIMEDOUT t] by (auto simp: nxsem_timeout_def)
  qed (simp add: nxsem_timeout_def)
  then show ?thesis using b w wait tryw post by (simp add: balanced_def)
qed

theorem semaphores_never_overcommit_witness:
  "\<exists>k h. sem_reachable 0 k {0, 1} h \<and> semcount k 7 = - 1 \<and> inited h 7 + posted h 7 = taken h 7 \<and>
     card {t \<in> {0, 1}. task_state (ksched k) t = TSTATE_WAIT_SEM \<and> waitsem k t = Some 7} = 1"
proof -
  obtain k h where k: "sem_reachable 0 k {0, 1} h" "semcount k 7 = - 1" using sem_demo by blast
  from semaphores_never_overcommit [OF k(1), of 7] show ?thesis using k by auto
qed

text \<open>
  C12. Posting a semaphore for which tasks wait hands it to one of them: the task with the highest
  priority, whose \<open>nxsem_wait\<close> will return zero; all others go on waiting.  That task runs at once if
  its priority is higher than that of the running task, which holds no preemption lock; otherwise
  the running task goes on.
\<close>

theorem nxsem_post_hands_over:
  assumes "sem_reachable idle k C h" "semcount k m < 0" "this_task (ksched k) = Some r"
  shows "\<exists>k' t. nxsem_post (Some m) k = Some (0, k') \<and> waitsem k t = Some m \<and> nxsem_wait_resume t k' = 0 \<and>
    (\<forall>v. waitsem k v = Some m \<longrightarrow> sched_priority (ksched k) v \<le> sched_priority (ksched k) t) \<and>
    waitsem k' = (waitsem k)(t := None) \<and> task_state (ksched k') t \<noteq> TSTATE_WAIT_SEM \<and>
    this_task (ksched k') =
      Some (if lockcount (ksched k) r \<le> 0 \<and> sched_priority (ksched k) r < sched_priority (ksched k) t then t else r)"
proof -
  obtain q where sys: "sem_sys idle k q C" using sem_reachable_good [OF assms(1)] by (auto simp: sem_good_def)
  note D = sem_sysD [OF sys]
  let ?pr = "sched_priority (ksched k)" and ?lk = "lockcount (ksched k)"
  define t where "t = hd (sem_waiters k q m)"
  let ?q = "q_unblock ?pr ?lk t q"
  obtain k' where k': "nxsem_post (Some m) k = Some (0, k')" "sem_inv k' ?q idle" "waitsem k t = Some m"
    "waitsem k' = (waitsem k)(t := None)" "errcode k' = errcode k"
    using nxsem_post_wake [OF D(1) assms(2) t_def] by auto
  have tW: "t \<in> set (q W)" by (rule sem_invD(5) [OF D(1) k'(3)])
  have ne: "sem_waiters k q m \<noteq> []" using sem_invD(4) [OF D(1), of m] assms(2) by auto
  have "desc ?pr (sem_waiters k q m)"
    using waiting_desc [OF D(7)] unfolding desc_def sem_waiters_def by (rule sorted_wrt_filter)
  then have top: "?pr v \<le> ?pr t" if "waitsem k v = Some m" for v
  proof -
    have "v \<in> set (sem_waiters k q m)" using sem_invD(5) [OF D(1) that] that by (simp add: sem_waiters_def)
    then show ?thesis using \<open>desc ?pr (sem_waiters k q m)\<close> ne by (cases "sem_waiters k q m") (auto simp: t_def)
  qed
  have res: "nxsem_wait_resume t k' = 0" using D(3) [OF tW] k'(5) by (simp add: nxsem_wait_resume_def)
  have nw: "task_state (ksched k') t \<noteq> TSTATE_WAIT_SEM"
  proof -
    have "t \<notin> set (?q W)" by (simp add: q_unblock_W)
    moreover have "t \<in> listed ?q" by simp
    ultimately show ?thesis using set_waiting [OF sem_invD(1) [OF k'(2)]] by blast
  qed
  have r: "r = hd (q G_readytorun)" using running_not_waiting(3) [OF D(1)] assms(3) by simp
  have tn: "t \<notin> set (q G_readytorun)" using sched_ok_distinct(2) [OF D(7) _ tW, of G_readytorun] by simp
  have "hd (?q G_readytorun) = (if ?lk r \<le> 0 \<and> ?pr r < ?pr t then t else r)"
    using hd_unblock [OF D(7) tn] r by simp
  then have "this_task (ksched k') = Some (if ?lk r \<le> 0 \<and> ?pr r < ?pr t then t else r)"
    using running_not_waiting(3) [OF k'(2)] by simp
  then show ?thesis using k'(1,3,4) res top nw by (intro exI [of _ k'] exI [of _ t]) simp
qed

theorem nxsem_post_hands_over_witness:
  "\<exists>k h k' t. sem_reachable 0 k {0, 1} h \<and> semcount k 7 = - 1 \<and> nxsem_post (Some 7) k = Some (0, k') \<and>
     waitsem k t = Some 7 \<and> nxsem_wait_resume t k' = 0 \<and> this_task (ksched k') = Some t"
proof -
  obtain k h where k: "sem_reachable 0 k {0, 1} h" "semcount k 7 = - 1" "this_task (ksched k) = Some 0"
    "lockcount (ksched k) = (\<lambda>_. 0)" "sched_priority (ksched k) 0 = 0" "waitsem k 1 = Some 7"
    "sched_priority (ksched k) 1 = 100" using sem_demo by blast
  from nxsem_post_hands_over [OF k(1) _ k(3), of 7] k(2) obtain k' t where
    t: "nxsem_post (Some 7) k = Some (0, k')" "waitsem k t = Some 7" "nxsem_wait_resume t k' = 0"
      "\<forall>v. waitsem k v = Some 7 \<longrightarrow> sched_priority (ksched k) v \<le> sched_priority (ksched k) t"
      "this_task (ksched k') = Some (if lockcount (ksched k) 0 \<le> 0 \<and>
         sched_priority (ksched k) 0 < sched_priority (ksched k) t then t else 0)"
    by auto
  have "100 \<le> sched_priority (ksched k) t" using t(4) k(6,7) by metis
  then have "this_task (ksched k') = Some t" using t(5) k(4,5) by simp
  then show ?thesis using k(1,2) t(1-3) by blast
qed

text \<open>
  C33. \<open>nxsem_reset\<close> to a count wakes that many of the waiting tasks, those of highest priority first,
  or all of them if there are fewer; the tasks still waiting keep their order, and the new count is
  the requested one less the number of tasks that were waiting.
\<close>

theorem nxsem_reset_counts:
  assumes "sem_reachable idle k C h" "0 \<le> v" "v \<le> 32767" "this_task (ksched k) = Some r" "lockcount (ksched k) r < 32767"
  shows "\<exists>k' woken waiting. nxsem_reset False m v k = Some (0, k') \<and>
    set (woken @ waiting) = {t \<in> C. task_state (ksched k) t = TSTATE_WAIT_SEM \<and> waitsem k t = Some m} \<and>
    distinct (woken @ waiting) \<and> desc (sched_priority (ksched k)) (woken @ waiting) \<and>
    length woken = min (nat v) (length (woken @ waiting)) \<and>
    (\<forall>t. waitsem k' t = Some m \<longleftrightarrow> t \<in> set waiting) \<and> granted k k' m = set woken \<and>
    semcount k' = (semcount k)(m := v - int (length (woken @ waiting)))"
proof -
  obtain q where sys: "sem_sys idle k q C" using sem_reachable_good [OF assms(1)] by (auto simp: sem_good_def)
  note D = sem_sysD [OF sys]
  let ?w = "sem_waiters k q m"
  obtain k' q' where k': "nxsem_reset False m v k = Some (0, k')" "sem_sys idle k' q' C"
    "semcount k' = (semcount k)(m := if semcount k m < 0 then v + semcount k m else v)"
    "granted k k' m = set (take (nat v) ?w)" "sem_waiters k' q' m = drop (nat v) ?w"
    using step_reset [OF sys assms(2-5), of m] by blast
  have set: "set ?w = {t \<in> C. task_state (ksched k) t = TSTATE_WAIT_SEM \<and> waitsem k t = Some m}"
    using set_waiting [OF D(7)] D(2) by (auto simp: sem_waiters_def)
  have d: "desc (sched_priority (ksched k)) ?w"
    using waiting_desc [OF D(7)] unfolding desc_def sem_waiters_def by (rule sorted_wrt_filter)
  have "waitsem k' t = Some m \<longleftrightarrow> t \<in> set (sem_waiters k' q' m)" for t
    using sem_invD(5) [OF sem_sysD(1) [OF k'(2)]] by (auto simp: sem_waiters_def)
  moreover have "(if semcount k m < 0 then v + semcount k m else v) = v - int (length ?w)"
    using sem_invD(4) [OF D(1), of m] by simp
  ultimately show ?thesis using k' set d waiters_distinct [OF D(7), of m]
    by (intro exI [of _ k'] exI [of _ "take (nat v) ?w"] exI [of _ "drop (nat v) ?w"]) (simp add: min.commute)
qed

theorem nxsem_reset_counts_witness:
  "\<exists>k h k'. sem_reachable 0 k {0, 1} h \<and> semcount k 7 = - 1 \<and> nxsem_reset False 7 3 k = Some (0, k') \<and> 2 \<le> semcount k' 7"
proof -
  obtain k h where k: "sem_reachable 0 k {0, 1} h" "semcount k 7 = - 1" "this_task (ksched k) = Some 0"
    "lockcount (ksched k) = (\<lambda>_. 0)" using sem_demo by blast
  obtain k' woken waiting where r: "nxsem_reset False 7 3 k = Some (0, k')"
    "set (woken @ waiting) = {t \<in> {0, 1}. task_state (ksched k) t = TSTATE_WAIT_SEM \<and> waitsem k t = Some 7}"
    "distinct (woken @ waiting)" "semcount k' = (semcount k)(7 := 3 - int (length (woken @ waiting)))"
    using nxsem_reset_counts [OF k(1) _ _ k(3), of 3 7] k(4) by auto
  have "task_state (ksched k) 0 \<noteq> TSTATE_WAIT_SEM"
    using sem_reachable_good [OF k(1)] k(3) by (auto simp: sem_good_def dest: running_state)
  then have "set (woken @ waiting) \<subseteq> {1}" using r(2) by auto
  then have "card (set (woken @ waiting)) \<le> card {1 :: nat}" by (intro card_mono) auto
  then have "length (woken @ waiting) \<le> 1" unfolding distinct_card [OF r(3)] by simp
  then show ?thesis using k r(1,4) by auto
qed

end
