(* ===== verification/Wdog.thy ===== *)
theory Wdog
  imports Queue CInt "HOL-Library.Word"
begin

unbundle bit_operations_syntax

text \<open>
  The watchdog timers of \<open>sched/wdog\<close>, without \<open>CONFIG_SCHED_TICKLESS\<close> and with
  \<open>CONFIG_MAX_WDOGPARMS = 2\<close>, \<open>CONFIG_PREALLOC_WDOGS = 32\<close> and \<open>CONFIG_WDOG_INTRESERVE = 4\<close>.

  The active watchdogs form a delta list: a watchdog stores in \<open>lag\<close> the ticks between the
  expiry of the watchdog in front of it and its own.  A watchdog is the number of its structure;
  the structures below \<open>CONFIG_PREALLOC_WDOGS\<close> are those of the pool.  All fields are at the
  width of the C structure, and arithmetic on them wraps.

  The function of a watchdog is kernel code of any kind.  What matters here is which watchdogs
  it starts and cancels: it is a parameter of the timer that yields a list of such requests.
\<close>

section \<open>Data\<close>

type_synonym wdog = nat

record 'f wdogs =
  wd_next :: "wdog \<Rightarrow> wdog option"
  wd_func :: "wdog \<Rightarrow> 'f"
  wd_lag :: "wdog \<Rightarrow> int"
  wd_flags :: "wdog \<Rightarrow> 8 word"
  wd_argc :: "wdog \<Rightarrow> int"
  wd_parm :: "wdog \<Rightarrow> nat \<Rightarrow> int"
  wd_activelist :: "wdog sq_queue"
  wd_freelist :: "wdog sq_queue"
  wd_nfree :: int

definition MAX_WDOGPARMS :: int where "MAX_WDOGPARMS = 2"
definition PREALLOC_WDOGS :: nat where "PREALLOC_WDOGS = 32"
definition WDOG_INTRESERVE :: int where "WDOG_INTRESERVE = 4"

definition WDOGF_ACTIVE :: "8 word" where "WDOGF_ACTIVE = 1"
definition WDOGF_ALLOCED :: "8 word" where "WDOGF_ALLOCED = 2"
definition WDOGF_STATIC :: "8 word" where "WDOGF_STATIC = 4"

definition WDOG_ISACTIVE :: "wdog \<Rightarrow> 'f wdogs \<Rightarrow> bool" where
  "WDOG_ISACTIVE w st \<longleftrightarrow> wd_flags st w AND WDOGF_ACTIVE \<noteq> 0"

definition WDOG_ISALLOCED :: "wdog \<Rightarrow> 'f wdogs \<Rightarrow> bool" where
  "WDOG_ISALLOCED w st \<longleftrightarrow> wd_flags st w AND WDOGF_ALLOCED \<noteq> 0"

definition WDOG_ISSTATIC :: "wdog \<Rightarrow> 'f wdogs \<Rightarrow> bool" where
  "WDOG_ISSTATIC w st \<longleftrightarrow> wd_flags st w AND WDOGF_STATIC \<noteq> 0"

definition WDOG_SETACTIVE :: "wdog \<Rightarrow> 'f wdogs \<Rightarrow> 'f wdogs" where
  "WDOG_SETACTIVE w st = st\<lparr>wd_flags := (wd_flags st)(w := wd_flags st w OR WDOGF_ACTIVE)\<rparr>"

definition WDOG_CLRACTIVE :: "wdog \<Rightarrow> 'f wdogs \<Rightarrow> 'f wdogs" where
  "WDOG_CLRACTIVE w st = st\<lparr>wd_flags := (wd_flags st)(w := wd_flags st w AND NOT WDOGF_ACTIVE)\<rparr>"

text \<open>The active and the free list share the link field; access to both as queue states.\<close>

definition active_q :: "'f wdogs \<Rightarrow> wdog sq_state" where
  "active_q st = (wd_next st, wd_activelist st)"

definition set_active_q :: "wdog sq_state \<Rightarrow> 'f wdogs \<Rightarrow> 'f wdogs" where
  "set_active_q q st = st\<lparr>wd_next := fst q, wd_activelist := snd q\<rparr>"

definition free_q :: "'f wdogs \<Rightarrow> wdog sq_state" where
  "free_q st = (wd_next st, wd_freelist st)"

definition set_free_q :: "wdog sq_state \<Rightarrow> 'f wdogs \<Rightarrow> 'f wdogs" where
  "set_free_q q st = st\<lparr>wd_next := fst q, wd_freelist := snd q\<rparr>"

definition set_lag :: "wdog \<Rightarrow> int \<Rightarrow> 'f wdogs \<Rightarrow> 'f wdogs" where
  "set_lag w n st = st\<lparr>wd_lag := (wd_lag st)(w := int32 n)\<rparr>"

section \<open>Operations\<close>

text \<open>\<open>wd_initialize\<close>: the loop puts the pool on the free list.\<close>

fun wd_fill :: "nat \<Rightarrow> 'f wdogs \<Rightarrow> 'f wdogs option" where
  "wd_fill 0 st = Some st"
| "wd_fill (Suc n) st =
     do { q \<leftarrow> sq_addlast (PREALLOC_WDOGS - Suc n) (free_q st);
          wd_fill n (set_free_q q st) }"

definition wd_initialize :: "'f wdogs \<Rightarrow> 'f wdogs option" where
  "wd_initialize st =
     do { st1 \<leftarrow> wd_fill PREALLOC_WDOGS (st\<lparr>wd_freelist := sq_init, wd_activelist := sq_init\<rparr>);
          Some (st1\<lparr>wd_nfree := int PREALLOC_WDOGS\<rparr>) }"

text \<open>
  \<open>wd_create\<close>: \<open>irq\<close> is the result of \<open>up_interrupt_context\<close>, \<open>mem\<close> that of \<open>kmm_malloc\<close>.
\<close>

definition wd_create :: "bool \<Rightarrow> wdog option \<Rightarrow> 'f wdogs \<Rightarrow> wdog option \<times> 'f wdogs" where
  "wd_create irq mem st =
     (if wd_nfree st > WDOG_INTRESERVE \<or> irq
      then (case sq_remfirst (free_q st) of
              (None, q) \<Rightarrow> (None, set_free_q q st)
            | (Some w, q) \<Rightarrow>
                (let st1 = set_free_q q st;
                     st2 = st1\<lparr>wd_nfree := uint16 (wd_nfree st1 - 1)\<rparr>
                 in (Some w, st2\<lparr>wd_next := (wd_next st2)(w := None),
                                 wd_flags := (wd_flags st2)(w := 0)\<rparr>)))
      else (case mem of
              None \<Rightarrow> (None, st)
            | Some w \<Rightarrow>
                (Some w, st\<lparr>wd_next := (wd_next st)(w := None),
                            wd_flags := (wd_flags st)(w := WDOGF_ALLOCED)\<rparr>)))"

text \<open>The search loop of \<open>wd_cancel\<close>; it yields \<open>prev\<close> and \<open>curr\<close>.\<close>

partial_function (option) wd_find ::
    "(wdog \<Rightarrow> wdog option) \<Rightarrow> wdog \<Rightarrow> wdog option \<Rightarrow> wdog option \<Rightarrow>
     (wdog option \<times> wdog option) option" where
  "wd_find nx w cur prev =
     (case cur of
        None \<Rightarrow> Some (prev, None)
      | Some c \<Rightarrow> if c = w then Some (prev, Some c) else wd_find nx w (nx c) (Some c))"

definition wd_cancel :: "wdog option \<Rightarrow> 'f wdogs \<Rightarrow> (int \<times> 'f wdogs) option" where
  "wd_cancel wdog st =
     (case wdog of
        None \<Rightarrow> Some (- EINVAL, st)
      | Some w \<Rightarrow>
          if \<not> WDOG_ISACTIVE w st then Some (- EINVAL, st)
          else do {
            (prev, cur) \<leftarrow> wd_find (wd_next st) w (sq_head (wd_activelist st)) None;
            c \<leftarrow> cur;
            let st1 = (case wd_next st c of
                         None \<Rightarrow> st
                       | Some n \<Rightarrow> set_lag n (wd_lag st n + wd_lag st c) st);
            let st2 = (case prev of
                         Some p \<Rightarrow> set_active_q (snd (sq_remafter p (active_q st1))) st1
                       | None \<Rightarrow> set_active_q (snd (sq_remfirst (active_q st1))) st1);
            let st3 = st2\<lparr>wd_next := (wd_next st2)(w := None)\<rparr>;
            Some (0, WDOG_CLRACTIVE w st3) })"

text \<open>\<open>wd_gettime\<close>; \<open>wd_elapse\<close> is zero without \<open>CONFIG_SCHED_TICKLESS\<close>.\<close>

partial_function (option) wd_sumlag ::
    "(wdog \<Rightarrow> wdog option) \<Rightarrow> (wdog \<Rightarrow> int) \<Rightarrow> wdog \<Rightarrow> wdog option \<Rightarrow> int \<Rightarrow> int option" where
  "wd_sumlag nx lag w cur delay =
     (case cur of
        None \<Rightarrow> Some 0
      | Some c \<Rightarrow>
          (let delay' = int32 (delay + lag c)
           in if c = w then Some (int32 (delay' - 0)) else wd_sumlag nx lag w (nx c) delay'))"

definition wd_gettime :: "wdog option \<Rightarrow> 'f wdogs \<Rightarrow> int option" where
  "wd_gettime wdog st =
     (case wdog of
        None \<Rightarrow> Some 0
      | Some w \<Rightarrow>
          if WDOG_ISACTIVE w st
          then wd_sumlag (wd_next st) (wd_lag st) w (sq_head (wd_activelist st)) 0
          else Some 0)"

text \<open>\<open>wd_delete\<close>; the second result says that the structure was given to \<open>kmm_free\<close>.\<close>

definition wd_delete :: "wdog \<Rightarrow> 'f wdogs \<Rightarrow> (int \<times> bool \<times> 'f wdogs) option" where
  "wd_delete w st =
     do { st1 \<leftarrow> (if WDOG_ISACTIVE w st then map_option snd (wd_cancel (Some w) st) else Some st);
          if WDOG_ISALLOCED w st1 then Some (0, True, st1)
          else if \<not> WDOG_ISSTATIC w st1
          then do { q \<leftarrow> sq_addlast w (free_q st1);
                    let st2 = set_free_q q st1;
                    Some (0, False, st2\<lparr>wd_nfree := uint16 (wd_nfree st2 + 1)\<rparr>) }
          else Some (0, False, st1) }"

text \<open>\<open>wd_recover\<close>, on the field \<open>waitdog\<close> of the task that is deleted.\<close>

definition wd_recover :: "wdog option \<Rightarrow> 'f wdogs \<Rightarrow> (wdog option \<times> 'f wdogs) option" where
  "wd_recover waitdog st =
     (case waitdog of
        None \<Rightarrow> Some (None, st)
      | Some w \<Rightarrow>
          do { (_, st1) \<leftarrow> wd_cancel (Some w) st;
               (_, _, st2) \<leftarrow> wd_delete w st1;
               Some (None, st2) })"

text \<open>
  \<open>wd_start\<close>: the loop over the variable arguments, the two loops that find the place of the
  watchdog (they yield \<open>now\<close>, \<open>prev\<close> and \<open>curr\<close>), and the insertion.
\<close>

function wd_setparms :: "nat \<Rightarrow> int \<Rightarrow> int list \<Rightarrow> (nat \<Rightarrow> int) \<Rightarrow> (nat \<Rightarrow> int) option" where
  "wd_setparms i argc args parm =
     (if int i < argc
      then (case args of
              [] \<Rightarrow> None
            | a # as \<Rightarrow> wd_setparms (Suc i) argc as (parm(i := uint32 a)))
      else Some parm)"
  by pat_completeness auto
termination by (relation "measure (\<lambda>(i, argc, _). nat (argc - int i))") auto

declare wd_setparms.simps [simp del]

partial_function (option) wd_advance ::
    "(wdog \<Rightarrow> wdog option) \<Rightarrow> (wdog \<Rightarrow> int) \<Rightarrow> int \<Rightarrow> wdog \<Rightarrow> wdog \<Rightarrow> (int \<times> wdog \<times> wdog) option"
  where
  "wd_advance nx lag now prev cur =
     (let now' = int32 (now + lag cur)
      in case nx cur of
           None \<Rightarrow> Some (now', prev, cur)
         | Some n \<Rightarrow> if now' < 0 then wd_advance nx lag now' cur n else Some (now', prev, cur))"

partial_function (option) wd_pass ::
    "(wdog \<Rightarrow> wdog option) \<Rightarrow> (wdog \<Rightarrow> int) \<Rightarrow> int \<Rightarrow> int \<Rightarrow> wdog \<Rightarrow> wdog \<Rightarrow> (int \<times> wdog \<times> wdog) option"
  where
  "wd_pass nx lag delay now prev cur =
     (case nx cur of
        None \<Rightarrow> Some (now, prev, cur)
      | Some n \<Rightarrow> if now \<le> delay then wd_pass nx lag delay (int32 (now + lag n)) cur n
                  else Some (now, prev, cur))"

definition wd_insert :: "wdog \<Rightarrow> int \<Rightarrow> 'f wdogs \<Rightarrow> 'f wdogs option" where
  "wd_insert w delay st =
     (case sq_head (wd_activelist st) of
        None \<Rightarrow>
          do { q \<leftarrow> sq_addlast w (active_q st);
               Some (WDOG_SETACTIVE w (set_lag w delay (set_active_q q st))) }
      | Some h \<Rightarrow>
          do { (now1, prev1, curr1) \<leftarrow> wd_advance (wd_next st) (wd_lag st) 0 h h;
               (now, prev, cur) \<leftarrow> wd_pass (wd_next st) (wd_lag st) delay now1 prev1 curr1;
               if delay < now
               then do {
                 let delay = int32 (delay - int32 (now - wd_lag st cur));
                 let st1 = set_lag cur (wd_lag st cur - delay) st;
                 q \<leftarrow> (if cur = h then Some (sq_addfirst w (active_q st1))
                        else sq_addafter prev w (active_q st1));
                 Some (WDOG_SETACTIVE w (set_lag w delay (set_active_q q st1))) }
               else do {
                 let delay = int32 (delay - now);
                 case wd_next st cur of
                   None \<Rightarrow>
                     do { q \<leftarrow> sq_addlast w (active_q st);
                          Some (WDOG_SETACTIVE w (set_lag w delay (set_active_q q st))) }
                 | Some n \<Rightarrow>
                     do { let st1 = set_lag n (wd_lag st n - delay) st;
                          q \<leftarrow> sq_addafter cur w (active_q st1);
                          Some (WDOG_SETACTIVE w (set_lag w delay (set_active_q q st1))) } } })"

text \<open>Delay plus one, forced into the range of \<open>int32_t\<close>.\<close>

definition wd_delay :: "int \<Rightarrow> int" where
  "wd_delay delay =
     (if delay \<le> 0 then 1
      else let d = int32 (delay + 1) in if d \<le> 0 then int32 (d - 1) else d)"

definition wd_start ::
    "wdog option \<Rightarrow> int \<Rightarrow> 'f \<Rightarrow> int \<Rightarrow> int list \<Rightarrow> 'f wdogs \<Rightarrow> (int \<times> 'f wdogs) option" where
  "wd_start wdog delay wdentry argc args st =
     (case wdog of
        None \<Rightarrow> Some (- EINVAL, st)
      | Some w \<Rightarrow>
          if argc > MAX_WDOGPARMS \<or> delay < 0 then Some (- EINVAL, st)
          else do {
            st1 \<leftarrow> (if WDOG_ISACTIVE w st then map_option snd (wd_cancel (Some w) st) else Some st);
            let st2 = st1\<lparr>wd_func := (wd_func st1)(w := wdentry),
                          wd_argc := (wd_argc st1)(w := uint8 argc)\<rparr>;
            parm \<leftarrow> wd_setparms 0 argc args (wd_parm st2 w);
            st3 \<leftarrow> wd_insert w (wd_delay delay) (st2\<lparr>wd_parm := (wd_parm st2)(w := parm)\<rparr>);
            Some (0, st3) })"

text \<open>
  The requests a watchdog function makes, and their execution.
\<close>

datatype 'f wd_req = WdStart wdog int 'f int "int list" | WdCancel wdog

fun wd_request :: "'f wd_req \<Rightarrow> 'f wdogs \<Rightarrow> 'f wdogs option" where
  "wd_request (WdStart w delay f argc args) st = map_option snd (wd_start (Some w) delay f argc args st)"
| "wd_request (WdCancel w) st = map_option snd (wd_cancel (Some w) st)"

fun wd_requests :: "'f wd_req list \<Rightarrow> 'f wdogs \<Rightarrow> 'f wdogs option" where
  "wd_requests [] st = Some st"
| "wd_requests (r # rs) st = do { st1 \<leftarrow> wd_request r st; wd_requests rs st1 }"

text \<open>
  One call of a watchdog function: the watchdog, the function, its arguments and the requests it
  made.
\<close>

record 'f wd_call =
  call_wdog :: wdog
  call_func :: 'f
  call_argc :: int
  call_parms :: "int \<times> int"
  call_reqs :: "'f wd_req list"

type_synonym 'f wd_code = "'f \<Rightarrow> int \<Rightarrow> int \<times> int \<Rightarrow> 'f wdogs \<Rightarrow> 'f wd_req list"

definition wd_called :: "'f wd_code \<Rightarrow> wdog \<Rightarrow> 'f wdogs \<Rightarrow> 'f wd_call" where
  "wd_called code w st =
     (let parms = (wd_parm st w 0, wd_parm st w 1)
      in \<lparr>call_wdog = w, call_func = wd_func st w, call_argc = wd_argc st w, call_parms = parms,
          call_reqs = code (wd_func st w) (wd_argc st w) parms st\<rparr>)"

partial_function (option) wd_expire_loop ::
    "'f wd_code \<Rightarrow> 'f wdogs \<Rightarrow> 'f wd_call list \<Rightarrow> ('f wd_call list \<times> 'f wdogs) option" where
  "wd_expire_loop code st trace =
     (case sq_head (wd_activelist st) of
        None \<Rightarrow> Some (trace, st)
      | Some h \<Rightarrow>
          if wd_lag st h > 0 then Some (trace, st)
          else do {
            let (r, q) = sq_remfirst (active_q st);
            w \<leftarrow> r;
            let st1 = set_active_q q st;
            let st2 = (case sq_head (wd_activelist st1) of
                         None \<Rightarrow> st1
                       | Some n \<Rightarrow> set_lag n (wd_lag st1 n + wd_lag st1 w) st1);
            let st3 = WDOG_CLRACTIVE w st2;
            let c = wd_called code w st3;
            st4 \<leftarrow> wd_requests (call_reqs c) st3;
            wd_expire_loop code st4 (trace @ [c]) })"

definition wd_expiration :: "'f wd_code \<Rightarrow> 'f wdogs \<Rightarrow> ('f wd_call list \<times> 'f wdogs) option" where
  "wd_expiration code st =
     do { h \<leftarrow> sq_head (wd_activelist st);
          if wd_lag st h \<le> 0 then wd_expire_loop code st [] else Some ([], st) }"

definition wd_timer :: "'f wd_code \<Rightarrow> 'f wdogs \<Rightarrow> ('f wd_call list \<times> 'f wdogs) option" where
  "wd_timer code st =
     (case sq_head (wd_activelist st) of
        None \<Rightarrow> Some ([], st)
      | Some h \<Rightarrow> wd_expiration code (set_lag h (wd_lag st h - 1) st))"

end
