(* ===== verification/Wdog_Correct.thy ===== *)
theory Wdog_Correct
  imports Wdog
begin

unbundle bit_operations_syntax

text \<open>
  The delta list as a list of watchdogs with the ticks that remain until each expires
  (\<open>timers\<close>), the invariant of the watchdog data, and what every operation does to the list of
  remaining times: \<open>wd_start\<close> inserts behind all timers that expire no later, \<open>wd_cancel\<close>
  removes, \<open>wd_gettime\<close> looks up, and a timer tick takes one from every remaining time and
  calls the functions of those that reach zero.
\<close>

section \<open>Remaining times\<close>

fun remaining :: "(wdog \<Rightarrow> int) \<Rightarrow> int \<Rightarrow> wdog list \<Rightarrow> (wdog \<times> int) list" where
  "remaining lag acc [] = []"
| "remaining lag acc (w # ws) = (w, acc + lag w) # remaining lag (acc + lag w) ws"

lemma remaining_append [simp]:
  "remaining lag acc (xs @ ys) = remaining lag acc xs @ remaining lag (acc + sum_list (map lag xs)) ys"
  by (induction xs arbitrary: acc) (auto simp: add.assoc)

lemma remaining_cong:
  "(\<And>w. w \<in> set ws \<Longrightarrow> lag w = lag' w) \<Longrightarrow> remaining lag acc ws = remaining lag' acc ws"
  by (induction ws arbitrary: acc) auto

lemma fst_remaining [simp]: "map fst (remaining lag acc ws) = ws"
  by (induction ws arbitrary: acc) auto

lemma remaining_wdog: "(w, t) \<in> set (remaining lag acc ws) \<Longrightarrow> w \<in> set ws"
  by (metis fst_remaining fst_conv image_eqI set_map)

lemma remaining_Nil [simp]: "remaining lag acc ws = [] \<longleftrightarrow> ws = []"
  by (cases ws) auto

lemma remaining_upd [simp]: "w \<notin> set ws \<Longrightarrow> remaining (lag(w := n)) acc ws = remaining lag acc ws"
  by (rule remaining_cong) auto

lemma remaining_ge:
  "\<forall>w \<in> set ws. 0 \<le> lag w \<Longrightarrow> (w, t) \<in> set (remaining lag acc ws) \<Longrightarrow> acc \<le> t"
  by (induction ws arbitrary: acc) force+

lemma sum_list_nonneg_lag: "\<forall>w \<in> set ws. 0 \<le> (lag w :: int) \<Longrightarrow> 0 \<le> sum_list (map lag ws)"
  by (induction ws) auto

lemma remaining_shift:
  "remaining lag (acc + k) ws = map (\<lambda>(w, t). (w, t + k)) (remaining lag acc ws)"
proof (induction ws arbitrary: acc)
  case (Cons a ws)
  show ?case using Cons [of "acc + lag a"] by (simp add: ac_simps)
qed simp

lemma remaining_filter_notin: "w \<notin> set ws \<Longrightarrow> filter (\<lambda>(v, t). v \<noteq> w) (remaining lag acc ws) = remaining lag acc ws"
  by (induction ws arbitrary: acc) auto

text \<open>Taking a watchdog out, its successor inheriting its lag.\<close>

definition inherit :: "wdog \<Rightarrow> wdog option \<Rightarrow> (wdog \<Rightarrow> int) \<Rightarrow> (wdog \<Rightarrow> int)" where
  "inherit w nxt lag = (case nxt of None \<Rightarrow> lag | Some n \<Rightarrow> lag(n := lag n + lag w))"

lemma remaining_inherit:
  assumes "distinct (pre @ w # post)"
  shows "remaining (inherit w (hd_opt post) lag) acc (pre @ post) =
           filter (\<lambda>(v, t). v \<noteq> w) (remaining lag acc (pre @ w # post))"
proof -
  have pre: "remaining (inherit w (hd_opt post) lag) a pre = remaining lag a pre" for a
    using assms by (cases post) (auto simp: inherit_def intro!: remaining_cong)
  have sum: "sum_list (map (inherit w (hd_opt post) lag) pre) = sum_list (map lag pre)"
    using assms by (cases post) (auto simp: inherit_def intro!: arg_cong [where f = sum_list])
  have post: "remaining (inherit w (hd_opt post) lag) a post = remaining lag (a + lag w) post" for a
    using assms by (cases post) (auto simp: inherit_def algebra_simps)
  show ?thesis
    using assms by (simp add: pre sum post remaining_filter_notin)
qed

text \<open>Inserting by time, behind equal times.\<close>

fun insert_time :: "wdog \<Rightarrow> int \<Rightarrow> (wdog \<times> int) list \<Rightarrow> (wdog \<times> int) list" where
  "insert_time w d [] = [(w, d)]"
| "insert_time w d ((v, t) # ts) = (if t \<le> d then (v, t) # insert_time w d ts else (w, d) # (v, t) # ts)"

lemma insert_time_split:
  assumes "\<forall>(v, t) \<in> set xs. t \<le> d" "\<forall>(v, t) \<in> set (take 1 ys). d < t"
  shows "insert_time w d (xs @ ys) = xs @ (w, d) # ys"
  using assms by (induction xs; cases ys) auto

lemma set_insert_time [simp]: "set (insert_time w d ts) = insert (w, d) (set ts)"
  by (induction w d ts rule: insert_time.induct) auto

section \<open>Flags\<close>

lemma flag_bits [simp]:
  "(x OR 1) AND 1 \<noteq> (0::8 word)" "(x AND - 2) AND 1 = (0::8 word)"
proof -
  have "bit ((x OR 1) AND 1) 0" by (simp add: bit_simps)
  then show "(x OR 1) AND 1 \<noteq> (0::8 word)" by (metis bit_0_eq bot_apply bot_bool_def)
  show "(x AND - 2) AND 1 = (0::8 word)"
    by (simp add: and.assoc)
qed

lemma WDOG_ISACTIVE_upd [simp]:
  "WDOG_ISACTIVE v (WDOG_SETACTIVE w st) \<longleftrightarrow> v = w \<or> WDOG_ISACTIVE v st"
  "WDOG_ISACTIVE v (WDOG_CLRACTIVE w st) \<longleftrightarrow> v \<noteq> w \<and> WDOG_ISACTIVE v st"
  by (auto simp: WDOG_ISACTIVE_def WDOG_SETACTIVE_def WDOG_CLRACTIVE_def WDOGF_ACTIVE_def)

lemma WDOG_ISACTIVE_same [simp]:
  "WDOG_ISACTIVE v (set_active_q q st) = WDOG_ISACTIVE v st"
  "WDOG_ISACTIVE v (set_free_q q st) = WDOG_ISACTIVE v st"
  "WDOG_ISACTIVE v (set_lag w n st) = WDOG_ISACTIVE v st"
  "WDOG_ISACTIVE v (st\<lparr>wd_next := nx\<rparr>) = WDOG_ISACTIVE v st"
  "WDOG_ISACTIVE v (st\<lparr>wd_func := fn\<rparr>) = WDOG_ISACTIVE v st"
  "WDOG_ISACTIVE v (st\<lparr>wd_argc := ac\<rparr>) = WDOG_ISACTIVE v st"
  "WDOG_ISACTIVE v (st\<lparr>wd_parm := pm\<rparr>) = WDOG_ISACTIVE v st"
  "WDOG_ISACTIVE v (st\<lparr>wd_nfree := nf\<rparr>) = WDOG_ISACTIVE v st"
  by (simp_all add: WDOG_ISACTIVE_def set_active_q_def set_free_q_def set_lag_def)

lemma wd_fields [simp]:
  "wd_next (set_active_q q st) = fst q" "wd_activelist (set_active_q q st) = snd q"
  "wd_freelist (set_active_q q st) = wd_freelist st" "wd_lag (set_active_q q st) = wd_lag st"
  "wd_nfree (set_active_q q st) = wd_nfree st" "wd_func (set_active_q q st) = wd_func st"
  "wd_argc (set_active_q q st) = wd_argc st" "wd_parm (set_active_q q st) = wd_parm st"
  "wd_flags (set_active_q q st) = wd_flags st"
  "wd_next (set_free_q q st) = fst q" "wd_freelist (set_free_q q st) = snd q"
  "wd_activelist (set_free_q q st) = wd_activelist st" "wd_lag (set_free_q q st) = wd_lag st"
  "wd_nfree (set_free_q q st) = wd_nfree st" "wd_flags (set_free_q q st) = wd_flags st"
  "wd_next (set_lag w n st) = wd_next st" "wd_activelist (set_lag w n st) = wd_activelist st"
  "wd_freelist (set_lag w n st) = wd_freelist st" "wd_nfree (set_lag w n st) = wd_nfree st"
  "wd_lag (set_lag w n st) = (wd_lag st)(w := int32 n)" "wd_func (set_lag w n st) = wd_func st"
  "wd_argc (set_lag w n st) = wd_argc st" "wd_parm (set_lag w n st) = wd_parm st"
  "wd_flags (set_lag w n st) = wd_flags st"
  by (simp_all add: set_active_q_def set_free_q_def set_lag_def)

lemma wd_flag_fields [simp]:
  "wd_next (WDOG_SETACTIVE w st) = wd_next st" "wd_next (WDOG_CLRACTIVE w st) = wd_next st"
  "wd_activelist (WDOG_SETACTIVE w st) = wd_activelist st"
  "wd_activelist (WDOG_CLRACTIVE w st) = wd_activelist st"
  "wd_freelist (WDOG_SETACTIVE w st) = wd_freelist st"
  "wd_freelist (WDOG_CLRACTIVE w st) = wd_freelist st"
  "wd_lag (WDOG_SETACTIVE w st) = wd_lag st" "wd_lag (WDOG_CLRACTIVE w st) = wd_lag st"
  "wd_nfree (WDOG_SETACTIVE w st) = wd_nfree st" "wd_nfree (WDOG_CLRACTIVE w st) = wd_nfree st"
  "wd_func (WDOG_SETACTIVE w st) = wd_func st" "wd_func (WDOG_CLRACTIVE w st) = wd_func st"
  "wd_argc (WDOG_SETACTIVE w st) = wd_argc st" "wd_argc (WDOG_CLRACTIVE w st) = wd_argc st"
  "wd_parm (WDOG_SETACTIVE w st) = wd_parm st" "wd_parm (WDOG_CLRACTIVE w st) = wd_parm st"
  by (simp_all add: WDOG_SETACTIVE_def WDOG_CLRACTIVE_def)

section \<open>Queue operations keep what they do not touch\<close>

lemma sq_list_frame:
  assumes "sq_list (f, q) xs" "\<And>v. v \<in> set xs \<Longrightarrow> f' v = f v"
  shows "sq_list (f', q) xs"
  using assms path_cong [of xs f' f] by (auto simp: sq_list_def)

lemma sq_addfirst_frame: "v \<noteq> n \<Longrightarrow> fst (sq_addfirst n st) v = fst st v"
  by (cases st) (simp add: sq_addfirst_def Let_def)

lemma sq_addlast_frame:
  assumes "sq_list st xs" "sq_addlast n st = Some st'" "v \<notin> set xs" "v \<noteq> n"
  shows "fst st' v = fst st v"
proof (cases "sq_head (snd st)")
  case None
  with assms show ?thesis by (cases st) (auto simp: sq_addlast_def Let_def)
next
  case (Some h)
  then have "xs \<noteq> []" using assms(1) by (auto simp: sq_list_def)
  then have "sq_tail (snd st) = Some (last xs)" "last xs \<in> set xs"
    using assms(1) by (auto simp: sq_list_def)
  with Some assms show ?thesis by (cases st) (auto simp: sq_addlast_def Let_def)
qed

lemma sq_addafter_frame:
  assumes "sq_list st xs" "sq_addafter p n st = Some st'" "p \<in> set xs" "v \<notin> set xs" "v \<noteq> n"
  shows "fst st' v = fst st v"
proof (cases "sq_head (snd st) = None \<or> Some p = sq_tail (snd st)")
  case True
  then have "sq_addlast n st = Some st'" using assms(2) by (cases st) (auto simp: sq_addafter_def)
  then show ?thesis by (rule sq_addlast_frame [OF assms(1) _ assms(4,5)])
next
  case False
  obtain f q where "st = (f, q)" by (cases st)
  moreover have "v \<noteq> p" using assms(3,4) by blast
  ultimately show ?thesis using assms(2,5) False by (auto simp: sq_addafter_def Let_def)
qed

lemma sq_remfirst_frame:
  assumes "sq_list st xs" "v \<notin> set xs"
  shows "fst (snd (sq_remfirst st)) v = fst st v"
proof -
  obtain f q where st: "st = (f, q)" by (cases st)
  have "sq_head q = hd_opt xs" using sq_list_head [OF assms(1)] st by simp
  with assms(2) st show ?thesis by (cases xs) (simp_all add: sq_remfirst_def Let_def)
qed

lemma sq_remafter_frame:
  assumes "sq_list st (xs @ p # n # ys)" "v \<notin> set (xs @ p # n # ys)"
  shows "fst (snd (sq_remafter p st)) v = fst st v"
proof -
  have "path (fst st) (sq_head (snd st)) (xs @ p # n # ys) None"
    using assms(1) unfolding sq_list_def by blast
  from path_next [OF this] have "fst st p = Some n" by simp
  moreover obtain f q where "st = (f, q)" by (cases st)
  ultimately show ?thesis using assms(2) by (simp add: sq_remafter_def Let_def)
qed

section \<open>Invariant\<close>

text \<open>
  \<open>wd_inv st ws fs\<close>: the active list holds \<open>ws\<close>, the free list \<open>fs\<close>; exactly the watchdogs of
  the active list are marked active; lags are not negative and no remaining time exceeds
  \<open>int32_t\<close>; the counter of free watchdogs is right.
\<close>

definition timers :: "'f wdogs \<Rightarrow> wdog list \<Rightarrow> (wdog \<times> int) list" where
  "timers st ws = remaining (wd_lag st) 0 ws"

definition wd_inv :: "'f wdogs \<Rightarrow> wdog list \<Rightarrow> wdog list \<Rightarrow> bool" where
  "wd_inv st ws fs \<longleftrightarrow>
     sq_list (active_q st) ws \<and> sq_list (free_q st) fs \<and> set ws \<inter> set fs = {} \<and>
     (\<forall>w \<in> set ws. 0 \<le> wd_lag st w) \<and> (\<forall>(w, t) \<in> set (timers st ws). t < 2 ^ 31) \<and>
     (\<forall>w. WDOG_ISACTIVE w st \<longleftrightarrow> w \<in> set ws) \<and>
     wd_nfree st = int (length fs) \<and> set fs \<subseteq> {..<PREALLOC_WDOGS}"

lemma wd_invD:
  assumes "wd_inv st ws fs"
  shows "sq_list (wd_next st, wd_activelist st) ws" "sq_list (wd_next st, wd_freelist st) fs"
    and "set ws \<inter> set fs = {}" "\<And>w. w \<in> set ws \<Longrightarrow> 0 \<le> wd_lag st w"
    and "\<And>w t. (w, t) \<in> set (remaining (wd_lag st) 0 ws) \<Longrightarrow> t < 2 ^ 31"
    and "\<And>w. WDOG_ISACTIVE w st \<longleftrightarrow> w \<in> set ws"
    and "distinct ws" "distinct fs" "sq_head (wd_activelist st) = hd_opt ws"
    and "wd_nfree st = int (length fs)" "set fs \<subseteq> {..<PREALLOC_WDOGS}"
  using assms sq_list_distinct sq_list_head [of "(wd_next st, wd_activelist st)"]
  by (auto simp: wd_inv_def active_q_def free_q_def timers_def)

lemma wd_path:
  assumes "wd_inv st ws fs"
  shows "path (wd_next st) (sq_head (wd_activelist st)) ws None"
  using wd_invD(1) [OF assms] by (simp add: sq_list_def)

lemma int32_id: "0 \<le> x \<Longrightarrow> x < 2 ^ 31 \<Longrightarrow> int32 x = x"
  by (rule sint_cast_id) simp_all

lemma remaining_le_last:
  "\<forall>w \<in> set ws. 0 \<le> lag w \<Longrightarrow> w \<in> set ws \<Longrightarrow> \<exists>t. (w, t) \<in> set (remaining lag acc ws) \<and> acc + lag w \<le> t"
proof (induction ws arbitrary: acc)
  case (Cons a ws)
  show ?case
  proof (cases "w = a")
    case False
    then obtain t where "(w, t) \<in> set (remaining lag (acc + lag a) ws)" "acc + lag a + lag w \<le> t"
      using Cons by fastforce
    then show ?thesis using Cons.prems(1) by fastforce
  qed auto
qed simp

lemma wd_lag_bound: "wd_inv st ws fs \<Longrightarrow> w \<in> set ws \<Longrightarrow> wd_lag st w < 2 ^ 31"
  using remaining_le_last [of ws "wd_lag st" w 0] wd_invD(4,5) by fastforce

section \<open>Cancelling\<close>

lemma wd_find_spec:
  assumes "path nx x (pre @ w # post) None" "w \<notin> set pre"
  shows "wd_find nx w x prev = Some (if pre = [] then prev else Some (last pre), Some w)"
  using assms
proof (induction pre arbitrary: x prev)
  case Nil
  then show ?case by (subst wd_find.simps) simp
next
  case (Cons a pre)
  then show ?case by (subst wd_find.simps) (auto simp del: path_append)
qed

text \<open>
  Removal of \<open>w\<close> from the active list, however it is done: the conditions on the new state that
  keep the invariant.
\<close>

lemma wd_inv_remove:
  assumes inv: "wd_inv st (pre @ w # post) fs"
    and q: "sq_list (wd_next st', wd_activelist st') (pre @ post)"
    and fr: "\<And>v. v \<notin> set (pre @ w # post) \<Longrightarrow> wd_next st' v = wd_next st v"
    and lag: "\<And>v. v \<in> set (pre @ post) \<Longrightarrow> wd_lag st' v = inherit w (hd_opt post) (wd_lag st) v"
    and act: "\<And>v. WDOG_ISACTIVE v st' \<longleftrightarrow> v \<noteq> w \<and> WDOG_ISACTIVE v st"
    and rest: "wd_freelist st' = wd_freelist st" "wd_nfree st' = wd_nfree st"
  shows "wd_inv st' (pre @ post) fs \<and>
         timers st' (pre @ post) = filter (\<lambda>(v, t). v \<noteq> w) (timers st (pre @ w # post))"
proof -
  note D = wd_invD [OF inv]
  have times: "timers st' (pre @ post) = filter (\<lambda>(v, t). v \<noteq> w) (timers st (pre @ w # post))"
    unfolding timers_def remaining_inherit [OF D(7), symmetric]
    by (rule remaining_cong) (rule lag)
  have free: "sq_list (wd_next st', wd_freelist st') fs"
    unfolding rest by (rule sq_list_frame [OF D(2)]) (use D(3) fr in blast)
  have nonneg: "0 \<le> wd_lag st' v" if "v \<in> set (pre @ post)" for v
    using that D(4) by (cases post) (auto simp: lag inherit_def)
  have bound: "t < 2 ^ 31" if "(v, t) \<in> set (timers st' (pre @ post))" for v t
    using that D(5) [of v t] unfolding times by (auto simp: timers_def)
  have active: "WDOG_ISACTIVE v st' \<longleftrightarrow> v \<in> set (pre @ post)" for v
    using D(6) [of v] D(7) by (auto simp: act)
  show ?thesis
    using q free nonneg bound active D(3,10,11) rest times
    unfolding wd_inv_def active_q_def free_q_def by auto
qed

lemma wd_cancel_spec:
  assumes inv: "wd_inv st ws fs" and w: "w \<in> set ws"
  shows "\<exists>st' ws'. wd_cancel (Some w) st = Some (0, st') \<and> wd_inv st' ws' fs \<and>
           timers st' ws' = filter (\<lambda>(v, t). v \<noteq> w) (timers st ws) \<and>
           wd_func st' = wd_func st \<and> wd_argc st' = wd_argc st \<and> wd_parm st' = wd_parm st"
proof -
  from w obtain pre post where ws: "ws = pre @ w # post" by (auto simp: in_set_conv_decomp)
  note D = wd_invD [OF inv, unfolded ws]
  have act: "WDOG_ISACTIVE w st" using D(6) by simp
  have wpre: "w \<notin> set pre" using D(7) by auto
  have find: "wd_find (wd_next st) w (sq_head (wd_activelist st)) None =
      Some (if pre = [] then None else Some (last pre), Some w)"
    using wd_path [OF inv] wpre unfolding ws by (rule wd_find_spec)
  have nxt: "wd_next st w = hd_opt post" using wd_path [OF inv] unfolding ws by (rule path_next)
  define st1 where "st1 = (case wd_next st w of None \<Rightarrow> st
      | Some n \<Rightarrow> set_lag n (wd_lag st n + wd_lag st w) st)"
  have nx1: "wd_next st1 = wd_next st" "wd_activelist st1 = wd_activelist st"
      "wd_freelist st1 = wd_freelist st" "wd_nfree st1 = wd_nfree st"
      "WDOG_ISACTIVE v st1 = WDOG_ISACTIVE v st" "wd_func st1 = wd_func st"
      "wd_argc st1 = wd_argc st" "wd_parm st1 = wd_parm st" for v
    by (simp_all add: st1_def split: option.splits)
  have lag1: "wd_lag st1 = inherit w (hd_opt post) (wd_lag st)"
  proof (cases post)
    case Nil
    then show ?thesis by (simp add: st1_def nxt inherit_def)
  next
    case (Cons n post')
    have t: "(n, sum_list (map (wd_lag st) pre) + wd_lag st w + wd_lag st n)
        \<in> set (remaining (wd_lag st) 0 (pre @ w # n # post'))" by simp
    have "0 \<le> sum_list (map (wd_lag st) pre)" "0 \<le> wd_lag st w" "0 \<le> wd_lag st n"
      using D(4) Cons by (auto intro: sum_list_nonneg_lag)
    then have "int32 (wd_lag st n + wd_lag st w) = wd_lag st n + wd_lag st w"
      using D(5) [unfolded Cons, OF t] by (intro int32_id) auto
    then show ?thesis by (simp add: st1_def nxt inherit_def Cons)
  qed
  define q where "q = (if pre = [] then snd (sq_remfirst (active_q st1))
      else snd (sq_remafter (last pre) (active_q st1)))"
  have q: "sq_list q (pre @ post) \<and> (\<forall>v. v \<notin> set ws \<longrightarrow> fst q v = wd_next st v)"
  proof (cases pre rule: rev_cases)
    case Nil
    then show ?thesis
      using sq_remfirst_Cons [of "active_q st1" w post] sq_remfirst_frame [of "active_q st1" "w # post"]
        D(1) by (auto simp: q_def active_q_def nx1 ws)
  next
    case (snoc us p)
    then show ?thesis
      using sq_remafter_list [of "active_q st1" us p w post]
        sq_remafter_frame [of "active_q st1" us p w post] D(1)
      by (auto simp: q_def active_q_def nx1 ws)
  qed
  define st' where "st' = WDOG_CLRACTIVE w ((set_active_q q st1)\<lparr>wd_next := (fst q)(w := None)\<rparr>)"
  have run: "wd_cancel (Some w) st = Some (0, st')"
    by (simp add: wd_cancel_def act find st1_def [symmetric] st'_def q_def)
  have "sq_list ((fst q)(w := None), snd q) (pre @ post)"
    by (rule sq_list_frame [of "fst q"]) (use q D(7) in auto)
  then have "wd_inv st' (pre @ post) fs \<and>
      timers st' (pre @ post) = filter (\<lambda>(v, t). v \<noteq> w) (timers st (pre @ w # post))"
    using q by (intro wd_inv_remove [OF inv [unfolded ws]]) (auto simp: st'_def lag1 nx1 ws)
  then show ?thesis using run by (auto simp: ws st'_def nx1)
qed

lemma wd_cancel_inactive:
  assumes "wd_inv st ws fs" "w \<notin> set ws"
  shows "wd_cancel (Some w) st = Some (- EINVAL, st)"
  using wd_invD(6) [OF assms(1)] assms(2) by (simp add: wd_cancel_def)

lemma filter_timers_notin: "w \<notin> set ws \<Longrightarrow> filter (\<lambda>(v, t). v \<noteq> w) (timers st ws) = timers st ws"
  unfolding timers_def by (rule remaining_filter_notin)

lemma fst_timers [simp]: "map fst (timers st ws) = ws"
  by (simp add: timers_def)

lemma set_timers: "set ws = fst ` set (timers st ws)"
  by (metis fst_timers set_map)

lemma timers_unique:
  assumes "distinct ws" "(w, t) \<in> set (timers st ws)" "(w, t') \<in> set (timers st ws)"
  shows "t = t'"
  using assms by (metis eq_key_imp_eq_value fst_timers)

section \<open>Remaining time of a watchdog\<close>

lemma wd_sumlag_spec:
  assumes "path nx x ws None" "\<forall>v \<in> set ws. 0 \<le> lag v" "0 \<le> acc"
    and "\<forall>(v, t) \<in> set (remaining lag acc ws). t < 2 ^ 31" "(w, t) \<in> set (remaining lag acc ws)"
    and "distinct ws"
  shows "wd_sumlag nx lag w x acc = Some t"
  using assms
proof (induction ws arbitrary: x acc)
  case (Cons a ws)
  have id: "int32 (acc + lag a) = acc + lag a" using Cons.prems by (intro int32_id) auto
  show ?case
  proof (cases "w = a")
    case True
    then have "t = acc + lag a" using Cons.prems(5,6) remaining_wdog by fastforce
    then show ?thesis using Cons.prems(1) True id by (subst wd_sumlag.simps) (simp add: Let_def)
  next
    case False
    then have "wd_sumlag nx lag w (nx a) (acc + lag a) = Some t"
      using Cons.prems by (intro Cons.IH) auto
    then show ?thesis using Cons.prems(1) False id by (subst wd_sumlag.simps) (simp add: Let_def)
  qed
qed simp

lemma wd_gettime_spec:
  assumes inv: "wd_inv st ws fs"
  shows "(w, t) \<in> set (timers st ws) \<Longrightarrow> wd_gettime (Some w) st = Some t"
    and "w \<notin> set ws \<Longrightarrow> wd_gettime (Some w) st = Some 0"
proof -
  note D = wd_invD [OF inv]
  assume t: "(w, t) \<in> set (timers st ws)"
  have "wd_sumlag (wd_next st) (wd_lag st) w (sq_head (wd_activelist st)) 0 = Some t"
    by (rule wd_sumlag_spec [OF wd_path [OF inv]]) (use D t in \<open>auto simp: timers_def\<close>)
  moreover have "w \<in> set ws" using t remaining_wdog by (auto simp: timers_def)
  ultimately show "wd_gettime (Some w) st = Some t" using D(6) by (simp add: wd_gettime_def)
qed (use wd_invD(6) [OF inv] in \<open>simp add: wd_gettime_def\<close>)

section \<open>Starting\<close>

text \<open>
  The result of the search: the list is split at \<open>curr\<close>, whose expiry is \<open>now\<close>; all watchdogs
  before it expire no later than the new one, and either \<open>curr\<close> expires later or it is the
  last.
\<close>

lemma wd_pass_spec:
  assumes "path nx (nx c) post None" "\<forall>v \<in> set (c # post). 0 \<le> lag v" "0 \<le> acc" "acc \<le> d"
    and "\<forall>(v, t) \<in> set (remaining lag acc (c # post)). t < 2 ^ 31"
  shows "\<exists>now prev c' ys zs. wd_pass nx lag d (acc + lag c) p c = Some (now, prev, c') \<and>
           c # post = ys @ c' # zs \<and> now = acc + sum_list (map lag ys) + lag c' \<and>
           prev = (if ys = [] then p else last ys) \<and> (\<forall>(v, t) \<in> set (remaining lag acc ys). t \<le> d) \<and>
           acc + sum_list (map lag ys) \<le> d \<and> (now \<le> d \<longrightarrow> zs = [])"
  using assms
proof (induction post arbitrary: c acc p)
  case Nil
  then show ?case
    by (subst wd_pass.simps) (auto intro!: exI [of _ "[]"])
next
  case (Cons n post)
  have nx: "nx c = Some n" "path nx (nx n) post None" using Cons.prems(1) by auto
  show ?case
  proof (cases "acc + lag c \<le> d")
    case False
    then have "wd_pass nx lag d (acc + lag c) p c = Some (acc + lag c, p, c)"
      using nx by (subst wd_pass.simps) simp
    then show ?thesis using False Cons.prems(4) by (auto intro!: exI [of _ "[]"])
  next
    case True
    have id: "int32 (acc + lag c + lag n) = acc + lag c + lag n"
      using Cons.prems by (intro int32_id) auto
    obtain now prev c' ys zs where r: "wd_pass nx lag d (acc + lag c + lag n) c n = Some (now, prev, c')"
        "n # post = ys @ c' # zs" "now = acc + lag c + sum_list (map lag ys) + lag c'"
        "prev = (if ys = [] then c else last ys)" "\<forall>(v, t) \<in> set (remaining lag (acc + lag c) ys). t \<le> d"
        "acc + lag c + sum_list (map lag ys) \<le> d" "now \<le> d \<longrightarrow> zs = []"
      using Cons.IH [of n "acc + lag c" c] nx Cons.prems True by auto
    have "wd_pass nx lag d (acc + lag c) p c = Some (now, prev, c')"
      using nx True r(1) id by (subst wd_pass.simps) simp
    then show ?thesis
      using r(2-7) True
      by (intro exI [of _ now] exI [of _ prev] exI [of _ c'] exI [of _ "c # ys"] exI [of _ zs])
         (auto simp: algebra_simps)
  qed
qed

lemma wd_inv_insert:
  assumes inv: "wd_inv st (ys @ zs) fs" and w: "w \<notin> set fs" and d: "d < 2 ^ 31"
    and q: "sq_list (wd_next st', wd_activelist st') (ys @ w # zs)"
    and fr: "\<And>v. v \<notin> set (ys @ w # zs) \<Longrightarrow> wd_next st' v = wd_next st v"
    and lag: "\<And>v. v \<in> set (ys @ w # zs) \<Longrightarrow> 0 \<le> wd_lag st' v"
    and times: "timers st' (ys @ w # zs) = insert_time w d (timers st (ys @ zs))"
    and act: "\<And>v. WDOG_ISACTIVE v st' \<longleftrightarrow> v = w \<or> WDOG_ISACTIVE v st"
    and rest: "wd_freelist st' = wd_freelist st" "wd_nfree st' = wd_nfree st"
  shows "wd_inv st' (ys @ w # zs) fs"
proof -
  note D = wd_invD [OF inv]
  have free: "sq_list (wd_next st', wd_freelist st') fs"
    unfolding rest by (rule sq_list_frame [OF D(2)]) (rule fr, use D(3) w in auto)
  have bound: "t < 2 ^ 31" if "(v, t) \<in> set (timers st' (ys @ w # zs))" for v t
    using that D(5) [of v t] d unfolding times by (auto simp: timers_def)
  show ?thesis
    using q free lag bound D(3,6,10,11) w act rest
    unfolding wd_inv_def active_q_def free_q_def by auto
qed

lemma wd_insert_empty:
  assumes "wd_inv st [] fs" "w \<notin> set fs" "0 \<le> d" "d < 2 ^ 31"
  shows "\<exists>st'. wd_insert w d st = Some st' \<and> wd_inv st' [w] fs \<and> timers st' [w] = [(w, d)] \<and>
           wd_func st' = wd_func st \<and> wd_argc st' = wd_argc st \<and> wd_parm st' = wd_parm st"
proof -
  note D = wd_invD [OF assms(1)]
  obtain q where q: "sq_addlast w (active_q st) = Some q" "sq_list q [w]"
    using sq_addlast_list [of "active_q st" "[]" w] D(1) by (auto simp: active_q_def)
  define st' where "st' = WDOG_SETACTIVE w (set_lag w d (set_active_q q st))"
  have "wd_inv st' ([] @ w # []) fs"
    using assms q int32_id [of d] sq_addlast_frame [of "active_q st" "[]" w q] D(1)
    by (intro wd_inv_insert [of st "[]" "[]" fs w d]) (auto simp: st'_def timers_def active_q_def)
  then show ?thesis
    using q D(9) int32_id [of d] assms by (auto simp: wd_insert_def st'_def timers_def)
qed

lemma wd_insert_before:
  assumes inv: "wd_inv st (ys @ c # zs) fs" and w: "w \<notin> set fs" "w \<notin> set (ys @ c # zs)"
    and d: "d < 2 ^ 31" "\<forall>(v, t) \<in> set (remaining (wd_lag st) 0 ys). t \<le> d"
      "sum_list (map (wd_lag st) ys) \<le> d" "d < sum_list (map (wd_lag st) ys) + wd_lag st c"
    and l: "l = d - sum_list (map (wd_lag st) ys)"
    and q: "sq_list q (ys @ w # c # zs)"
    and fr: "\<And>v. v \<notin> set (ys @ w # c # zs) \<Longrightarrow> fst q v = wd_next st v"
    and st': "st' = WDOG_SETACTIVE w (set_lag w l (set_active_q q (set_lag c (wd_lag st c - l) st)))"
  shows "wd_inv st' (ys @ w # c # zs) fs \<and>
         timers st' (ys @ w # c # zs) = insert_time w d (timers st (ys @ c # zs))"
proof -
  note D = wd_invD [OF inv]
  have nn: "0 \<le> sum_list (map (wd_lag st) ys)" using D(4) by (auto intro: sum_list_nonneg_lag)
  have "(c, sum_list (map (wd_lag st) ys) + wd_lag st c) \<in> set (remaining (wd_lag st) 0 (ys @ c # zs))"
    by simp
  from D(5) [OF this] have b: "sum_list (map (wd_lag st) ys) + wd_lag st c < 2 ^ 31" .
  have id: "int32 l = l" "int32 (wd_lag st c - l) = wd_lag st c - l"
    using nn b d l by (auto intro!: int32_id)
  have dist: "c \<noteq> w" "c \<notin> set ys" "c \<notin> set zs" "w \<notin> set ys" "w \<notin> set zs" using D(7) w by auto
  have lag: "wd_lag st' = (wd_lag st)(c := wd_lag st c - l, w := l)"
    by (simp add: st' id)
  have "sum_list (map ((wd_lag st)(c := a, w := b)) ys) = sum_list (map (wd_lag st) ys)" for a b
    using dist by (intro arg_cong [where f = sum_list]) auto
  then have times: "timers st' (ys @ w # c # zs) = remaining (wd_lag st) 0 ys @ (w, d) #
      (c, sum_list (map (wd_lag st) ys) + wd_lag st c) #
      remaining (wd_lag st) (sum_list (map (wd_lag st) ys) + wd_lag st c) zs"
    using dist by (simp add: timers_def lag l add.commute)
  also have "\<dots> = insert_time w d (timers st (ys @ c # zs))"
    using insert_time_split [OF d(2), of "(c, sum_list (map (wd_lag st) ys) + wd_lag st c) #
      remaining (wd_lag st) (sum_list (map (wd_lag st) ys) + wd_lag st c) zs" w] d(4)
    by (simp add: timers_def)
  finally have times: "timers st' (ys @ w # c # zs) = insert_time w d (timers st (ys @ c # zs))" .
  have "0 \<le> wd_lag st' v" if "v \<in> set (ys @ w # c # zs)" for v
    using that D(4) [of v] d l by (auto simp: lag)
  then have "wd_inv st' (ys @ w # c # zs) fs"
    using times q fr d w by (intro wd_inv_insert [OF inv]) (simp_all add: st')
  with times show ?thesis by blast
qed

lemma wd_insert_last:
  assumes inv: "wd_inv st ws fs" and w: "w \<notin> set fs" "w \<notin> set ws"
    and d: "d < 2 ^ 31" "\<forall>(v, t) \<in> set (timers st ws). t \<le> d" "sum_list (map (wd_lag st) ws) \<le> d"
    and q: "sq_addlast w (active_q st) = Some q"
    and st': "st' = WDOG_SETACTIVE w (set_lag w (d - sum_list (map (wd_lag st) ws)) (set_active_q q st))"
  shows "wd_inv st' (ws @ [w]) fs \<and> timers st' (ws @ [w]) = insert_time w d (timers st ws)"
proof -
  note D = wd_invD [OF inv]
  have act: "sq_list (active_q st) ws" using D(1) by (simp add: active_q_def)
  have nn: "0 \<le> sum_list (map (wd_lag st) ws)" using D(4) by (auto intro: sum_list_nonneg_lag)
  then have id: "int32 (d - sum_list (map (wd_lag st) ws)) = d - sum_list (map (wd_lag st) ws)"
    using d by (intro int32_id) auto
  have q': "sq_list q (ws @ [w])" using sq_addlast_list [OF act w(2)] q by simp
  have fr: "\<And>v. v \<notin> set (ws @ [w]) \<Longrightarrow> fst q v = wd_next st v"
    using sq_addlast_frame [OF act q] by (simp add: active_q_def)
  have sum: "sum_list (map ((wd_lag st)(w := a)) ws) = sum_list (map (wd_lag st) ws)" for a
    using w(2) by (intro arg_cong [where f = sum_list]) auto
  have times: "timers st' (ws @ [w]) = insert_time w d (timers st ws)"
    using insert_time_split [OF d(2), of "[]" w] w(2) by (simp add: timers_def st' id sum)
  have "0 \<le> wd_lag st' v" if "v \<in> set (ws @ [w])" for v
    using that D(4) [of v] d by (auto simp: st' id)
  then have "wd_inv st' (ws @ w # []) fs"
    using times q' fr d w inv by (intro wd_inv_insert [of st ws "[]" fs w d]) (simp_all add: st')
  with times show ?thesis by blast
qed

text \<open>The search from the head of the list: the first loop stops at once, since lags are not negative.\<close>

lemma wd_search_spec:
  assumes inv: "wd_inv st (h # post) fs" and d: "0 \<le> d"
  shows "\<exists>prev c ys zs. wd_advance (wd_next st) (wd_lag st) 0 h h = Some (wd_lag st h, h, h) \<and>
           wd_pass (wd_next st) (wd_lag st) d (wd_lag st h) h h =
             Some (sum_list (map (wd_lag st) ys) + wd_lag st c, prev, c) \<and>
           h # post = ys @ c # zs \<and> (ys \<noteq> [] \<longrightarrow> prev = last ys) \<and>
           (\<forall>(v, t) \<in> set (remaining (wd_lag st) 0 ys). t \<le> d) \<and>
           0 \<le> sum_list (map (wd_lag st) ys) \<and> sum_list (map (wd_lag st) ys) \<le> d \<and> 0 \<le> wd_lag st c \<and>
           sum_list (map (wd_lag st) ys) + wd_lag st c < 2 ^ 31 \<and>
           (sum_list (map (wd_lag st) ys) + wd_lag st c \<le> d \<longrightarrow> zs = [])"
proof -
  note D = wd_invD [OF inv]
  have p: "path (wd_next st) (wd_next st h) post None" using wd_path [OF inv] by simp
  have lagh: "0 \<le> wd_lag st h" "int32 (wd_lag st h) = wd_lag st h"
    using D(4) wd_lag_bound [OF inv] by (auto intro: int32_id)
  have adv: "wd_advance (wd_next st) (wd_lag st) 0 h h = Some (wd_lag st h, h, h)"
    using lagh by (subst wd_advance.simps) (auto simp: Let_def split: option.split)
  have pre: "\<forall>v \<in> set (h # post). 0 \<le> wd_lag st v" "(0::int) \<le> 0" using D(4) by auto
  have bnd: "\<forall>(v, t) \<in> set (remaining (wd_lag st) 0 (h # post)). t < 2 ^ 31" using D(5) by blast
  obtain prev c ys zs where pass: "wd_pass (wd_next st) (wd_lag st) d (wd_lag st h) h h =
        Some (sum_list (map (wd_lag st) ys) + wd_lag st c, prev, c)"
    and s: "h # post = ys @ c # zs" and prev: "prev = (if ys = [] then h else last ys)"
    and le: "\<forall>(v, t) \<in> set (remaining (wd_lag st) 0 ys). t \<le> d" "sum_list (map (wd_lag st) ys) \<le> d"
    and zs: "sum_list (map (wd_lag st) ys) + wd_lag st c \<le> d \<longrightarrow> zs = []"
    using wd_pass_spec [OF p, of "wd_lag st" 0 d h, OF pre d bnd] by auto
  have "0 \<le> sum_list (map (wd_lag st) ys)" "0 \<le> wd_lag st c"
    using D(4) unfolding s by (auto intro: sum_list_nonneg_lag)
  moreover have "(c, sum_list (map (wd_lag st) ys) + wd_lag st c) \<in> set (remaining (wd_lag st) 0 (ys @ c # zs))"
    by simp
  from D(5) [unfolded s, OF this] have "sum_list (map (wd_lag st) ys) + wd_lag st c < 2 ^ 31" .
  ultimately show ?thesis using adv pass s prev le zs by (intro exI conjI) auto
qed

text \<open>Linking the watchdog in before \<open>curr\<close>.\<close>

lemma wd_link_before:
  assumes act: "sq_list q (ys @ c # zs)" and w: "w \<notin> set (ys @ c # zs)"
    and h: "c = h \<longleftrightarrow> ys = []" and prev: "ys \<noteq> [] \<longrightarrow> prev = last ys"
  shows "\<exists>q'. (if c = h then Some (sq_addfirst w q) else sq_addafter prev w q) = Some q' \<and>
           sq_list q' (ys @ w # c # zs) \<and> (\<forall>v. v \<notin> set (ys @ w # c # zs) \<longrightarrow> fst q' v = fst q v)"
proof (cases ys rule: rev_cases)
  case Nil
  then show ?thesis
    using h sq_addfirst_list [OF act w] sq_addfirst_frame [of _ w q] by simp
next
  case (snoc us p)
  obtain q' where "sq_addafter p w q = Some q'" "sq_list q' (us @ p # w # c # zs)"
    using sq_addafter_list [of q us p "c # zs" w] act w by (auto simp: snoc)
  then show ?thesis
    using h prev sq_addafter_frame [OF act, of p w q'] by (simp add: snoc)
qed

lemma wd_insert_spec:
  assumes inv: "wd_inv st ws fs" and w: "w \<notin> set fs" "w \<notin> set ws" and d: "0 \<le> d" "d < 2 ^ 31"
  shows "\<exists>st' ws'. wd_insert w d st = Some st' \<and> wd_inv st' ws' fs \<and>
           timers st' ws' = insert_time w d (timers st ws) \<and>
           wd_func st' = wd_func st \<and> wd_argc st' = wd_argc st \<and> wd_parm st' = wd_parm st"
proof (cases ws)
  case Nil
  then show ?thesis using wd_insert_empty [of st fs w d] assms
    by (metis insert_time.simps(1) remaining.simps(1) timers_def)
next
  case (Cons h post)
  note D = wd_invD [OF inv]
  have act: "sq_list (active_q st) ws" using D(1) by (simp add: active_q_def)
  have head: "sq_head (wd_activelist st) = Some h" using D(9) Cons by simp
  obtain prev c ys zs where S: "wd_advance (wd_next st) (wd_lag st) 0 h h = Some (wd_lag st h, h, h)"
      "wd_pass (wd_next st) (wd_lag st) d (wd_lag st h) h h =
         Some (sum_list (map (wd_lag st) ys) + wd_lag st c, prev, c)"
      "h # post = ys @ c # zs" "ys \<noteq> [] \<longrightarrow> prev = last ys"
      "\<forall>(v, t) \<in> set (remaining (wd_lag st) 0 ys). t \<le> d" "0 \<le> sum_list (map (wd_lag st) ys)"
      "sum_list (map (wd_lag st) ys) \<le> d" "0 \<le> wd_lag st c"
      "sum_list (map (wd_lag st) ys) + wd_lag st c < 2 ^ 31"
      "sum_list (map (wd_lag st) ys) + wd_lag st c \<le> d \<longrightarrow> zs = []"
    using wd_search_spec [OF inv [unfolded Cons] d(1)] by blast
  define now where "now = sum_list (map (wd_lag st) ys) + wd_lag st c"
  have ws: "ws = ys @ c # zs" using S(3) Cons by simp
  show ?thesis
  proof (cases "d < now")
    case True
    define l where "l = d - sum_list (map (wd_lag st) ys)"
    have id: "int32 (d - int32 (now - wd_lag st c)) = l"
      using S(6,7,8,9) d(2) by (simp add: now_def l_def int32_id)
    define st1 where "st1 = set_lag c (wd_lag st c - l) st"
    have a1: "active_q st1 = active_q st" by (simp add: st1_def active_q_def)
    have hc: "c = h \<longleftrightarrow> ys = []" using S(3) D(7) Cons by (cases ys) auto
    obtain q where q: "(if c = h then Some (sq_addfirst w (active_q st1))
        else sq_addafter prev w (active_q st1)) = Some q" "sq_list q (ys @ w # c # zs)"
        "\<forall>v. v \<notin> set (ys @ w # c # zs) \<longrightarrow> fst q v = wd_next st v"
      using wd_link_before [OF act [unfolded ws] w(2) [unfolded ws] hc S(4)] unfolding a1
      by (auto simp: active_q_def)
    define st' where "st' = WDOG_SETACTIVE w (set_lag w l (set_active_q q st1))"
    have "wd_insert w d st = Some st'"
      using True by (simp add: wd_insert_def head S(1,2) now_def [symmetric] id st1_def [symmetric]
          q(1) [unfolded st1_def id [symmetric]] st'_def Let_def split del: if_split)
    moreover have "wd_inv st' (ys @ w # c # zs) fs \<and>
        timers st' (ys @ w # c # zs) = insert_time w d (timers st (ys @ c # zs))"
      using inv w d(2) S(5,7) True q(2,3) unfolding ws
      by (intro wd_insert_before [of st ys c zs fs w d l q]) (simp_all add: now_def l_def st'_def st1_def)
    ultimately show ?thesis by (auto simp: ws st'_def st1_def)
  next
    case False
    then have z: "zs = []" "wd_next st c = None"
      using S(10) path_next [OF wd_path [OF inv, unfolded ws]] by (auto simp: now_def)
    obtain q where q: "sq_addlast w (active_q st) = Some q"
      using sq_addlast_list [OF act w(2)] by auto
    have sum: "sum_list (map (wd_lag st) ws) = now" by (simp add: ws z now_def)
    have id: "int32 (d - now) = d - now" using False d S(6,8) by (intro int32_id) (auto simp: now_def)
    define st' where "st' = WDOG_SETACTIVE w (set_lag w (d - now) (set_active_q q st))"
    have "wd_insert w d st = Some st'"
      using False q by (simp add: wd_insert_def head S(1,2) now_def [symmetric] id z st'_def Let_def)
    moreover have "wd_inv st' (ws @ [w]) fs \<and> timers st' (ws @ [w]) = insert_time w d (timers st ws)"
      using False S(5) d(2) w inv q
      by (intro wd_insert_last [where q = q]) (auto simp: sum st'_def timers_def ws z now_def)
    ultimately show ?thesis by (auto simp: st'_def)
  qed
qed

lemma wd_delay_eq: "0 \<le> d \<Longrightarrow> d < 2 ^ 31 \<Longrightarrow> wd_delay d = min (d + 1) (2 ^ 31 - 1)"
proof (cases "d = 2 ^ 31 - 1")
  case True
  then show ?thesis by (simp add: wd_delay_def sint_cast_def)
next
  case False
  assume "0 \<le> d" "d < 2 ^ 31"
  with False show ?thesis by (auto simp: wd_delay_def int32_id)
qed

lemma wd_setparms_spec:
  assumes "argc - int i \<le> int (length args)"
  shows "\<exists>parm'. wd_setparms i argc args parm = Some parm' \<and>
           (\<forall>k. parm' k = (if i \<le> k \<and> int k < argc then uint32 (args ! (k - i)) else parm k))"
  using assms
proof (induction args arbitrary: i parm)
  case Nil
  then show ?case by (subst wd_setparms.simps) auto
next
  case (Cons a as)
  show ?case
  proof (cases "int i < argc")
    case True
    have "argc - int (Suc i) \<le> int (length as)" using Cons.prems by simp
    from Cons.IH [OF this, of "parm(i := uint32 a)"] obtain parm' where
      p: "wd_setparms (Suc i) argc as (parm(i := uint32 a)) = Some parm'"
      "\<And>k. parm' k = (if Suc i \<le> k \<and> int k < argc then uint32 (as ! (k - Suc i))
         else (parm(i := uint32 a)) k)" by blast
    have "parm' k = (if i \<le> k \<and> int k < argc then uint32 ((a # as) ! (k - i)) else parm k)" for k
      using True by (cases "k = i") (auto simp: p(2) nth_Cons')
    then show ?thesis using True p(1) by (subst wd_setparms.simps) auto
  qed (subst wd_setparms.simps, auto)
qed

text \<open>A watchdog with its function and the arguments it will get.\<close>

definition armed :: "'f wdogs \<Rightarrow> wdog \<Rightarrow> 'f \<times> int \<times> (nat \<Rightarrow> int)" where
  "armed st w = (wd_func st w, wd_argc st w, wd_parm st w)"

lemma wd_start_spec:
  assumes inv: "wd_inv st ws fs" and w: "w \<notin> set fs"
    and ok: "argc \<le> MAX_WDOGPARMS" "0 \<le> delay" "delay < 2 ^ 31" "argc \<le> int (length args)"
  shows "\<exists>st' ws'. wd_start (Some w) delay f argc args st = Some (0, st') \<and> wd_inv st' ws' fs \<and>
           timers st' ws' = insert_time w (min (delay + 1) (2 ^ 31 - 1))
             (filter (\<lambda>(v, t). v \<noteq> w) (timers st ws)) \<and>
           (\<forall>v. v \<noteq> w \<longrightarrow> armed st' v = armed st v) \<and>
           wd_func st' w = f \<and> wd_argc st' w = uint8 argc \<and>
           (\<forall>k. int k < argc \<longrightarrow> wd_parm st' w k = uint32 (args ! k))"
proof -
  note D = wd_invD [OF inv]
  obtain st1 ws1 where st1: "(if WDOG_ISACTIVE w st then map_option snd (wd_cancel (Some w) st) else Some st)
      = Some st1" "wd_inv st1 ws1 fs" "timers st1 ws1 = filter (\<lambda>(v, t). v \<noteq> w) (timers st ws)"
      "wd_func st1 = wd_func st" "wd_argc st1 = wd_argc st" "wd_parm st1 = wd_parm st"
  proof (cases "w \<in> set ws")
    case True
    then show ?thesis using wd_cancel_spec [OF inv True] D(6) that by auto
  next
    case False
    then show ?thesis using filter_timers_notin [OF False, of st] D(6) inv that [of st ws] by simp
  qed
  have w1: "w \<notin> set ws1" by (auto simp: set_timers [of ws1 st1] st1(3))
  define st2 where "st2 = st1\<lparr>wd_func := (wd_func st1)(w := f), wd_argc := (wd_argc st1)(w := uint8 argc)\<rparr>"
  obtain parm where parm: "wd_setparms 0 argc args (wd_parm st2 w) = Some parm"
      "\<And>k. parm k = (if int k < argc then uint32 (args ! k) else wd_parm st2 w k)"
    using wd_setparms_spec [of argc 0 args "wd_parm st2 w"] ok(4) by auto
  have p2: "wd_parm st2 = wd_parm st1" by (simp add: st2_def)
  define st3 where "st3 = st2\<lparr>wd_parm := (wd_parm st2)(w := parm)\<rparr>"
  have st3: "wd_inv st3 ws1 fs" "timers st3 ws1 = timers st1 ws1"
    using st1(2) by (simp_all add: st3_def st2_def wd_inv_def timers_def active_q_def free_q_def)
  have d: "0 \<le> wd_delay delay" "wd_delay delay < 2 ^ 31" using wd_delay_eq [OF ok(2,3)] ok(2) by auto
  obtain st' ws' where ins: "wd_insert w (wd_delay delay) st3 = Some st'" "wd_inv st' ws' fs"
      "timers st' ws' = insert_time w (min (delay + 1) (2 ^ 31 - 1)) (timers st3 ws1)"
      "wd_func st' = wd_func st3" "wd_argc st' = wd_argc st3" "wd_parm st' = wd_parm st3"
    using wd_insert_spec [OF st3(1) w w1 d] wd_delay_eq [OF ok(2,3)] by auto
  have "wd_start (Some w) delay f argc args st = Some (0, st')"
    using ok(1,2) st1(1) parm(1) [unfolded p2] ins(1) [unfolded st3_def p2]
    by (simp add: wd_start_def st2_def [symmetric] Let_def split del: if_split)
  then show ?thesis
    using ins(2) ins(3) [unfolded st3(2) st1(3)] ins(4-6) st1(4-6)
    by (auto simp: armed_def st3_def st2_def parm(2))
qed

lemma wd_start_rejects:
  "argc > MAX_WDOGPARMS \<or> delay < 0 \<Longrightarrow> wd_start (Some w) delay f argc args st = Some (- EINVAL, st)"
  by (simp add: wd_start_def)

end
