(* ===== verification/Wdog_Timer.thy ===== *)
theory Wdog_Timer
  imports Wdog_Correct
begin

text \<open>
  The timer tick: \<open>wd_timer\<close> with watchdog functions that may start and cancel watchdogs
  themselves.  The expiry loop ends, because a watchdog started by such a function expires at
  the earliest at the next tick.  A watchdog that no function touches is called exactly when its
  remaining time has run out, once, with the function and the arguments it was started with.
\<close>

section \<open>Requests of watchdog functions\<close>

fun req_wdog :: "'f wd_req \<Rightarrow> wdog" where
  "req_wdog (WdStart w delay f argc args) = w"
| "req_wdog (WdCancel w) = w"

text \<open>A request is admissible when the watchdog is not on the free list and the values have their C types.\<close>

fun req_ok :: "wdog list \<Rightarrow> 'f wd_req \<Rightarrow> bool" where
  "req_ok fs (WdStart w delay f argc args) \<longleftrightarrow> w \<notin> set fs \<and> delay < 2 ^ 31 \<and> argc \<le> int (length args)"
| "req_ok fs (WdCancel w) \<longleftrightarrow> True"

definition code_ok :: "wdog list \<Rightarrow> 'f wd_code \<Rightarrow> bool" where
  "code_ok fs code \<longleftrightarrow> (\<forall>f argc parms st. list_all (req_ok fs) (code f argc parms st))"

definition due :: "(wdog \<times> int) list \<Rightarrow> nat" where
  "due ts = length (filter (\<lambda>(v, t). t \<le> 0) ts)"

lemma due_insert_time: "0 < d \<Longrightarrow> due (insert_time w d ts) = due ts"
  by (induction w d ts rule: insert_time.induct) (auto simp: due_def)

lemma due_filter: "due (filter P ts) \<le> due ts"
  by (induction ts) (auto simp: due_def)

text \<open>What a request leaves alone: every other watchdog keeps its time, function and arguments.\<close>

definition keeps :: "'f wdogs \<Rightarrow> wdog list \<Rightarrow> 'f wdogs \<Rightarrow> wdog list \<Rightarrow> wdog \<Rightarrow> bool" where
  "keeps st ws st' ws' v \<longleftrightarrow>
     (\<forall>t. (v, t) \<in> set (timers st' ws') \<longleftrightarrow> (v, t) \<in> set (timers st ws)) \<and> armed st' v = armed st v"

lemma keeps_refl [simp]: "keeps st ws st ws v"
  by (simp add: keeps_def)

lemma keeps_trans: "keeps st ws st' ws' v \<Longrightarrow> keeps st' ws' st'' ws'' v \<Longrightarrow> keeps st ws st'' ws'' v"
  by (simp add: keeps_def)

lemma wd_request_spec:
  assumes inv: "wd_inv st ws fs" and ok: "req_ok fs r"
  shows "\<exists>st' ws'. wd_request r st = Some st' \<and> wd_inv st' ws' fs \<and>
           due (timers st' ws') \<le> due (timers st ws) \<and> (\<forall>v. v \<noteq> req_wdog r \<longrightarrow> keeps st ws st' ws' v)"
proof (cases r)
  case (WdStart w delay f argc args)
  show ?thesis
  proof (cases "argc > MAX_WDOGPARMS \<or> delay < 0")
    case True
    then show ?thesis using inv WdStart by (auto simp: wd_start_rejects)
  next
    case False
    then obtain st' ws' where s: "wd_start (Some w) delay f argc args st = Some (0, st')"
        "wd_inv st' ws' fs" "timers st' ws' = insert_time w (min (delay + 1) (2 ^ 31 - 1))
           (filter (\<lambda>(v, t). v \<noteq> w) (timers st ws))" "\<forall>v. v \<noteq> w \<longrightarrow> armed st' v = armed st v"
      using wd_start_spec [OF inv, of w argc delay args f] ok WdStart by auto
    then have "due (timers st' ws') \<le> due (timers st ws)"
      using False due_filter by (simp add: due_insert_time)
    with s show ?thesis using WdStart by (auto simp: keeps_def)
  qed
next
  case (WdCancel w)
  show ?thesis
  proof (cases "w \<in> set ws")
    case True
    then show ?thesis using wd_cancel_spec [OF inv True] due_filter WdCancel
      by (fastforce simp: keeps_def armed_def)
  next
    case False
    then show ?thesis using wd_cancel_inactive [OF inv False] inv WdCancel by auto
  qed
qed

lemma wd_requests_spec:
  assumes "wd_inv st ws fs" "list_all (req_ok fs) rs"
  shows "\<exists>st' ws'. wd_requests rs st = Some st' \<and> wd_inv st' ws' fs \<and>
           due (timers st' ws') \<le> due (timers st ws) \<and>
           (\<forall>v. v \<notin> req_wdog ` set rs \<longrightarrow> keeps st ws st' ws' v)"
  using assms
proof (induction rs arbitrary: st ws)
  case Nil
  then show ?case by auto
next
  case (Cons r rs)
  obtain st1 ws1 where 1: "wd_request r st = Some st1" "wd_inv st1 ws1 fs"
      "due (timers st1 ws1) \<le> due (timers st ws)" "\<forall>v. v \<noteq> req_wdog r \<longrightarrow> keeps st ws st1 ws1 v"
    using wd_request_spec [of st ws fs r] Cons.prems by auto
  obtain st' ws' where 2: "wd_requests rs st1 = Some st'" "wd_inv st' ws' fs"
      "due (timers st' ws') \<le> due (timers st1 ws1)"
      "\<forall>v. v \<notin> req_wdog ` set rs \<longrightarrow> keeps st1 ws1 st' ws' v"
    using Cons.IH [OF 1(2)] Cons.prems(2) by auto
  have "keeps st ws st' ws' v" if "v \<notin> req_wdog ` set (r # rs)" for v
    by (rule keeps_trans [of st ws st1 ws1]) (use that 1(4) 2(4) in auto)
  with 1(1,3) 2(1-3) show ?case by (intro exI [of _ st'] exI [of _ ws']) simp
qed

section \<open>Expiry\<close>

text \<open>The head of the list is taken out and its function called.\<close>

lemma wd_expire_head:
  assumes inv: "wd_inv st (w # ws) fs" and due: "wd_lag st w \<le> 0"
    and q: "sq_remfirst (active_q st) = (r, q)"
    and st1: "st1 = set_active_q q st"
    and st2: "st2 = (case sq_head (wd_activelist st1) of None \<Rightarrow> st1
                     | Some n \<Rightarrow> set_lag n (wd_lag st1 n + wd_lag st1 w) st1)"
    and st3: "st3 = WDOG_CLRACTIVE w st2"
  shows "r = Some w \<and> wd_inv st3 ws fs \<and>
         timers st (w # ws) = (w, 0) # timers st3 ws \<and> (\<forall>v. armed st3 v = armed st v)"
proof -
  note D = wd_invD [OF inv]
  have lag0: "wd_lag st w = 0" using due D(4) [of w] by simp
  have act: "sq_list (active_q st) (w # ws)" using D(1) by (simp add: active_q_def)
  from sq_remfirst_Cons [OF act] have r: "r = Some w" and ql: "sq_list q ws" using q by auto
  have fr: "v \<notin> set (w # ws) \<Longrightarrow> fst q v = wd_next st v" for v
    using sq_remfirst_frame [OF act, of v] q by (simp add: active_q_def)
  have hd: "sq_head (wd_activelist st1) = hd_opt ws" using sq_list_head [OF ql] by (simp add: st1)
  have id: "int32 (wd_lag st n) = wd_lag st n" if "n \<in> set ws" for n
    using that D(4) wd_lag_bound [OF inv] by (auto intro: int32_id)
  have lag: "wd_lag st3 = wd_lag st"
    unfolding st3 st2 hd using id by (cases ws) (simp_all add: st1 lag0)
  have nx: "wd_next st3 = fst q" "wd_activelist st3 = snd q" "wd_freelist st3 = wd_freelist st"
      "wd_nfree st3 = wd_nfree st" "\<And>v. WDOG_ISACTIVE v st3 \<longleftrightarrow> v \<noteq> w \<and> WDOG_ISACTIVE v st"
      "\<And>v. armed st3 v = armed st v"
    by (simp_all add: st3 st2 st1 armed_def split: option.split)
  have "wd_inv st3 ([] @ ws) fs \<and> timers st3 ([] @ ws) = filter (\<lambda>(v, t). v \<noteq> w) (timers st ([] @ w # ws))"
  proof (rule wd_inv_remove)
    show "wd_inv st ([] @ w # ws) fs" using inv by simp
    show "sq_list (wd_next st3, wd_activelist st3) ([] @ ws)" using ql by (simp add: nx)
    show "wd_lag st3 v = inherit w (hd_opt ws) (wd_lag st) v" for v
      by (simp add: lag inherit_def lag0 split: option.split)
  qed (use fr nx in auto)
  moreover have "filter (\<lambda>(v, t). v \<noteq> w) (timers st (w # ws)) = remaining (wd_lag st) 0 ws"
    using D(7) remaining_filter_notin [of w ws "wd_lag st" 0] by (simp add: timers_def lag0)
  ultimately show ?thesis using r nx(6) by (simp add: timers_def lag0)
qed

text \<open>The calls a trace makes for one watchdog, and the watchdogs the called functions touch.\<close>

definition calls_of :: "wdog \<Rightarrow> 'f wd_call list \<Rightarrow> 'f wd_call list" where
  "calls_of v tr = filter (\<lambda>c. call_wdog c = v) tr"

definition touched :: "'f wd_call list \<Rightarrow> wdog set" where
  "touched tr = (\<Union>c \<in> set tr. req_wdog ` set (call_reqs c))"

lemma touched_simps [simp]:
  "touched [] = {}" "touched (c # tr) = req_wdog ` set (call_reqs c) \<union> touched tr"
  "touched (tr @ tr') = touched tr \<union> touched tr'"
  by (auto simp: touched_def)

lemma calls_of_simps [simp]:
  "calls_of v [] = []" "calls_of v (c # tr) = (if call_wdog c = v then c # calls_of v tr else calls_of v tr)"
  by (auto simp: calls_of_def)

text \<open>The call made for a watchdog passes on what it was armed with.\<close>

definition calls_armed :: "'f wdogs \<Rightarrow> wdog \<Rightarrow> 'f wd_call \<Rightarrow> bool" where
  "calls_armed st v c \<longleftrightarrow> call_wdog c = v \<and> call_func c = wd_func st v \<and> call_argc c = wd_argc st v \<and>
     call_parms c = (wd_parm st v 0, wd_parm st v 1)"

definition fires :: "'f wdogs \<Rightarrow> wdog \<Rightarrow> 'f wd_call list \<Rightarrow> bool" where
  "fires st v tr \<longleftrightarrow> (\<exists>c. calls_of v tr = [c] \<and> calls_armed st v c)"

lemma fires_cong: "armed st v = armed st' v \<Longrightarrow> fires st v tr = fires st' v tr"
  by (simp add: fires_def calls_armed_def armed_def)

text \<open>
  The loop as a function of the state: it calls the functions of the watchdogs that are due,
  and ends with none due.
\<close>

definition expire_post ::
    "'f wdogs \<Rightarrow> wdog list \<Rightarrow> 'f wd_call list \<Rightarrow> 'f wdogs \<Rightarrow> wdog list \<Rightarrow> bool" where
  "expire_post st ws tr st' ws' \<longleftrightarrow>
     (\<forall>(v, t) \<in> set (timers st' ws'). 0 < t) \<and>
     (\<forall>v. v \<notin> touched tr \<longrightarrow>
        (if (v, 0) \<in> set (timers st ws) then fires st v tr \<and> v \<notin> set ws'
         else calls_of v tr = [] \<and> keeps st ws st' ws' v))"

lemma not_due:
  assumes "wd_inv st (h # ws) fs" "0 < wd_lag st h" "(v, t) \<in> set (timers st (h # ws))"
  shows "0 < t"
  using remaining_ge [of ws "wd_lag st" v t "wd_lag st h"] wd_invD(4) [OF assms(1)] assms(2,3)
  by (auto simp: timers_def)

text \<open>One round of the loop followed by the rest of it.\<close>

lemma expire_post_step:
  assumes head: "timers st (w # ws) = (w, 0) # timers st3 ws" "\<forall>v. armed st3 v = armed st v"
    and dist: "distinct (w # ws)"
    and c: "c = wd_called code w st3"
    and req: "\<forall>v. v \<notin> req_wdog ` set (call_reqs c) \<longrightarrow> keeps st3 ws st4 ws4 v"
    and dist4: "distinct ws4"
    and post: "expire_post st4 ws4 tr st' ws'"
  shows "expire_post st (w # ws) (c # tr) st' ws'"
proof -
  have cw: "calls_armed st w c"
    using head(2) by (auto simp: c wd_called_def calls_armed_def armed_def Let_def)
  have cv: "call_wdog c = w" using cw by (simp add: calls_armed_def)
  have main: "if (v, 0) \<in> set (timers st (w # ws)) then fires st v (c # tr) \<and> v \<notin> set ws'
      else calls_of v (c # tr) = [] \<and> keeps st (w # ws) st' ws' v" if v: "v \<notin> touched (c # tr)" for v
  proof -
    have k: "keeps st3 ws st4 ws4 v" and vt: "v \<notin> touched tr" using req v by auto
    note P = post [unfolded expire_post_def, THEN conjunct2, rule_format, OF vt]
    show ?thesis
    proof (cases "v = w")
      case True
      have "w \<notin> fst ` set (timers st3 ws)" using dist set_timers [of ws st3] by auto
      then have n: "(w, t) \<notin> set (timers st3 ws)" for t by force
      then have "(w, 0) \<notin> set (timers st4 ws4)" using k True by (simp add: keeps_def)
      then have p: "calls_of w tr = []" "keeps st4 ws4 st' ws' w" using P True by auto
      then have "\<forall>t. (w, t) \<notin> set (timers st' ws')" using n k True by (simp add: keeps_def)
      then have "w \<notin> set ws'" using set_timers [of ws' st'] by force
      then show ?thesis using True p(1) cw cv head(1) by (simp add: fires_def)
    next
      case False
      have t: "(v, t) \<in> set (timers st (w # ws)) \<longleftrightarrow> (v, t) \<in> set (timers st4 ws4)" for t
        using k False head(1) by (simp add: keeps_def)
      have a: "armed st4 v = armed st v" using k head(2) by (simp add: keeps_def)
      have "calls_of v (c # tr) = calls_of v tr" using cv False by simp
      moreover from this have "fires st v (c # tr) = fires st4 v tr"
        using fires_cong [OF a] by (simp add: fires_def)
      moreover have "keeps st (w # ws) st' ws' v = keeps st4 ws4 st' ws' v" by (simp add: keeps_def t a)
      ultimately show ?thesis using P by (simp only: t)
    qed
  qed
  then show ?thesis using post unfolding expire_post_def by blast
qed

lemma wd_expire_loop_spec:
  assumes "wd_inv st ws fs" "code_ok fs code"
  shows "\<exists>tr st' ws'. wd_expire_loop code st tr0 = Some (tr0 @ tr, st') \<and> wd_inv st' ws' fs \<and>
           expire_post st ws tr st' ws'"
  using assms(1)
proof (induction "due (timers st ws)" arbitrary: st ws tr0 rule: less_induct)
  case less
  note D = wd_invD [OF less.prems]
  show ?case
  proof (cases ws)
    case Nil
    then have "wd_expire_loop code st tr0 = Some (tr0, st)"
      using D(9) by (subst wd_expire_loop.simps) simp
    moreover have "expire_post st ws [] st ws" using Nil by (simp add: expire_post_def timers_def)
    ultimately show ?thesis using less.prems by (intro exI [of _ "[]"] exI [of _ st] exI [of _ ws]) simp
  next
    case (Cons w ws0)
    have head: "sq_head (wd_activelist st) = Some w" using D(9) Cons by simp
    show ?thesis
    proof (cases "0 < wd_lag st w")
      case True
      then have "wd_expire_loop code st tr0 = Some (tr0, st)"
        using head by (subst wd_expire_loop.simps) simp
      moreover have "expire_post st ws [] st ws"
        using not_due [OF less.prems [unfolded Cons] True] Cons by (fastforce simp: expire_post_def)
      ultimately show ?thesis using less.prems by (intro exI [of _ "[]"] exI [of _ st] exI [of _ ws]) simp
    next
      case False
      obtain r q where q: "sq_remfirst (active_q st) = (r, q)" by (cases "sq_remfirst (active_q st)")
      define st1 where "st1 = set_active_q q st"
      define st2 where "st2 = (case sq_head (wd_activelist st1) of None \<Rightarrow> st1
          | Some n \<Rightarrow> set_lag n (wd_lag st1 n + wd_lag st1 w) st1)"
      define st3 where "st3 = WDOG_CLRACTIVE w st2"
      define c where "c = wd_called code w st3"
      have h: "r = Some w" "wd_inv st3 ws0 fs" "timers st (w # ws0) = (w, 0) # timers st3 ws0"
          "\<forall>v. armed st3 v = armed st v"
        using wd_expire_head [OF less.prems [unfolded Cons] _ q st1_def st2_def st3_def] False by auto
      have "list_all (req_ok fs) (call_reqs c)"
        using assms(2) by (simp add: code_ok_def c_def wd_called_def Let_def)
      from wd_requests_spec [OF h(2) this] obtain st4 ws4 where
        r4: "wd_requests (call_reqs c) st3 = Some st4" "wd_inv st4 ws4 fs"
          "due (timers st4 ws4) \<le> due (timers st3 ws0)"
          "\<forall>v. v \<notin> req_wdog ` set (call_reqs c) \<longrightarrow> keeps st3 ws0 st4 ws4 v" by blast
      have "due (timers st4 ws4) < due (timers st ws)" using r4(3) h(3) by (simp add: Cons due_def)
      from less.hyps [OF this r4(2), of "tr0 @ [c]"] obtain tr st' ws' where
        rest: "wd_expire_loop code st4 (tr0 @ [c]) = Some ((tr0 @ [c]) @ tr, st')" "wd_inv st' ws' fs"
          "expire_post st4 ws4 tr st' ws'" by blast
      have st3: "WDOG_CLRACTIVE w (case sq_head (snd q) of None \<Rightarrow> st1
          | Some n \<Rightarrow> set_lag n (wd_lag st1 n + wd_lag st1 w) st1) = st3"
        unfolding st3_def st2_def by (simp add: st1_def)
      have "wd_expire_loop code st tr0 = Some (tr0 @ (c # tr), st')"
        using head False q h(1) r4(1) rest(1)
        by (subst wd_expire_loop.simps) (simp add: st3 [unfolded st1_def] c_def [symmetric] Let_def)
      moreover have "expire_post st ws (c # tr) st' ws'"
        unfolding Cons using D(7) wd_invD(7) [OF r4(2)] rest(3) r4(4) h(3,4)
        by (intro expire_post_step [where code = code]) (auto simp: Cons c_def)
      ultimately show ?thesis using rest(2) by blast
    qed
  qed
qed

section \<open>Ticks\<close>

text \<open>Between ticks every watchdog still has time left.\<close>

definition running :: "'f wdogs \<Rightarrow> wdog list \<Rightarrow> bool" where
  "running st ws \<longleftrightarrow> (\<forall>(v, t) \<in> set (timers st ws). 0 < t)"

lemma wd_decr:
  assumes inv: "wd_inv st (h # ws) fs" and run: "running st (h # ws)"
    and st': "st' = set_lag h (wd_lag st h - 1) st"
  shows "wd_inv st' (h # ws) fs \<and> timers st' (h # ws) = map (\<lambda>(v, t). (v, t - 1)) (timers st (h # ws)) \<and>
         (\<forall>v. armed st' v = armed st v)"
proof -
  note D = wd_invD [OF inv]
  have pos: "0 < wd_lag st h" using run by (simp add: running_def timers_def)
  have id: "int32 (wd_lag st h - 1) = wd_lag st h - 1"
    using pos wd_lag_bound [OF inv, of h] by (intro int32_id) auto
  have times: "timers st' (h # ws) = map (\<lambda>(v, t). (v, t - 1)) (timers st (h # ws))"
    using remaining_shift [of "wd_lag st" "wd_lag st h" "- 1" ws] D(7) by (simp add: timers_def st' id)
  have bound: "t < 2 ^ 31" if "(v, t) \<in> set (timers st' (h # ws))" for v t
  proof -
    obtain t' where "(v, t') \<in> set (timers st (h # ws))" "t = t' - 1" using \<open>(v, t) \<in> _\<close> by (auto simp: times)
    then show ?thesis using D(5) [of v t'] by (simp add: timers_def)
  qed
  have nonneg: "0 \<le> wd_lag st' v" if "v \<in> set (h # ws)" for v
    using that D(4) [of v] pos by (auto simp: st' id)
  have "wd_inv st' (h # ws) fs"
    using inv bound nonneg unfolding wd_inv_def by (auto simp: st' active_q_def free_q_def)
  then show ?thesis using times by (simp add: st' armed_def)
qed

definition tick_post ::
    "'f wdogs \<Rightarrow> wdog list \<Rightarrow> 'f wd_call list \<Rightarrow> 'f wdogs \<Rightarrow> wdog list \<Rightarrow> bool" where
  "tick_post st ws tr st' ws' \<longleftrightarrow>
     (\<forall>v. v \<notin> touched tr \<longrightarrow>
        (if (v, 1) \<in> set (timers st ws) then fires st v tr \<and> v \<notin> set ws'
         else calls_of v tr = [] \<and> armed st' v = armed st v \<and>
              (\<forall>t. (v, t) \<in> set (timers st' ws') \<longleftrightarrow> (v, t + 1) \<in> set (timers st ws))))"

lemma expire_tick:
  assumes "timers st1 ws = map (\<lambda>(v, t). (v, t - 1)) (timers st ws)" "\<forall>v. armed st1 v = armed st v"
    and post: "expire_post st1 ws tr st' ws'"
  shows "tick_post st ws tr st' ws' \<and> running st' ws'"
proof -
  have t: "(v, t) \<in> set (timers st1 ws) \<longleftrightarrow> (v, t + 1) \<in> set (timers st ws)" for v t
    using assms(1) by force
  have f: "fires st1 v tr = fires st v tr" for v by (rule fires_cong) (simp add: assms(2))
  show ?thesis
    using post assms(2) t [of _ 0] unfolding expire_post_def tick_post_def running_def
    by (auto simp: f keeps_def t)
qed

lemma wd_timer_spec:
  assumes inv: "wd_inv st ws fs" and run: "running st ws" and ok: "code_ok fs code"
  shows "\<exists>tr st' ws'. wd_timer code st = Some (tr, st') \<and> wd_inv st' ws' fs \<and> running st' ws' \<and>
           tick_post st ws tr st' ws'"
proof (cases ws)
  case Nil
  then have "wd_timer code st = Some ([], st)" using wd_invD(9) [OF inv] by (simp add: wd_timer_def)
  moreover have "tick_post st ws [] st ws" using Nil by (simp add: tick_post_def timers_def)
  ultimately show ?thesis using inv run by blast
next
  case (Cons h ws0)
  have head: "sq_head (wd_activelist st) = Some h" using wd_invD(9) [OF inv] Cons by simp
  define st1 where "st1 = set_lag h (wd_lag st h - 1) st"
  have 1: "wd_inv st1 ws fs" "timers st1 ws = map (\<lambda>(v, t). (v, t - 1)) (timers st ws)"
      "\<forall>v. armed st1 v = armed st v"
    using wd_decr [OF inv [unfolded Cons] run [unfolded Cons] st1_def] by (simp_all add: Cons)
  have head1: "sq_head (wd_activelist st1) = Some h" by (simp add: st1_def head)
  have run1: "wd_timer code st = wd_expiration code st1" by (simp add: wd_timer_def head st1_def)
  obtain tr st' ws' where e: "wd_expiration code st1 = Some (tr, st')" "wd_inv st' ws' fs"
      "expire_post st1 ws tr st' ws'"
  proof (cases "wd_lag st1 h \<le> 0")
    case True
    then show ?thesis using wd_expire_loop_spec [OF 1(1) ok, of "[]"] that head1
      by (auto simp: wd_expiration_def)
  next
    case False
    then have "expire_post st1 ws [] st1 ws"
      using not_due [OF 1(1) [unfolded Cons]] Cons by (fastforce simp: expire_post_def)
    then show ?thesis using that [of "[]" st1 ws] 1(1) head1 False by (simp add: wd_expiration_def)
  qed
  then show ?thesis using expire_tick [OF 1(2,3)] run1 by auto
qed

text \<open>A number of ticks, with the calls each of them makes.\<close>

fun wd_ticks :: "'f wd_code \<Rightarrow> nat \<Rightarrow> 'f wdogs \<Rightarrow> ('f wd_call list list \<times> 'f wdogs) option" where
  "wd_ticks code 0 st = Some ([], st)"
| "wd_ticks code (Suc n) st =
     do { (tr, st1) \<leftarrow> wd_timer code st; (trs, st2) \<leftarrow> wd_ticks code n st1; Some (tr # trs, st2) }"

lemma wd_ticks_return:
  assumes "wd_inv st ws fs" "running st ws" "code_ok fs code"
  shows "\<exists>trs st' ws'. wd_ticks code n st = Some (trs, st') \<and> length trs = n \<and>
           wd_inv st' ws' fs \<and> running st' ws'"
  using assms(1,2)
proof (induction n arbitrary: st ws)
  case (Suc n)
  then show ?case using wd_timer_spec [OF Suc.prems assms(3)] by fastforce
qed auto

text \<open>
  A watchdog with \<open>n + 1\<close> ticks left that no function touches is not called in the first \<open>n\<close>
  ticks and called in the next.
\<close>

lemma wd_ticks_fires:
  assumes "wd_inv st ws fs" "running st ws" "code_ok fs code" "(w, int n + 1) \<in> set (timers st ws)"
    and "wd_ticks code (Suc n) st = Some (trs, st')" "w \<notin> touched (concat trs)"
  shows "(\<forall>i < n. calls_of w (trs ! i) = []) \<and> fires st w (trs ! n)"
  using assms(1,2,4-)
proof (induction n arbitrary: st ws trs)
  case 0
  obtain tr st1 ws1 where t: "wd_timer code st = Some (tr, st1)" "tick_post st ws tr st1 ws1"
    using wd_timer_spec [OF 0(1,2) assms(3)] by blast
  then have "trs = [tr]" using 0(4) by simp
  then show ?case using t(2) 0(3,5) by (simp add: tick_post_def)
next
  case (Suc n)
  obtain tr st1 ws1 where t: "wd_timer code st = Some (tr, st1)" "wd_inv st1 ws1 fs" "running st1 ws1"
      "tick_post st ws tr st1 ws1"
    using wd_timer_spec [OF Suc.prems(1,2) assms(3)] by blast
  obtain trs1 where trs: "trs = tr # trs1" "wd_ticks code (Suc n) st1 = Some (trs1, st')"
    using Suc.prems(4) t(1) by (auto simp del: wd_ticks.simps(2) simp: wd_ticks.simps(2) [of _ "Suc n"]
        split: Option.bind_splits)
  have "(w, 1) \<notin> set (timers st ws)"
    using timers_unique [OF wd_invD(7) [OF Suc.prems(1)] Suc.prems(3), of 1] by auto
  then have "calls_of w tr = []" "armed st1 w = armed st w" "(w, int n + 1) \<in> set (timers st1 ws1)"
    using t(4) Suc.prems(3,5) trs(1) by (auto simp: tick_post_def add.commute)
  moreover have "(\<forall>i < n. calls_of w (trs1 ! i) = []) \<and> fires st1 w (trs1 ! n)"
    using Suc.IH [OF t(2,3) _ trs(2)] calculation Suc.prems(5) trs(1) by auto
  ultimately show ?case
    using trs(1) fires_cong [of st1 w st] by (auto simp: nth_Cons split: nat.split)
qed

end
