(* ===== verification/Wdog_Theorems.thy ===== *)
theory Wdog_Theorems
  imports Wdog_Timer
begin

unbundle bit_operations_syntax

text \<open>
  What the watchdog timers guarantee: the pool and its reserve for interrupt handlers, the list
  of remaining times under any sequence of starts and cancellations, and expiry at the exact
  tick.
\<close>

section \<open>The pool\<close>

lemma wd_fill_spec:
  assumes "n \<le> PREALLOC_WDOGS" "sq_list (free_q st) [0..<PREALLOC_WDOGS - n]"
  shows "\<exists>st'. wd_fill n st = Some st' \<and> sq_list (free_q st') [0..<PREALLOC_WDOGS] \<and>
           wd_activelist st' = wd_activelist st \<and> wd_flags st' = wd_flags st"
  using assms
proof (induction n arbitrary: st)
  case (Suc n)
  let ?w = "PREALLOC_WDOGS - Suc n"
  obtain q where q: "sq_addlast ?w (free_q st) = Some q" "sq_list q ([0..<?w] @ [?w])"
    using sq_addlast_list [OF Suc.prems(2), of ?w] by auto
  moreover have "PREALLOC_WDOGS - n = Suc ?w" using Suc.prems(1) by simp
  then have "[0..<?w] @ [?w] = [0..<PREALLOC_WDOGS - n]" by simp
  moreover have "free_q (set_free_q q st) = q" by (simp add: free_q_def)
  ultimately show ?case using Suc.IH [of "set_free_q q st"] Suc.prems(1) by simp
qed auto

lemma wd_initialize_spec:
  assumes "\<forall>w. \<not> WDOG_ISACTIVE w st"
  shows "\<exists>st'. wd_initialize st = Some st' \<and> wd_inv st' [] [0..<PREALLOC_WDOGS]"
proof -
  define st1 where "st1 = st\<lparr>wd_freelist := sq_init, wd_activelist := sq_init\<rparr>"
  have "sq_list (free_q st1) []" by (simp add: st1_def free_q_def sq_list_def sq_init_def)
  then obtain st2 where 2: "wd_fill PREALLOC_WDOGS st1 = Some st2"
      "sq_list (free_q st2) [0..<PREALLOC_WDOGS]" "wd_activelist st2 = sq_init" "wd_flags st2 = wd_flags st"
    using wd_fill_spec [of PREALLOC_WDOGS st1] by (auto simp: st1_def)
  then have "wd_inv (st2\<lparr>wd_nfree := int PREALLOC_WDOGS\<rparr>) [] [0..<PREALLOC_WDOGS]"
    using assms by (auto simp: wd_inv_def active_q_def free_q_def timers_def WDOG_ISACTIVE_def
        sq_list_def sq_init_def)
  then show ?thesis using 2(1) by (simp add: wd_initialize_def st1_def)
qed

lemma inv_free_length: "wd_inv st ws fs \<Longrightarrow> length fs \<le> 32"
  using wd_invD(8,11) by (metis PREALLOC_WDOGS_def card_lessThan card_mono distinct_card finite_lessThan)

lemma timers_cong: "wd_lag st = wd_lag st' \<Longrightarrow> timers st ws = timers st' ws"
  by (simp add: timers_def)

text \<open>A watchdog leaves or enters the free list; the active list is as before.\<close>

lemma wd_inv_free:
  assumes inv: "wd_inv st ws fs"
    and free: "sq_list (wd_next st', wd_freelist st') fs'" "set fs' \<inter> set ws = {}"
      "set fs' \<subseteq> {..<PREALLOC_WDOGS}" "wd_nfree st' = int (length fs')"
    and same: "\<And>v. v \<in> set ws \<Longrightarrow> wd_next st' v = wd_next st v" "wd_activelist st' = wd_activelist st"
      "wd_lag st' = wd_lag st" "\<And>v. WDOG_ISACTIVE v st' = WDOG_ISACTIVE v st"
  shows "wd_inv st' ws fs'"
  using wd_invD [OF inv] free same sq_list_frame [of "wd_next st" "wd_activelist st" ws "wd_next st'"]
    timers_cong [of st' st ws]
  by (auto simp: wd_inv_def active_q_def free_q_def timers_def)

lemma flags_zero: "wd_flags st' w = 0 \<or> wd_flags st' w = WDOGF_ALLOCED \<Longrightarrow> \<not> WDOG_ISACTIVE w st'"
  by (auto simp: WDOG_ISACTIVE_def WDOGF_ALLOCED_def WDOGF_ACTIVE_def)

lemma wd_create_pool:
  assumes inv: "wd_inv st ws fs" and pool: "wd_nfree st > WDOG_INTRESERVE \<or> irq"
  shows "case wd_create irq mem st of (r, st') \<Rightarrow>
           r = hd_opt fs \<and> wd_inv st' ws (tl fs) \<and> timers st' ws = timers st ws \<and>
           (\<forall>w. r = Some w \<longrightarrow> \<not> WDOG_ISALLOCED w st' \<and> \<not> WDOG_ISSTATIC w st' \<and> w < PREALLOC_WDOGS)"
proof (cases fs)
  case Nil
  have "sq_remfirst (free_q st) = (None, free_q st)"
    using sq_remfirst_Nil wd_invD(2) [OF inv] Nil by (auto simp: free_q_def)
  moreover have "set_free_q (free_q st) st = st" by (simp add: free_q_def set_free_q_def)
  ultimately show ?thesis using pool inv Nil by (auto simp: wd_create_def)
next
  case (Cons w fs0)
  note D = wd_invD [OF inv]
  have fl: "sq_list (free_q st) (w # fs0)" using D(2) Cons by (simp add: free_q_def)
  obtain q where q: "sq_remfirst (free_q st) = (Some w, q)" "sq_list q fs0"
    using sq_remfirst_Cons [OF fl] by blast
  have fr: "v \<notin> set fs \<Longrightarrow> fst q v = wd_next st v" for v
    using sq_remfirst_frame [OF fl, of v] q(1) Cons by (simp add: free_q_def)
  define st' where "st' = (let st1 = set_free_q q st; st2 = st1\<lparr>wd_nfree := uint16 (wd_nfree st1 - 1)\<rparr>
     in st2\<lparr>wd_next := (wd_next st2)(w := None), wd_flags := (wd_flags st2)(w := 0)\<rparr>)"
  have run: "wd_create irq mem st = (Some w, st')"
    using pool q(1) by (simp add: wd_create_def st'_def Let_def)
  have w: "w \<notin> set ws" "w \<notin> set fs0" "w < PREALLOC_WDOGS" using D(3,8,11) Cons by auto
  have n: "wd_nfree st' = int (length fs0)"
    using inv_free_length [OF inv] D(10) Cons by (simp add: st'_def Let_def uint_cast_id)
  have "sq_list (wd_next st', wd_freelist st') fs0"
    using q(2) w by (auto simp: st'_def Let_def intro: sq_list_frame [of "fst q"])
  moreover have "wd_next st' v = wd_next st v" if "v \<in> set ws" for v
    using that w fr [of v] D(3) by (auto simp: st'_def Let_def)
  moreover have "WDOG_ISACTIVE v st' = WDOG_ISACTIVE v st" for v
    using w(1) D(6) [of w] by (auto simp: st'_def Let_def WDOG_ISACTIVE_def)
  ultimately have "wd_inv st' ws fs0"
    using D(3,11) n Cons by (intro wd_inv_free [OF inv]) (auto simp: st'_def Let_def)
  then show ?thesis using run w(3) Cons
    by (auto simp: st'_def Let_def timers_def WDOG_ISALLOCED_def WDOG_ISSTATIC_def)
qed

lemma wd_create_heap:
  assumes inv: "wd_inv st ws fs" and heap: "wd_nfree st \<le> WDOG_INTRESERVE" "\<not> irq"
    and mem: "\<forall>w. mem = Some w \<longrightarrow> w \<notin> set ws \<and> w \<notin> set fs"
  shows "case wd_create irq mem st of (r, st') \<Rightarrow>
           r = mem \<and> wd_inv st' ws fs \<and> timers st' ws = timers st ws \<and>
           (\<forall>w. r = Some w \<longrightarrow> WDOG_ISALLOCED w st')"
proof (cases mem)
  case None
  then show ?thesis using heap inv by (auto simp: wd_create_def)
next
  case (Some w)
  note D = wd_invD [OF inv]
  define st' where "st' = st\<lparr>wd_next := (wd_next st)(w := None), wd_flags := (wd_flags st)(w := WDOGF_ALLOCED)\<rparr>"
  have run: "wd_create irq mem st = (Some w, st')" using heap Some by (simp add: wd_create_def st'_def)
  have w: "w \<notin> set ws" "w \<notin> set fs" using mem Some by auto
  have "sq_list (wd_next st', wd_freelist st') fs"
    using D(2) w by (auto simp: st'_def intro: sq_list_frame [of "wd_next st"])
  moreover have "WDOG_ISACTIVE v st' = WDOG_ISACTIVE v st" for v
    using w(1) D(6) [of w] flags_zero [of st' w] by (auto simp: st'_def WDOG_ISACTIVE_def)
  ultimately have "wd_inv st' ws fs"
    using D(3,10,11) w by (intro wd_inv_free [OF inv]) (auto simp: st'_def)
  then show ?thesis using run Some
    by (auto simp: st'_def timers_def WDOG_ISALLOCED_def WDOGF_ALLOCED_def)
qed

lemma flag_bits_clr: "(x AND - 2) AND 2 = x AND (2::8 word)" "(x AND - 2) AND 4 = x AND (4::8 word)"
  by (simp_all add: and.assoc)

lemma wd_cancel_origin:
  assumes "wd_cancel (Some w) st = Some (r, st')"
  shows "WDOG_ISALLOCED v st' = WDOG_ISALLOCED v st" "WDOG_ISSTATIC v st' = WDOG_ISSTATIC v st"
proof -
  have "wd_flags st' = wd_flags st \<or> wd_flags st' = (wd_flags st)(w := wd_flags st w AND - 2)"
    using assms by (auto simp: wd_cancel_def WDOG_CLRACTIVE_def WDOGF_ACTIVE_def Let_def
        split: if_splits option.splits Option.bind_splits)
  then show "WDOG_ISALLOCED v st' = WDOG_ISALLOCED v st" "WDOG_ISSTATIC v st' = WDOG_ISSTATIC v st"
    by (auto simp: WDOG_ISALLOCED_def WDOG_ISSTATIC_def WDOGF_ALLOCED_def WDOGF_STATIC_def flag_bits_clr
        split: if_splits)
qed

text \<open>Cancellation where the watchdog may or may not be active, as \<open>wd_delete\<close> does it.\<close>

lemma wd_stop_spec:
  assumes inv: "wd_inv st ws fs"
  shows "\<exists>st' ws'. (if WDOG_ISACTIVE w st then map_option snd (wd_cancel (Some w) st) else Some st) = Some st' \<and>
           wd_inv st' ws' fs \<and> timers st' ws' = filter (\<lambda>(v, t). v \<noteq> w) (timers st ws) \<and> w \<notin> set ws' \<and>
           WDOG_ISALLOCED w st' = WDOG_ISALLOCED w st \<and> WDOG_ISSTATIC w st' = WDOG_ISSTATIC w st"
proof (cases "w \<in> set ws")
  case True
  obtain st' ws' where c: "wd_cancel (Some w) st = Some (0, st')" "wd_inv st' ws' fs"
      "timers st' ws' = filter (\<lambda>(v, t). v \<noteq> w) (timers st ws)"
    using wd_cancel_spec [OF inv True] by blast
  moreover have "w \<notin> set ws'" by (auto simp: set_timers [of ws' st'] c(3))
  ultimately show ?thesis using wd_cancel_origin [OF c(1)] wd_invD(6) [OF inv] True by auto
next
  case False
  then show ?thesis using filter_timers_notin [OF False, of st] wd_invD(6) [OF inv] inv by auto
qed

lemma wd_delete_pool:
  assumes inv: "wd_inv st ws fs" and w: "w < PREALLOC_WDOGS" "w \<notin> set fs"
    and own: "\<not> WDOG_ISALLOCED w st" "\<not> WDOG_ISSTATIC w st"
  shows "\<exists>st' ws'. wd_delete w st = Some (0, False, st') \<and> wd_inv st' ws' (fs @ [w]) \<and>
           timers st' ws' = filter (\<lambda>(v, t). v \<noteq> w) (timers st ws)"
proof -
  obtain st1 ws1 where 1: "(if WDOG_ISACTIVE w st then map_option snd (wd_cancel (Some w) st) else Some st) = Some st1"
      "wd_inv st1 ws1 fs" "timers st1 ws1 = filter (\<lambda>(v, t). v \<noteq> w) (timers st ws)" "w \<notin> set ws1"
      "WDOG_ISALLOCED w st1 = WDOG_ISALLOCED w st" "WDOG_ISSTATIC w st1 = WDOG_ISSTATIC w st"
    using wd_stop_spec [OF inv, of w] by blast
  note D = wd_invD [OF 1(2)]
  have fl: "sq_list (free_q st1) fs" using D(2) by (simp add: free_q_def)
  obtain q where q: "sq_addlast w (free_q st1) = Some q" "sq_list q (fs @ [w])"
    using sq_addlast_list [OF fl w(2)] by blast
  define st' where "st' = (set_free_q q st1)\<lparr>wd_nfree := uint16 (wd_nfree st1 + 1)\<rparr>"
  have run: "wd_delete w st = Some (0, False, st')"
    using 1(1,5,6) own q(1) by (simp add: wd_delete_def st'_def split del: if_split)
  have n: "wd_nfree st' = int (length (fs @ [w]))"
    using inv_free_length [OF inv] D(10) by (simp add: st'_def uint_cast_id)
  have "wd_next st' v = wd_next st1 v" if "v \<in> set ws1" for v
    using that 1(4) D(3) sq_addlast_frame [OF fl q(1), of v] by (auto simp: st'_def free_q_def)
  then have "wd_inv st' ws1 (fs @ [w])"
    using q(2) w 1(4) D(3,11) n by (intro wd_inv_free [OF 1(2)]) (auto simp: st'_def)
  moreover have "timers st' ws1 = timers st1 ws1" by (rule timers_cong) (simp add: st'_def)
  ultimately show ?thesis using run 1(3) by auto
qed

section \<open>The abstract timer list\<close>

text \<open>Starting and cancelling on the list of remaining times.\<close>

fun abs_request :: "'f wd_req \<Rightarrow> (wdog \<times> int) list \<Rightarrow> (wdog \<times> int) list" where
  "abs_request (WdStart w delay f argc args) ts =
     (if argc > MAX_WDOGPARMS \<or> delay < 0 then ts
      else insert_time w (min (delay + 1) (2 ^ 31 - 1)) (filter (\<lambda>(v, t). v \<noteq> w) ts))"
| "abs_request (WdCancel w) ts = filter (\<lambda>(v, t). v \<noteq> w) ts"

lemma wd_request_refines:
  assumes "wd_inv st ws fs" "req_ok fs r"
  shows "\<exists>st' ws'. wd_request r st = Some st' \<and> wd_inv st' ws' fs \<and>
           timers st' ws' = abs_request r (timers st ws)"
proof (cases r)
  case (WdStart w delay f argc args)
  then show ?thesis using assms wd_start_spec [OF assms(1), of w argc delay args f]
    by (cases "argc > MAX_WDOGPARMS \<or> delay < 0") (auto simp: wd_start_rejects)
next
  case (WdCancel w)
  then show ?thesis
    using assms(1) wd_cancel_spec [OF assms(1), of w] wd_cancel_inactive [OF assms(1), of w]
      filter_timers_notin [of w ws st]
    by (cases "w \<in> set ws") auto
qed

lemma wd_requests_refine:
  assumes "wd_inv st ws fs" "list_all (req_ok fs) rs"
  shows "\<exists>st' ws'. wd_requests rs st = Some st' \<and> wd_inv st' ws' fs \<and>
           timers st' ws' = fold abs_request rs (timers st ws)"
  using assms
proof (induction rs arbitrary: st ws)
  case (Cons r rs)
  obtain st1 ws1 where 1: "wd_request r st = Some st1" "wd_inv st1 ws1 fs"
      "timers st1 ws1 = abs_request r (timers st ws)"
    using wd_request_refines [of st ws fs r] Cons.prems by auto
  then show ?case using Cons.IH [OF 1(2)] Cons.prems(2) by auto
qed auto

lemma wd_gettime_lookup:
  assumes inv: "wd_inv st ws fs"
  shows "wd_gettime (Some w) st = Some (case map_of (timers st ws) w of None \<Rightarrow> 0 | Some t \<Rightarrow> t)"
proof (cases "map_of (timers st ws) w")
  case None
  then have "w \<notin> set ws" using set_timers [of ws st] by (simp add: map_of_eq_None_iff)
  then show ?thesis using wd_gettime_spec(2) [OF inv] None by simp
next
  case (Some t)
  then show ?thesis using wd_gettime_spec(1) [OF inv] map_of_SomeD by fastforce
qed

section \<open>A system to run on\<close>

text \<open>
  Memory before initialisation and the state after it; a watchdog function \<open>1\<close> that starts its
  watchdog, number 40, again every time, and other functions that do nothing.
\<close>

definition blank_wdogs :: "nat wdogs" where
  "blank_wdogs = \<lparr>wd_next = (\<lambda>_. None), wd_func = (\<lambda>_. 0), wd_lag = (\<lambda>_. 0), wd_flags = (\<lambda>_. 0),
     wd_argc = (\<lambda>_. 0), wd_parm = (\<lambda>_ _. 0), wd_activelist = sq_init, wd_freelist = sq_init, wd_nfree = 0\<rparr>"

definition booted :: "nat wdogs" where
  "booted = the (wd_initialize blank_wdogs)"

definition periodic :: "nat wd_code" where
  "periodic f argc parms st = (if f = 1 then [WdStart 40 2 1 0 []] else [])"

lemma booted_inv: "wd_initialize blank_wdogs = Some booted" "wd_inv booted [] [0..<PREALLOC_WDOGS]"
proof -
  have "\<forall>w. \<not> WDOG_ISACTIVE w blank_wdogs" by (simp add: blank_wdogs_def WDOG_ISACTIVE_def)
  from wd_initialize_spec [OF this] show "wd_initialize blank_wdogs = Some booted"
      "wd_inv booted [] [0..<PREALLOC_WDOGS]"
    by (auto simp: booted_def)
qed

lemma booted_facts: "wd_nfree booted = 32" "timers booted [] = []" "running booted []"
  using wd_invD(10) [OF booted_inv(2)] by (simp_all add: PREALLOC_WDOGS_def timers_def running_def)

lemma periodic_ok: "code_ok [0..<PREALLOC_WDOGS] periodic"
  by (simp add: code_ok_def periodic_def PREALLOC_WDOGS_def)

section \<open>Properties\<close>

text \<open>
  C5. Any sequence of admissible calls of \<open>wd_start\<close> and \<open>wd_cancel\<close> returns, keeps the
  invariant and acts on the list of remaining times as the abstract timer list does: a start
  puts the watchdog behind all that expire no later, after taking out its earlier start, with
  one tick more than the delay as its time; a cancellation takes it out; a rejected start
  (negative delay, too many arguments) changes nothing.  \<open>wd_gettime\<close> then reports each
  watchdog's remaining time, zero for one that is not active.
\<close>

theorem wd_requests_refine_timers:
  assumes "wd_inv st ws fs" "list_all (req_ok fs) rs"
  shows "\<exists>st' ws'. wd_requests rs st = Some st' \<and> wd_inv st' ws' fs \<and>
           timers st' ws' = fold abs_request rs (timers st ws) \<and>
           (\<forall>w. wd_gettime (Some w) st' =
              Some (case map_of (fold abs_request rs (timers st ws)) w of None \<Rightarrow> 0 | Some t \<Rightarrow> t))"
  using wd_requests_refine [OF assms] wd_gettime_lookup by metis

theorem wd_requests_refine_timers_witness:
  "\<exists>st'. wd_requests [WdStart 40 10 0 0 [], WdStart 41 4 0 1 [9], WdStart 42 4 0 0 [], WdCancel 40,
        WdStart 41 7 0 0 [], WdStart 43 (- 1) 0 0 []] booted = Some st' \<and>
      wd_gettime (Some 41) st' = Some 8 \<and> wd_gettime (Some 42) st' = Some 5 \<and>
      wd_gettime (Some 40) st' = Some 0 \<and> wd_gettime (Some 43) st' = Some 0"
  using wd_requests_refine_timers [OF booted_inv(2), of "[WdStart 40 10 0 0 [], WdStart 41 4 0 1 [9],
      WdStart 42 4 0 0 [], WdCancel 40, WdStart 41 7 0 0 [], WdStart 43 (- 1) 0 0 []]"]
  by (auto simp: PREALLOC_WDOGS_def booted_facts(2) MAX_WDOGPARMS_def)

text \<open>
  C3. A started watchdog is called at the exact tick: after \<open>wd_start\<close> with a delay of \<open>delay\<close>
  ticks, the next \<open>delay + 1\<close> timer ticks (\<open>INT32_MAX\<close> ticks for the largest delay) return,
  whatever watchdogs the called functions start or cancel; and when none of them touches this
  watchdog, the ticks before the last do not call it and the last one calls it once, with the
  function and the arguments it was started with.
\<close>

theorem wd_fires_on_time:
  assumes "wd_inv st ws fs" "running st ws" "code_ok fs code" "w \<notin> set fs"
    and "argc \<le> MAX_WDOGPARMS" "0 \<le> delay" "delay < 2 ^ 31" "argc \<le> int (length args)"
    and "n = nat (min delay (2 ^ 31 - 2))"
  shows "\<exists>st1 trs st2. wd_start (Some w) delay f argc args st = Some (0, st1) \<and>
           wd_ticks code (Suc n) st1 = Some (trs, st2) \<and>
           (w \<notin> touched (concat trs) \<longrightarrow>
              (\<forall>i < n. calls_of w (trs ! i) = []) \<and>
              (\<exists>c. calls_of w (trs ! n) = [c] \<and> call_func c = f \<and> call_argc c = uint8 argc \<and>
                 (0 < argc \<longrightarrow> fst (call_parms c) = uint32 (args ! 0)) \<and>
                 (1 < argc \<longrightarrow> snd (call_parms c) = uint32 (args ! 1))))"
proof -
  obtain st1 ws1 where s: "wd_start (Some w) delay f argc args st = Some (0, st1)" "wd_inv st1 ws1 fs"
      "timers st1 ws1 = insert_time w (min (delay + 1) (2 ^ 31 - 1)) (filter (\<lambda>(v, t). v \<noteq> w) (timers st ws))"
      "wd_func st1 w = f" "wd_argc st1 w = uint8 argc"
      "\<forall>k. int k < argc \<longrightarrow> wd_parm st1 w k = uint32 (args ! k)"
    using wd_start_spec [OF assms(1,4-8), of f] by blast
  have run: "running st1 ws1" using assms(2,6) s(3) by (auto simp: running_def)
  have n: "int n + 1 = min (delay + 1) (2 ^ 31 - 1)" using assms(6,9) by simp
  have t: "(w, int n + 1) \<in> set (timers st1 ws1)" unfolding s(3) n by simp
  obtain trs st2 where ticks: "wd_ticks code (Suc n) st1 = Some (trs, st2)"
    using wd_ticks_return [OF s(2) run assms(3), of "Suc n"] by blast
  have "(\<forall>i < n. calls_of w (trs ! i) = []) \<and> fires st1 w (trs ! n)" if "w \<notin> touched (concat trs)"
    by (rule wd_ticks_fires [OF s(2) run assms(3) t ticks that])
  then show ?thesis using s(1,4,5) s(6) [rule_format, of 0] s(6) [rule_format, of 1] ticks
    by (auto simp: fires_def calls_armed_def)
qed

theorem wd_fires_on_time_witness:
  "\<exists>st1 trs st2. wd_start (Some 45) 3 9 1 [77] booted = Some (0, st1) \<and>
     wd_ticks periodic 4 st1 = Some (trs, st2) \<and>
     (45 \<notin> touched (concat trs) \<longrightarrow>
        calls_of 45 (trs ! 2) = [] \<and> (\<exists>c. calls_of 45 (trs ! 3) = [c] \<and> call_func c = 9 \<and>
          fst (call_parms c) = 77))"
proof -
  have "\<exists>st1 trs st2. wd_start (Some 45) 3 9 1 [77] booted = Some (0, st1) \<and>
      wd_ticks periodic (Suc 3) st1 = Some (trs, st2) \<and>
      (45 \<notin> touched (concat trs) \<longrightarrow> (\<forall>i < 3. calls_of 45 (trs ! i) = []) \<and>
         (\<exists>c. calls_of 45 (trs ! 3) = [c] \<and> call_func c = 9 \<and> call_argc c = uint8 1 \<and>
            (0 < (1::int) \<longrightarrow> fst (call_parms c) = uint32 ([77] ! 0)) \<and>
            (1 < (1::int) \<longrightarrow> snd (call_parms c) = uint32 ([77] ! 1))))"
    by (rule wd_fires_on_time [OF booted_inv(2) booted_facts(3) periodic_ok])
       (simp_all add: PREALLOC_WDOGS_def MAX_WDOGPARMS_def)
  then show ?thesis by (fastforce simp: numeral_eq_Suc uint_cast_def)
qed

text \<open>
  C37. The pool of pre-allocated watchdogs: \<open>wd_create\<close> takes the first free one in an interrupt
  handler or while more than the reserve of four are free, and otherwise leaves the reserve
  alone and uses memory from the heap; the watchdog it returns is neither active nor free, and
  no running timer changes.  \<open>wd_delete\<close> of such a watchdog stops it and puts it back on the
  free list.
\<close>

theorem wd_pool_reserve:
  assumes inv: "wd_inv st ws fs" and mem: "\<forall>w. mem = Some w \<longrightarrow> w \<notin> set ws \<and> PREALLOC_WDOGS \<le> w"
    and run: "wd_create irq mem st = (r, st')"
  shows "if irq \<or> 4 < length fs
         then r = hd_opt fs \<and> wd_inv st' ws (tl fs) \<and> timers st' ws = timers st ws \<and>
              (\<forall>w. r = Some w \<longrightarrow> (\<exists>st''. wd_delete w st' = Some (0, False, st'') \<and>
                 wd_inv st'' ws (tl fs @ [w]) \<and> timers st'' ws = timers st ws))
         else r = mem \<and> wd_inv st' ws fs \<and> timers st' ws = timers st ws"
proof (cases "irq \<or> 4 < length fs")
  case True
  note D = wd_invD [OF inv]
  have "wd_nfree st > WDOG_INTRESERVE \<or> irq" using True D(10) by (auto simp: WDOG_INTRESERVE_def)
  from wd_create_pool [OF inv this, of mem] run have c: "r = hd_opt fs" "wd_inv st' ws (tl fs)"
      "timers st' ws = timers st ws"
      "\<forall>w. r = Some w \<longrightarrow> \<not> WDOG_ISALLOCED w st' \<and> \<not> WDOG_ISSTATIC w st' \<and> w < PREALLOC_WDOGS" by auto
  have "\<exists>st''. wd_delete w st' = Some (0, False, st'') \<and> wd_inv st'' ws (tl fs @ [w]) \<and>
      timers st'' ws = timers st ws" if rw: "r = Some w" for w
  proof -
    have w: "w \<in> set fs" "w \<notin> set (tl fs)" "w \<notin> set ws"
      using rw c(1) D(3,8) by (cases fs; auto)+
    obtain st'' ws' where d: "wd_delete w st' = Some (0, False, st'')" "wd_inv st'' ws' (tl fs @ [w])"
        "timers st'' ws' = filter (\<lambda>(v, t). v \<noteq> w) (timers st' ws)"
      using wd_delete_pool [OF c(2) _ w(2)] c(4) rw by blast
    then have "timers st'' ws' = timers st ws" using filter_timers_notin [OF w(3), of st'] c(3) by simp
    then have "ws' = ws" "timers st'' ws' = timers st ws" by (metis fst_timers)+
    then show ?thesis using d by auto
  qed
  then show ?thesis using True c by simp
next
  case False
  then have "wd_nfree st \<le> WDOG_INTRESERVE" "\<not> irq" using wd_invD(10) [OF inv] by (auto simp: WDOG_INTRESERVE_def)
  moreover have "\<forall>w. mem = Some w \<longrightarrow> w \<notin> set ws \<and> w \<notin> set fs"
    using mem wd_invD(11) [OF inv] by (auto simp: subset_iff)
  ultimately have "r = mem \<and> wd_inv st' ws fs \<and> timers st' ws = timers st ws"
    using wd_create_heap [OF inv, of irq mem] run by simp
  then show ?thesis using False by simp
qed

theorem wd_pool_reserve_witness:
  "\<exists>st'. wd_create False (Some 50) booted = (Some 0, st') \<and> wd_inv st' [] [1..<32]"
proof -
  obtain r st' where r: "wd_create False (Some 50) booted = (r, st')" by (cases "wd_create False (Some 50) booted")
  have "r = hd_opt [0..<PREALLOC_WDOGS] \<and> wd_inv st' [] (tl [0..<PREALLOC_WDOGS])"
    using wd_pool_reserve [OF booted_inv(2) _ r] by (simp add: PREALLOC_WDOGS_def)
  moreover have "[0..<32] = 0 # [1..<32::nat]" by (simp add: upt_conv_Cons)
  ultimately show ?thesis using r by (simp add: PREALLOC_WDOGS_def)
qed

end
