(* ===== verification/Calendar.thy ===== *)
theory Calendar
  imports CInt "HOL-Library.Signed_Division" "HOL-Library.Monad_Syntax"
begin

text \<open>
  Calendar time (\<open>libs/libc/time\<close>) as configured: no time zones, no \<open>CONFIG_GREGORIAN_TIME\<close>, so that only
  dates from 1970 on are represented; \<open>time_t\<close> is an unsigned 32-bit number of seconds.

  A table index out of range makes an operation return \<open>None\<close>.  Divisions of the code are of
  non-negative numbers wherever the result is used, except in \<open>clock_dayoftheweek\<close>, where C's division
  and remainder are written out as \<open>sdiv\<close> and \<open>smod\<close>.
\<close>

section \<open>Definitions\<close>

record tm =
  tm_sec :: int
  tm_min :: int
  tm_hour :: int
  tm_mday :: int
  tm_mon :: int
  tm_year :: int
  tm_wday :: int
  tm_yday :: int
  tm_isdst :: int

definition SEC_PER_MIN :: int where "SEC_PER_MIN = 60"
definition SEC_PER_HOUR :: int where "SEC_PER_HOUR = SEC_PER_MIN * 60"
definition SEC_PER_DAY :: int where "SEC_PER_DAY = 24 * SEC_PER_HOUR"

definition clock_isleapyear :: "int \<Rightarrow> bool" where
  "clock_isleapyear year =
     (if year smod 400 \<noteq> 0 then if year smod 100 \<noteq> 0 then if year smod 4 \<noteq> 0 then False else True else False else True)"

definition g_daysbeforemonth :: "int list" where
  "g_daysbeforemonth = [0, 31, 59, 90, 120, 151, 181, 212, 243, 273, 304, 334, 365]"

definition clock_daysbeforemonth :: "int \<Rightarrow> bool \<Rightarrow> int option" where
  "clock_daysbeforemonth month leapyear =
     (if 0 \<le> month \<and> month < 13
      then Some (g_daysbeforemonth ! nat month + (if month \<ge> 2 \<and> leapyear then 1 else 0))
      else None)"

definition clock_dayoftheweek :: "int \<Rightarrow> int \<Rightarrow> int \<Rightarrow> int" where
  "clock_dayoftheweek mday month year =
     (let year1 = (if month \<le> 2 then year - 1 else year);
          month1 = (if month \<le> 2 then month + 12 else month);
          month2 = month1 - 2
      in (mday + year1 + year1 sdiv 4 - year1 sdiv 100 + year1 sdiv 400 + (31 * month2) sdiv 12) smod 7)"

definition clock_calendar2utc :: "int \<Rightarrow> int \<Rightarrow> int \<Rightarrow> int option" where
  "clock_calendar2utc year month day =
     do {
       let days = uint32 ((year - 1970) * 365);
       let days1 = uint32 (days + (year - 1969) div 4);
       before \<leftarrow> clock_daysbeforemonth month (clock_isleapyear year);
       let days2 = uint32 (days1 + uint32 before);
       Some (uint32 (days2 + (day - 1)))
     }"

definition mktime :: "tm \<Rightarrow> int option" where
  "mktime tp =
     do {
       jdn \<leftarrow> clock_calendar2utc (tm_year tp + 1900) (tm_mon tp) (tm_mday tp);
       Some (uint32 (((jdn * 24 + tm_hour tp) * 60 + tm_min tp) * 60 + tm_sec tp))
     }"

text \<open>The two loops of \<open>clock_utc2calendar\<close>: the years left over, and the search for the month.\<close>

definition year_days :: "int \<Rightarrow> int" where
  "year_days value = (if clock_isleapyear (value + 1970) then 366 else 365)"

function calendar_years :: "int \<Rightarrow> int \<Rightarrow> int \<times> int" where
  "calendar_years value days =
     (if days \<ge> year_days value then calendar_years (value + 1) (days - year_days value) else (value, days))"
  by pat_completeness auto
termination by (relation "measure (\<lambda>(value, days). nat days)") (auto simp: year_days_def split: if_splits)

function calendar_month :: "int \<Rightarrow> int \<Rightarrow> int \<Rightarrow> bool \<Rightarrow> int option" where
  "calendar_month lo hi days leapyear =
     (let value = (lo + hi) div 2
      in case clock_daysbeforemonth (value + 1) leapyear of
           None \<Rightarrow> None
         | Some tmp \<Rightarrow>
             if tmp > days
             then (case clock_daysbeforemonth value leapyear of
                     None \<Rightarrow> None
                   | Some tmp \<Rightarrow>
                       if tmp > days
                       then if lo < value - 1 then calendar_month lo (value - 1) days leapyear else Some lo
                       else Some value)
             else if value + 1 < hi then calendar_month (value + 1) hi days leapyear else Some (value + 1))"
  by pat_completeness auto
termination by (relation "measure (\<lambda>(lo, hi, days, leapyear). nat (hi - lo))") auto

declare calendar_years.simps [simp del] calendar_month.simps [simp del]

definition clock_utc2calendar :: "int \<Rightarrow> (int \<times> int \<times> int) option" where
  "clock_utc2calendar days =
     do {
       let periods = days div (4 * 365 + 1);
       let (years, rest) = calendar_years (periods * 4) (days - periods * (4 * 365 + 1));
       let leapyear = clock_isleapyear (years + 1970);
       month \<leftarrow> calendar_month 0 11 rest leapyear;
       before \<leftarrow> clock_daysbeforemonth month leapyear;
       Some (1970 + years, month + 1, rest - before + 1)
     }"

definition gmtime_r :: "int \<Rightarrow> tm option" where
  "gmtime_r timer =
     do {
       let jdn = timer div SEC_PER_DAY;
       let epoch = timer - SEC_PER_DAY * jdn;
       let hour = epoch div SEC_PER_HOUR;
       let epoch1 = epoch - SEC_PER_HOUR * hour;
       let mins = epoch1 div SEC_PER_MIN;
       let sec = epoch1 - SEC_PER_MIN * mins;
       (year, month, day) \<leftarrow> clock_utc2calendar jdn;
       before \<leftarrow> clock_daysbeforemonth (month - 1) (clock_isleapyear year);
       Some \<lparr>tm_sec = sec, tm_min = mins, tm_hour = hour, tm_mday = day, tm_mon = month - 1,
             tm_year = year - 1900, tm_wday = clock_dayoftheweek day month year,
             tm_yday = day + before, tm_isdst = 0\<rparr>
     }"

section \<open>The Gregorian calendar\<close>

definition leap :: "int \<Rightarrow> bool" where
  "leap y \<longleftrightarrow> 4 dvd y \<and> (100 dvd y \<longrightarrow> 400 dvd y)"

definition month_days :: "int \<Rightarrow> int \<Rightarrow> int" where
  "month_days y m = (if m = 2 then if leap y then 29 else 28 else if m \<in> {4, 6, 9, 11} then 30 else 31)"

definition valid_date :: "int \<Rightarrow> int \<Rightarrow> int \<Rightarrow> bool" where
  "valid_date y m d \<longleftrightarrow> 1970 \<le> y \<and> 1 \<le> m \<and> m \<le> 12 \<and> 1 \<le> d \<and> d \<le> month_days y m"

text \<open>The number of days from the first of January 1970 to a date.\<close>

definition days_before :: "int \<Rightarrow> int \<Rightarrow> int \<Rightarrow> int" where
  "days_before y m d = (\<Sum>i = 1970..<y. \<Sum>j = 1..12. month_days i j) + (\<Sum>j = 1..<m. month_days y j) + (d - 1)"

lemma isleapyear_leap: "0 \<le> y \<Longrightarrow> clock_isleapyear y = leap y"
  using dvd_trans [of 4 100 y] dvd_trans [of 100 400 y]
  by (auto simp: clock_isleapyear_def leap_def signed_modulo_int_def dvd_eq_mod_eq_0 [symmetric] sgn_eq_0_iff)

lemma sum_Suc_upto: "a \<le> b \<Longrightarrow> (\<Sum>j = a..<b + 1. f j) = (\<Sum>j = a..<b. f j) + f (b :: int)"
  for f :: "int \<Rightarrow> int"
proof -
  assume "a \<le> b"
  then have "{a..<b + 1} = insert b {a..<b}" by auto
  then show ?thesis by (simp add: add.commute)
qed

lemma month_sum: "(\<Sum>j = 1..<m. month_days y j) =
    (if m \<le> 1 then 0 else (\<Sum>j = 1..<m - 1. month_days y j) + month_days y (m - 1))"
  using sum_Suc_upto [of 1 "m - 1" "month_days y"] by simp

lemma before_Suc:
  assumes "0 \<le> m" "m < 12" "clock_daysbeforemonth m (leap y) = Some b"
  shows "clock_daysbeforemonth (m + 1) (leap y) = Some (b + month_days y (m + 1))"
proof -
  have "m \<in> {0, 1, 2, 3, 4, 5, 6, 7, 8, 9, 10, 11}" using assms(1,2) by (simp; presburger)
  then show ?thesis using assms(3) by (auto simp: clock_daysbeforemonth_def g_daysbeforemonth_def month_days_def)
qed

lemma daysbeforemonth_sum:
  assumes "0 \<le> m" "m \<le> 12"
  shows "clock_daysbeforemonth m (leap y) = Some (\<Sum>j = 1..<m + 1. month_days y j)"
  using assms
proof (induction m rule: int_ge_induct)
  case base
  then show ?case by (simp add: clock_daysbeforemonth_def g_daysbeforemonth_def)
next
  case (step m)
  then show ?case using before_Suc [of m y "\<Sum>j = 1..<m + 1. month_days y j"] sum_Suc_upto [of 1 "m + 1" "month_days y"] by simp
qed

lemma year_sum: "(\<Sum>j = 1..12. month_days y j) = (if leap y then 366 else 365)"
proof -
  have "clock_daysbeforemonth 12 (leap y) = Some (\<Sum>j = 1..<12 + 1. month_days y j)" by (rule daysbeforemonth_sum) auto
  then show ?thesis using atLeastLessThanPlusOne_atLeastAtMost_int [of 1 12] by (simp add: clock_daysbeforemonth_def g_daysbeforemonth_def split: if_splits)
qed

lemma div_Suc_dvd: "(z :: int) div 4 = (z - 1) div 4 + (if 4 dvd z then 1 else 0)"
  by presburger

text \<open>Until 2100 every fourth year is a leap year.\<close>

lemma leap_until_2100: "1970 \<le> y \<Longrightarrow> y < 2100 \<Longrightarrow> leap y \<longleftrightarrow> 4 dvd y"
proof -
  assume y: "1970 \<le> y" "y < 2100"
  have "y = 2000" if "100 dvd y" using that y by (auto elim!: dvdE)
  then show ?thesis by (auto simp: leap_def)
qed

lemma days_before_year:
  assumes "1970 \<le> y" "y \<le> 2100"
  shows "days_before y 1 1 = (y - 1970) * 365 + (y - 1969) div 4"
  using assms
proof (induction y rule: int_ge_induct)
  case base
  then show ?case by (simp add: days_before_def)
next
  case (step y)
  have sum: "days_before (y + 1) 1 1 = days_before y 1 1 + (if leap y then 366 else 365)"
    unfolding days_before_def sum_Suc_upto [OF step(1)] year_sum by simp
  have leap: "leap y \<longleftrightarrow> 4 dvd y" using step(1,3) by (intro leap_until_2100) auto
  have "4 dvd y - 1968 \<longleftrightarrow> 4 dvd y" by presburger
  then have div: "(y + 1 - 1969) div 4 = (y - 1969) div 4 + (if 4 dvd y then 1 else 0)"
    using div_Suc_dvd [of "y - 1968"] by simp
  show ?case unfolding sum leap div using step(2,3) by simp
qed

lemma days_before_split: "days_before y m d = days_before y 1 1 + (\<Sum>j = 1..<m. month_days y j) + (d - 1)"
  by (simp add: days_before_def)

lemma days_before_next: "1970 \<le> y \<Longrightarrow> days_before (y + 1) 1 1 = days_before y 1 1 + (if leap y then 366 else 365)"
  unfolding days_before_def using sum_Suc_upto [of 1970 y] by (simp add: year_sum)

lemma days_before_mono:
  assumes "1970 \<le> y" "y \<le> z"
  shows "days_before y 1 1 \<le> days_before z 1 1"
  using assms(2)
proof (induction z rule: int_ge_induct)
  case (step z)
  then show ?case using days_before_next [of z] assms(1) by (simp split: if_splits)
qed simp

section \<open>From days to dates\<close>

lemma calendar_years_spec:
  assumes "0 \<le> v" "0 \<le> d" "calendar_years v d = (y, r)"
  shows "v \<le> y \<and> 0 \<le> r \<and> r < (if leap (y + 1970) then 366 else 365) \<and>
    days_before (y + 1970) 1 1 + r = days_before (v + 1970) 1 1 + d"
  using assms
proof (induction v d arbitrary: y r rule: calendar_years.induct)
  case (1 v d)
  have len: "year_days v = (if leap (v + 1970) then 366 else 365)" using 1(2) by (simp add: year_days_def isleapyear_leap)
  show ?case
  proof (cases "d \<ge> year_days v")
    case True
    then have "calendar_years (v + 1) (d - year_days v) = (y, r)" using 1(4) by (simp add: calendar_years.simps [of v d])
    from 1(1) [OF True _ _ this] show ?thesis using True 1(2) days_before_next [of "v + 1970"] len by (simp add: ac_simps)
  next
    case False
    then have "calendar_years v d = (v, d)" by (simp add: calendar_years.simps [of v d])
    then show ?thesis using 1(2-4) False len by simp
  qed
qed

lemma calendar_month_spec:
  assumes "0 \<le> lo" "lo \<le> hi" "hi \<le> 11"
    and "clock_daysbeforemonth lo (leap y) = Some b" "b \<le> d"
    and "clock_daysbeforemonth (hi + 1) (leap y) = Some e" "d < e"
  shows "\<exists>m b' e'. calendar_month lo hi d (leap y) = Some m \<and> 0 \<le> m \<and> m \<le> 11 \<and>
    clock_daysbeforemonth m (leap y) = Some b' \<and> b' \<le> d \<and> clock_daysbeforemonth (m + 1) (leap y) = Some e' \<and> d < e'"
  using assms
proof (induction "nat (hi - lo)" arbitrary: lo hi b e rule: less_induct)
  case less
  define v where "v = (lo + hi) div 2"
  have v: "lo \<le> v" "v \<le> hi" using less(3) unfolding v_def by auto
  obtain bv ev where bv: "clock_daysbeforemonth v (leap y) = Some bv" and ev: "clock_daysbeforemonth (v + 1) (leap y) = Some ev"
    using v less(2,4) by (auto simp: clock_daysbeforemonth_def)
  note step = calendar_month.simps [of lo hi d "leap y", folded v_def]
  consider "ev > d" "bv > d" | "ev > d" "bv \<le> d" | "ev \<le> d" by linarith
  then show ?case
  proof cases
    case 1
    then have "lo < v" using bv less(5,6) v(1) by (cases "lo = v") auto
    then have "calendar_month lo hi d (leap y) = (if lo < v - 1 then calendar_month lo (v - 1) d (leap y) else Some lo)"
      using 1 bv ev step by (simp add: Let_def)
    moreover have "bv = bv'" if "clock_daysbeforemonth (lo + 1) (leap y) = Some bv'" "\<not> lo < v - 1" for bv'
      using that bv \<open>lo < v\<close> by (cases "v = lo + 1") auto
    moreover obtain bv' where "clock_daysbeforemonth (lo + 1) (leap y) = Some bv'"
      using v less(2-4) by (auto simp: clock_daysbeforemonth_def)
    ultimately show ?thesis using less(1) [of "v - 1" lo b bv] \<open>lo < v\<close> v(2) less(2-6) bv 1(2)
      by (cases "lo < v - 1") simp_all
  next
    case 2
    then have "calendar_month lo hi d (leap y) = Some v" using bv ev step by (simp add: Let_def)
    then show ?thesis using 2 bv ev v less(2,4) by auto
  next
    case 3
    then have "v < hi" using ev less(7,8) v(2) by (cases "v = hi") auto
    then have "calendar_month lo hi d (leap y) = (if v + 1 < hi then calendar_month (v + 1) hi d (leap y) else Some (v + 1))"
      using 3 bv ev step by (simp add: Let_def)
    moreover have "hi + 1 = 2 + v" if "\<not> v + 1 < hi" using that \<open>v < hi\<close> by simp
    then have "clock_daysbeforemonth (2 + v) (leap y) = Some e" if "\<not> v + 1 < hi" using that less(7) by simp
    ultimately show ?thesis using less(1) [of hi "v + 1" ev e] \<open>v < hi\<close> v(1) less(2-4,7,8) ev 3
      by (cases "v + 1 < hi") simp_all
  qed
qed

text \<open>The date of a day up to the end of 2100.\<close>

lemma clock_utc2calendar_spec:
  assumes "0 \<le> n" "n < 47847"
  shows "\<exists>y m d. clock_utc2calendar n = Some (y, m, d) \<and> valid_date y m d \<and> y \<le> 2100 \<and> days_before y m d = n"
proof -
  define p where "p = n div 1461"
  have p: "0 \<le> p" "p \<le> 32" "n = p * 1461 + n mod 1461" using assms by (auto simp: p_def)
  obtain y r where yr: "calendar_years (p * 4) (n - p * 1461) = (y, r)" by (cases "calendar_years (p * 4) (n - p * 1461)")
  have "days_before (p * 4 + 1970) 1 1 = p * 1461"
    using days_before_year [of "p * 4 + 1970"] p by simp
  then have y: "p * 4 \<le> y" "0 \<le> r" "r < (if leap (y + 1970) then 366 else 365)" "days_before (y + 1970) 1 1 + r = n"
    using calendar_years_spec [OF _ _ yr] p(1,3) by (auto simp: algebra_simps)
  let ?y = "y + 1970"
  have leap: "clock_isleapyear ?y = leap ?y" using y(1) p(1) by (simp add: isleapyear_leap)
  have "clock_daysbeforemonth 12 (leap ?y) = Some (if leap ?y then 366 else 365)" "clock_daysbeforemonth 0 (leap ?y) = Some 0"
    by (simp_all add: clock_daysbeforemonth_def g_daysbeforemonth_def)
  then obtain m b e where m: "calendar_month 0 11 r (leap ?y) = Some m" "0 \<le> m" "m \<le> 11"
    "clock_daysbeforemonth m (leap ?y) = Some b" "b \<le> r" "clock_daysbeforemonth (m + 1) (leap ?y) = Some e" "r < e"
    using calendar_month_spec [of 0 11 ?y 0 r] y(2,3) by fastforce
  have b: "b = (\<Sum>j = 1..<m + 1. month_days ?y j)" using daysbeforemonth_sum [of m ?y] m by simp
  have "e = b + month_days ?y (m + 1)" using before_Suc [of m ?y b] m by simp
  then have "valid_date ?y (m + 1) (r - b + 1)" using y(1) p(1) m by (simp add: valid_date_def)
  moreover have "days_before ?y (m + 1) (r - b + 1) = n" using y(4) b by (simp add: days_before_split [of _ "m + 1"])
  moreover have "?y \<le> 2100"
  proof (rule ccontr)
    have "days_before 2101 1 1 = 47847"
      using days_before_next [of 2100] days_before_year [of 2100] by (simp add: leap_def)
    moreover assume "\<not> ?y \<le> 2100"
    then have "days_before 2101 1 1 \<le> days_before ?y 1 1" by (intro days_before_mono) auto
    ultimately show False using y(2,4) assms(2) by simp
  qed
  moreover have "clock_utc2calendar n = Some (?y, m + 1, r - b + 1)"
    using yr m(1,4) leap by (simp add: clock_utc2calendar_def p_def [symmetric] Let_def add.commute)
  ultimately show ?thesis by blast
qed

section \<open>From dates to days\<close>

lemma month_range: "1 \<le> m \<Longrightarrow> m \<le> 12 \<Longrightarrow> m \<in> {1, 2, 3, 4, 5, 6, 7, 8, 9, 10, 11, 12 :: int}"
  by (simp; presburger)

lemma days_before_closed:
  assumes "valid_date y m d" "y \<le> 2100"
  shows "\<exists>b. clock_daysbeforemonth (m - 1) (leap y) = Some b \<and> 0 \<le> b \<and> b < 366 \<and>
    days_before y m d = (y - 1970) * 365 + (y - 1969) div 4 + b + (d - 1)"
proof -
  have m: "1 \<le> m" "m \<le> 12" "1970 \<le> y" using assms(1) by (auto simp: valid_date_def)
  have b: "clock_daysbeforemonth (m - 1) (leap y) = Some (\<Sum>j = 1..<m. month_days y j)"
    using daysbeforemonth_sum [of "m - 1" y] m by simp
  have "0 \<le> b \<and> b < 366" if "clock_daysbeforemonth (m - 1) (leap y) = Some b" for b
    using month_range [OF m(1,2)] that by (auto simp: clock_daysbeforemonth_def g_daysbeforemonth_def split: if_splits)
  then show ?thesis using b days_before_split [of y m d] days_before_year [OF m(3) assms(2)] by auto
qed

lemma clock_calendar2utc_spec:
  assumes "valid_date y m d" "y \<le> 2100"
  shows "clock_calendar2utc y (m - 1) d = Some (days_before y m d)"
proof -
  obtain b where b: "clock_daysbeforemonth (m - 1) (leap y) = Some b" "0 \<le> b" "b < 366"
    "days_before y m d = (y - 1970) * 365 + (y - 1969) div 4 + b + (d - 1)"
    using days_before_closed [OF assms] by blast
  have y: "1970 \<le> y" "1 \<le> d" "d \<le> 31" using assms(1) by (auto simp: valid_date_def month_days_def split: if_splits)
  have leap: "clock_isleapyear y = leap y" using y(1) by (simp add: isleapyear_leap)
  have d: "0 \<le> (y - 1969) div 4" "(y - 1969) div 4 \<le> 32" using y(1) assms(2) by auto
  show ?thesis using b d y assms(2) unfolding clock_calendar2utc_def leap by (simp add: uint_cast_id)
qed

lemma sdiv_pos: "0 \<le> a \<Longrightarrow> 0 < b \<Longrightarrow> a sdiv b = (a :: int) div b"
  by (auto simp: signed_divide_int_def sgn_if)

text \<open>The day of the week by the formula of \<open>clock_dayoftheweek\<close>; the first of January 1970 was a Thursday.\<close>

lemma century_days:
  fixes y :: int
  assumes "1969 \<le> y" "y \<le> 2100"
  shows "y div 400 - y div 100 = (if y = 2100 then - 16 else - 15)"
proof -
  consider "y < 2000" | "2000 \<le> y" "y < 2100" | "y = 2100" using assms by linarith
  then show ?thesis
  proof cases
    case 1
    then have "y div 100 = 19" "y div 400 = 4" using assms by auto
    then show ?thesis using 1 by simp
  next
    case 2
    then have "y div 100 = 20" "y div 400 = 5" by auto
    then show ?thesis using 2 by simp
  qed simp
qed

lemma smod_7: "0 \<le> a \<Longrightarrow> a smod 7 = (a :: int) mod 7"
  by (auto simp: signed_modulo_int_def sgn_if)

lemma month_table:
  assumes "1 \<le> m" "m \<le> 12" "clock_daysbeforemonth (m - 1) l = Some b"
  shows "7 dvd (if m \<le> 2 then - 1 else if l then 1 else 0) + 719524 + (31 * (if m \<le> 2 then m + 10 else m - 2)) div 12 - b"
  using month_range [OF assms(1,2)] assms(3)
  by (elim insertE) (auto simp: clock_daysbeforemonth_def g_daysbeforemonth_def)

text \<open>The leap days before a year, as the formula counts them.\<close>

lemma leap_days:
  assumes "1970 \<le> y" "y \<le> 2100"
  shows "(y - 1) div 4 - (y - 1) div 100 + (y - 1) div 400 = (y - 1969) div 4 + 477"
    and "y div 4 - y div 100 + y div 400 = (y - 1969) div 4 + 477 + (if leap y then 1 else 0)"
proof -
  have "y - 1 = y - 1969 + 492 * 4" by simp
  then have y1: "(y - 1) div 4 = (y - 1969) div 4 + 492" using div_mult_self1 [of 4 "y - 1969" 492] by presburger
  then have y4: "y div 4 = (y - 1969) div 4 + 492 + (if 4 dvd y then 1 else 0)" using div_Suc_dvd [of y] by simp
  from y1 show "(y - 1) div 4 - (y - 1) div 100 + (y - 1) div 400 = (y - 1969) div 4 + 477"
    using century_days [of "y - 1"] assms by simp
  show "y div 4 - y div 100 + y div 400 = (y - 1969) div 4 + 477 + (if leap y then 1 else 0)"
  proof (cases "y = 2100")
    case False
    then show ?thesis using y4 century_days [of y] leap_until_2100 [of y] assms by simp
  qed (simp add: leap_def)
qed

lemma clock_dayoftheweek_spec:
  assumes "valid_date y m d" "y \<le> 2100"
  shows "clock_dayoftheweek d m y = (days_before y m d + 4) mod 7"
proof -
  obtain b where b: "clock_daysbeforemonth (m - 1) (leap y) = Some b"
    "days_before y m d = (y - 1970) * 365 + (y - 1969) div 4 + b + (d - 1)"
    using days_before_closed [OF assms] by blast
  have r: "1970 \<le> y" "1 \<le> m" "m \<le> 12" "1 \<le> d" using assms(1) by (auto simp: valid_date_def)
  define Y where "Y = (if m \<le> 2 then y - 1 else y)"
  define M where "M = (if m \<le> 2 then m + 10 else m - 2)"
  define A where "A = (y - 1969) div 4"
  define K where "K = (31 * M) div 12"
  define Q where "Q = Y div 4 - Y div 100 + Y div 400"
  define l :: int where "l = (if leap y then 1 else 0)"
  have Q: "Q = A + 477 + (if m \<le> 2 then 0 else l)"
    unfolding Q_def Y_def A_def l_def
    by (cases "m \<le> 2") (simp_all only: if_True if_False simp_thms add_0_right leap_days [OF r(1) assms(2)])
  have days: "days_before y m d = (y - 1970) * 365 + A + b + (d - 1)" using b(2) by (simp only: A_def)
  have "7 dvd (if m \<le> 2 then - 1 else l) + 719524 + K - b"
    using month_table [OF r(2,3) b(1)] by (simp only: K_def M_def l_def)
  moreover have "d + Y + Q + K - (days_before y m d + 4) = 7 * (- 52 * y) + ((if m \<le> 2 then - 1 else l) + 719524 + K - b)"
    unfolding days Q Y_def by simp
  ultimately have "7 dvd d + Y + Q + K - (days_before y m d + 4)" by (simp only: dvd_add_right_iff dvd_triv_left)
  then have mod: "(d + Y + Q + K) mod 7 = (days_before y m d + 4) mod 7" by (simp only: mod_eq_dvd_iff)
  have Y: "1969 \<le> Y" "1 \<le> M" using r by (auto simp: Y_def M_def)
  have "0 \<le> A" "0 \<le> K" using r(1) Y(2) by (simp_all add: A_def K_def pos_imp_zdiv_nonneg_iff)
  then have pos: "0 \<le> d + Y + Q + K" using r(4) Y(1) by (simp add: Q l_def)
  have "clock_dayoftheweek d m y = (d + Y + Y sdiv 4 - Y sdiv 100 + Y sdiv 400 + (31 * M) sdiv 12) smod 7"
    unfolding clock_dayoftheweek_def Let_def Y_def M_def by (simp add: add.commute [of 310])
  also have "d + Y + Y sdiv 4 - Y sdiv 100 + Y sdiv 400 + (31 * M) sdiv 12 = d + Y + Q + K"
    using Y by (simp add: sdiv_pos Q_def K_def)
  finally show ?thesis using pos mod by (simp only: smod_7)
qed

section \<open>A day has one date\<close>

lemma month_days_pos: "1 \<le> month_days y m"
  by (simp add: month_days_def)

lemma month_sum_mono:
  assumes "1 \<le> m" "m \<le> n"
  shows "(\<Sum>j = 1..<m. month_days y j) \<le> (\<Sum>j = 1..<n. month_days y j)"
  using assms(2,1) month_days_pos order_trans [OF zero_le_one month_days_pos [of y]]
  by (intro sum_mono2) auto

lemma date_in_month:
  assumes "valid_date y m d"
  shows "(\<Sum>j = 1..<m. month_days y j) \<le> days_before y m d - days_before y 1 1 \<and>
    days_before y m d - days_before y 1 1 < (\<Sum>j = 1..<m + 1. month_days y j)"
  using assms sum_Suc_upto [of 1 m "month_days y"] days_before_split [of y m d] by (auto simp: valid_date_def)

lemma date_in_year:
  assumes "valid_date y m d"
  shows "days_before y 1 1 \<le> days_before y m d \<and> days_before y m d < days_before (y + 1) 1 1"
proof -
  have v: "1 \<le> m" "m \<le> 12" "1970 \<le> y" using assms by (auto simp: valid_date_def)
  have "(\<Sum>j = 1..<m + 1. month_days y j) \<le> (\<Sum>j = 1..<13. month_days y j)" using v by (intro month_sum_mono) auto
  also have "\<dots> = days_before (y + 1) 1 1 - days_before y 1 1"
    using days_before_next [OF v(3)] year_sum [of y] atLeastLessThanPlusOne_atLeastAtMost_int [of 1 12] by simp
  finally have "days_before y m d < days_before (y + 1) 1 1" using date_in_month [OF assms] by simp
  moreover have "0 \<le> (\<Sum>j = 1..<m. month_days y j)" using month_sum_mono [of 1 m y] v by simp
  ultimately show ?thesis using date_in_month [OF assms] by simp
qed

lemma days_before_inject:
  assumes "valid_date y m d" "valid_date y' m' d'" "days_before y m d = days_before y' m' d'"
  shows "y = y' \<and> m = m' \<and> d = d'"
proof -
  have y: "\<not> a < b" if "valid_date a m d" "valid_date b n e" "days_before a m d = days_before b n e" for a b m n d e
    using date_in_year [OF that(1)] date_in_year [OF that(2)] days_before_mono [of "a + 1" b] that
    by (auto simp: valid_date_def)
  then have "y = y'" using assms by (metis linorder_neqE_linordered_idom)
  moreover have m: "\<not> i < j" if "valid_date y i d" "valid_date y j e" "days_before y i d = days_before y j e" for i j d e
    using date_in_month [OF that(1)] date_in_month [OF that(2)] month_sum_mono [of "i + 1" j y] that
    by (auto simp: valid_date_def)
  ultimately have "m = m'" using assms by (metis linorder_neqE_linordered_idom)
  then show ?thesis using \<open>y = y'\<close> assms(3) by (simp add: days_before_def)
qed

section \<open>Properties\<close>

text \<open>A time of day, and the broken-out time of a number of seconds.\<close>

definition valid_time :: "tm \<Rightarrow> bool" where
  "valid_time tp \<longleftrightarrow> 0 \<le> tm_hour tp \<and> tm_hour tp < 24 \<and> 0 \<le> tm_min tp \<and> tm_min tp < 60 \<and> 0 \<le> tm_sec tp \<and> tm_sec tp < 60"

definition seconds :: "tm \<Rightarrow> int" where
  "seconds tp =
     days_before (tm_year tp + 1900) (tm_mon tp + 1) (tm_mday tp) * 86400 + tm_hour tp * 3600 + tm_min tp * 60 + tm_sec tp"

lemma mktime_seconds:
  assumes "valid_date (tm_year tp + 1900) (tm_mon tp + 1) (tm_mday tp)" "tm_year tp \<le> 200" "valid_time tp"
  shows "mktime tp = Some (seconds tp) \<and> 0 \<le> seconds tp \<and> seconds tp < 47847 * 86400"
proof -
  let ?d = "days_before (tm_year tp + 1900) (tm_mon tp + 1) (tm_mday tp)"
  have "days_before (tm_year tp + 1900 + 1) 1 1 \<le> days_before 2101 1 1"
    using assms(1,2) by (intro days_before_mono) (auto simp: valid_date_def)
  also have "\<dots> = 47847" using days_before_next [of 2100] days_before_year [of 2100] by (simp add: leap_def)
  finally have d: "?d < 47847" using date_in_year [OF assms(1)] by simp
  have "days_before 1970 1 1 \<le> days_before (tm_year tp + 1900) 1 1" using assms(1) by (intro days_before_mono) (auto simp: valid_date_def)
  then have d0: "0 \<le> ?d" using date_in_year [OF assms(1)] by (simp add: days_before_def [of 1970])
  then have r: "0 \<le> seconds tp" "seconds tp < 47847 * 86400" using d assms(3) by (auto simp: seconds_def valid_time_def)
  then show ?thesis using clock_calendar2utc_spec [OF assms(1)] assms(2)
    by (simp add: mktime_def seconds_def algebra_simps uint_cast_id)
qed

lemma sec_per: "SEC_PER_MIN = 60" "SEC_PER_HOUR = 3600" "SEC_PER_DAY = 86400"
  by (simp_all add: SEC_PER_MIN_def SEC_PER_HOUR_def SEC_PER_DAY_def)

lemma split_time:
  fixes e :: int
  assumes "0 \<le> e" "e < 86400"
  defines "h \<equiv> e div 3600"
  defines "m \<equiv> (e - 3600 * h) div 60"
  defines "s \<equiv> e - 3600 * h - 60 * m"
  shows "0 \<le> h \<and> h < 24 \<and> 0 \<le> m \<and> m < 60 \<and> 0 \<le> s \<and> s < 60"
proof -
  have "e - 3600 * h = e mod 3600" by (simp add: h_def minus_mult_div_eq_mod)
  moreover from this have "s = (e mod 3600) mod 60" by (simp add: s_def m_def minus_mult_div_eq_mod)
  ultimately show ?thesis using assms(1,2) pos_mod_bound [of 3600 e] by (auto simp: h_def m_def)
qed

text \<open>The broken-out time of a number of seconds.\<close>

lemma gmtime_r_spec:
  assumes "0 \<le> t" "t < 47847 * 86400"
  shows "\<exists>tp. gmtime_r t = Some tp \<and> valid_date (tm_year tp + 1900) (tm_mon tp + 1) (tm_mday tp) \<and> tm_year tp \<le> 200 \<and>
    valid_time tp \<and> seconds tp = t \<and> tm_wday tp = (t div 86400 + 4) mod 7 \<and>
    tm_yday tp = t div 86400 - days_before (tm_year tp + 1900) 1 1 + 1 \<and> tm_isdst tp = 0"
proof -
  define n where "n = t div 86400"
  define e where "e = t - 86400 * n"
  define h where "h = e div 3600"
  define mi where "mi = (e - 3600 * h) div 60"
  have n: "0 \<le> n" "n < 47847" using assms by (auto simp: n_def pos_imp_zdiv_nonneg_iff)
  obtain y m d where c: "clock_utc2calendar n = Some (y, m, d)" "valid_date y m d" "y \<le> 2100" "days_before y m d = n"
    using clock_utc2calendar_spec [OF n] by blast
  obtain b where b: "clock_daysbeforemonth (m - 1) (leap y) = Some b"
    "days_before y m d = (y - 1970) * 365 + (y - 1969) div 4 + b + (d - 1)" using days_before_closed [OF c(2,3)] by blast
  have y: "1970 \<le> y" using c(2) by (simp add: valid_date_def)
  have leap: "clock_isleapyear y = leap y" using y by (simp add: isleapyear_leap)
  have "e = t mod 86400" by (simp add: e_def n_def minus_mult_div_eq_mod)
  then have e: "0 \<le> e" "e < 86400" by simp_all
  define tp where "tp = \<lparr>tm_sec = e - 3600 * h - 60 * mi, tm_min = mi, tm_hour = h, tm_mday = d, tm_mon = m - 1,
    tm_year = y - 1900, tm_wday = clock_dayoftheweek d m y, tm_yday = d + b, tm_isdst = 0\<rparr>"
  have "gmtime_r t = Some tp" unfolding gmtime_r_def Let_def sec_per n_def [symmetric] e_def [symmetric] h_def [symmetric]
      mi_def [symmetric] c(1) tp_def using b(1) by (simp add: leap)
  moreover have "valid_time tp" using split_time [OF e] by (simp add: tp_def valid_time_def h_def mi_def)
  moreover have "seconds tp = t" using c(4) by (simp add: tp_def seconds_def e_def)
  moreover have "tm_wday tp = (n + 4) mod 7" using clock_dayoftheweek_spec [OF c(2,3)] c(4) by (simp add: tp_def)
  moreover have "tm_yday tp = n - days_before (tm_year tp + 1900) 1 1 + 1"
    unfolding tp_def c(4) [symmetric] b(2) using days_before_year [OF y c(3)] by simp
  moreover have "valid_date (tm_year tp + 1900) (tm_mon tp + 1) (tm_mday tp)" "tm_year tp \<le> 200" "tm_isdst tp = 0"
    using c(2,3) by (simp_all add: tp_def)
  ultimately show ?thesis unfolding n_def by blast
qed

lemma radix_inject:
  fixes q r k :: int
  assumes "q * k + r = q' * k + r'" "0 \<le> r" "r < k" "0 \<le> r'" "r' < k"
  shows "q = q' \<and> r = r'"
proof -
  have "(q * k + r) div k = q" "(q' * k + r') div k = q'" using assms(2-) by simp_all
  then show ?thesis using assms(1) by simp
qed

lemma seconds_inject:
  assumes "valid_date (tm_year a + 1900) (tm_mon a + 1) (tm_mday a)" "valid_time a"
    and "valid_date (tm_year b + 1900) (tm_mon b + 1) (tm_mday b)" "valid_time b" "seconds a = seconds b"
  shows "tm_year a = tm_year b \<and> tm_mon a = tm_mon b \<and> tm_mday a = tm_mday b \<and>
    tm_hour a = tm_hour b \<and> tm_min a = tm_min b \<and> tm_sec a = tm_sec b"
proof -
  let ?d = "\<lambda>x. days_before (tm_year x + 1900) (tm_mon x + 1) (tm_mday x)"
  have s: "seconds x = ((?d x * 24 + tm_hour x) * 60 + tm_min x) * 60 + tm_sec x" for x
    by (simp add: seconds_def)
  note t = assms(2,4) [unfolded valid_time_def]
  have 1: "(?d a * 24 + tm_hour a) * 60 + tm_min a = (?d b * 24 + tm_hour b) * 60 + tm_min b \<and> tm_sec a = tm_sec b"
    using assms(5) t unfolding s by (intro radix_inject) auto
  then have 2: "?d a * 24 + tm_hour a = ?d b * 24 + tm_hour b \<and> tm_min a = tm_min b"
    using t by (intro radix_inject) auto
  then have "?d a = ?d b \<and> tm_hour a = tm_hour b" using t by (intro radix_inject) auto
  then show ?thesis using 1 2 days_before_inject [OF assms(1,3)] by simp
qed

text \<open>
  C34. For every time from 1970 to the end of 2100, \<open>gmtime_r\<close> yields the date of the Gregorian calendar
  that many seconds after the epoch, with its time of day and day of the week, and \<open>mktime\<close> converts it
  back to the same number.  Conversely \<open>mktime\<close> of any date and time in this range is the number of
  seconds since the epoch, which \<open>gmtime_r\<close> converts back.  The day of the year counts from one.
\<close>

theorem calendar_roundtrip:
  assumes "0 \<le> t" "t < 4133980800"
    and "valid_date (tm_year tp + 1900) (tm_mon tp + 1) (tm_mday tp)" "tm_year tp \<le> 200" "valid_time tp"
  shows "(\<exists>r. gmtime_r t = Some r \<and> seconds r = t \<and> valid_date (tm_year r + 1900) (tm_mon r + 1) (tm_mday r) \<and> valid_time r \<and>
      tm_wday r = (t div 86400 + 4) mod 7 \<and> tm_yday r = t div 86400 - days_before (tm_year r + 1900) 1 1 + 1 \<and>
      mktime r = Some t) \<and>
    mktime tp = Some (seconds tp) \<and>
    (\<exists>wd yd. gmtime_r (seconds tp) = Some (tp\<lparr>tm_wday := wd, tm_yday := yd, tm_isdst := 0\<rparr>))"
proof (intro conjI)
  have t: "t < 47847 * 86400" using assms(2) by simp
  from gmtime_r_spec [OF assms(1) t] obtain r where r: "gmtime_r t = Some r"
    "valid_date (tm_year r + 1900) (tm_mon r + 1) (tm_mday r)" "tm_year r \<le> 200" "valid_time r" "seconds r = t"
    "tm_wday r = (t div 86400 + 4) mod 7" "tm_yday r = t div 86400 - days_before (tm_year r + 1900) 1 1 + 1" by blast
  then show "\<exists>r. gmtime_r t = Some r \<and> seconds r = t \<and> valid_date (tm_year r + 1900) (tm_mon r + 1) (tm_mday r) \<and> valid_time r \<and>
      tm_wday r = (t div 86400 + 4) mod 7 \<and> tm_yday r = t div 86400 - days_before (tm_year r + 1900) 1 1 + 1 \<and> mktime r = Some t"
    using mktime_seconds [OF r(2-4)] by auto
  have m: "mktime tp = Some (seconds tp)" "0 \<le> seconds tp" "seconds tp < 47847 * 86400" using mktime_seconds [OF assms(3-5)] by auto
  then show "mktime tp = Some (seconds tp)" by simp
  from gmtime_r_spec [OF m(2,3)] obtain q where q: "gmtime_r (seconds tp) = Some q"
    "valid_date (tm_year q + 1900) (tm_mon q + 1) (tm_mday q)" "valid_time q" "seconds q = seconds tp" "tm_isdst q = 0" by blast
  have "q = tp\<lparr>tm_wday := tm_wday q, tm_yday := tm_yday q, tm_isdst := 0\<rparr>"
    using seconds_inject [OF q(2,3) assms(3,5) q(4)] q(5) by (cases q; cases tp) simp
  then show "\<exists>wd yd. gmtime_r (seconds tp) = Some (tp\<lparr>tm_wday := wd, tm_yday := yd, tm_isdst := 0\<rparr>)" using q(1) by metis
qed

text \<open>
  From 2101 on the conversions differ from the calendar, because 2100 is counted as a leap year by
  \<open>clock_calendar2utc\<close> and by the periods of four years in \<open>clock_utc2calendar\<close>: two days get one date.
\<close>

lemma mktime_after_2100: "clock_calendar2utc 2101 0 1 = Some 47848 \<and> days_before 2101 1 1 = 47847"
  using days_before_next [of 2100] days_before_year [of 2100]
  by (simp add: clock_calendar2utc_def clock_daysbeforemonth_def g_daysbeforemonth_def uint_cast_def leap_def)

lemma gmtime_after_2100:
  "clock_utc2calendar 48212 = Some (2102, 1, 1) \<and> clock_utc2calendar 48213 = Some (2102, 1, 1)"
  by code_simp

definition leap_day :: tm where
  "leap_day = \<lparr>tm_sec = 59, tm_min = 59, tm_hour = 23, tm_mday = 29, tm_mon = 1, tm_year = 100, tm_wday = 0, tm_yday = 0, tm_isdst = 0\<rparr>"

theorem calendar_roundtrip_witness:
  "(\<exists>r. gmtime_r 4102444800 = Some r \<and> seconds r = 4102444800 \<and> mktime r = Some 4102444800) \<and>
   mktime leap_day = Some (seconds leap_day) \<and>
   (\<exists>wd yd. gmtime_r (seconds leap_day) = Some (leap_day\<lparr>tm_wday := wd, tm_yday := yd, tm_isdst := 0\<rparr>))"
  using calendar_roundtrip [of 4102444800 leap_day]
  by (auto simp: leap_day_def valid_date_def valid_time_def month_days_def leap_def)

end
