(* ===== verification/Clock.thy ===== *)
theory Clock
  imports Calendar
begin

text \<open>
  System time (\<open>sched/clock\<close>): the counter of timer ticks, the time of day derived from it, and the
  conversions between time and ticks; ticks of 10 ms, no real time clock, no tickless operation.
  \<open>time_t\<close> is an unsigned, \<open>long\<close> a signed 32-bit integer.
\<close>

section \<open>Definitions\<close>

record timespec =
  tv_sec :: int
  tv_nsec :: int

record sysclock =
  g_system_timer :: int
  g_basetime :: timespec

definition NSEC_PER_SEC :: int where "NSEC_PER_SEC = 1000000000"
definition NSEC_PER_TICK :: int where "NSEC_PER_TICK = 10000000"
definition TICK_PER_SEC :: int where "TICK_PER_SEC = 100"
definition TICK2MSEC :: "int \<Rightarrow> int" where "TICK2MSEC tick = tick * 10"
definition CLOCK_REALTIME :: int where "CLOCK_REALTIME = 0"

text \<open>The start of the system: no tick has passed, and the base time is zero.\<close>

definition sysclock_start :: sysclock where
  "sysclock_start = \<lparr>g_system_timer = 0, g_basetime = \<lparr>tv_sec = 0, tv_nsec = 0\<rparr>\<rparr>"

definition clock_timer :: "sysclock \<Rightarrow> sysclock" where
  "clock_timer c = c\<lparr>g_system_timer := uint32 (g_system_timer c + 1)\<rparr>"

definition clock_systime_ticks :: "sysclock \<Rightarrow> int" where
  "clock_systime_ticks c = g_system_timer c"

definition clock_systime_timespec :: "sysclock \<Rightarrow> timespec" where
  "clock_systime_timespec c =
     (let msecs = TICK2MSEC (clock_systime_ticks c);
          secs = msecs div 1000;
          nsecs = (msecs - secs * 1000) * 1000000
      in \<lparr>tv_sec = uint32 secs, tv_nsec = int32 nsecs\<rparr>)"

text \<open>The date of the configuration, as \<open>CONFIG_START_YEAR\<close>, \<open>CONFIG_START_MONTH\<close>, \<open>CONFIG_START_DAY\<close>.\<close>

definition clock_basetime :: "int \<Rightarrow> int \<Rightarrow> int \<Rightarrow> timespec option" where
  "clock_basetime year month day =
     do { jdn \<leftarrow> clock_calendar2utc year (month - 1) day;
          Some \<lparr>tv_sec = uint32 (jdn * SEC_PER_DAY), tv_nsec = 0\<rparr> }"

text \<open>The left result is the error number that \<open>errno\<close> is set to.\<close>

definition clock_gettime :: "int \<Rightarrow> sysclock \<Rightarrow> int + timespec" where
  "clock_gettime clock_id c =
     (if clock_id = CLOCK_REALTIME
      then (let ts = clock_systime_timespec c;
                sec = uint32 (tv_sec ts + uint32 (tv_sec (g_basetime c)));
                nsec = int32 (tv_nsec ts + uint32 (tv_nsec (g_basetime c)))
            in if nsec \<ge> NSEC_PER_SEC
               then (let carry = uint32 (nsec div NSEC_PER_SEC)
                     in Inr \<lparr>tv_sec = uint32 (sec + carry), tv_nsec = int32 (nsec - carry * NSEC_PER_SEC)\<rparr>)
               else Inr \<lparr>tv_sec = sec, tv_nsec = nsec\<rparr>)
      else Inl EINVAL)"

definition clock_settime :: "int \<Rightarrow> timespec \<Rightarrow> sysclock \<Rightarrow> int + sysclock" where
  "clock_settime clock_id tp c =
     (if clock_id = CLOCK_REALTIME
      then (let bias = clock_systime_timespec c;
                base = \<lparr>tv_sec = tv_sec tp, tv_nsec = tv_nsec tp\<rparr>;
                base1 = (if tv_nsec base < tv_nsec bias
                         then \<lparr>tv_sec = uint32 (tv_sec base - 1), tv_nsec = int32 (tv_nsec base + NSEC_PER_SEC)\<rparr>
                         else base)
            in Inr (c\<lparr>g_basetime := \<lparr>tv_sec = uint32 (tv_sec base1 - tv_sec bias),
                                     tv_nsec = int32 (tv_nsec base1 - tv_nsec bias)\<rparr>\<rparr>))
      else Inl EINVAL)"

definition clock_timespec_add :: "timespec \<Rightarrow> timespec \<Rightarrow> timespec" where
  "clock_timespec_add ts1 ts2 =
     (let sec = uint32 (tv_sec ts1 + tv_sec ts2);
          nsec = int32 (tv_nsec ts1 + tv_nsec ts2)
      in if nsec \<ge> NSEC_PER_SEC
         then \<lparr>tv_sec = uint32 (sec + 1), tv_nsec = int32 (nsec - NSEC_PER_SEC)\<rparr>
         else \<lparr>tv_sec = sec, tv_nsec = nsec\<rparr>)"

definition clock_timespec_subtract :: "timespec \<Rightarrow> timespec \<Rightarrow> timespec" where
  "clock_timespec_subtract ts1 ts2 =
     (if tv_sec ts1 < tv_sec ts2 then \<lparr>tv_sec = 0, tv_nsec = 0\<rparr>
      else if tv_sec ts1 = tv_sec ts2 \<and> tv_nsec ts1 \<le> tv_nsec ts2 then \<lparr>tv_sec = 0, tv_nsec = 0\<rparr>
      else (let sec = uint32 (tv_sec ts1 - tv_sec ts2)
            in if tv_nsec ts1 < tv_nsec ts2
               then \<lparr>tv_sec = uint32 (sec - 1), tv_nsec = int32 (int32 (tv_nsec ts1 + NSEC_PER_SEC) - tv_nsec ts2)\<rparr>
               else \<lparr>tv_sec = sec, tv_nsec = int32 (tv_nsec ts1 - tv_nsec ts2)\<rparr>))"

definition clock_timespec_compare :: "timespec \<Rightarrow> timespec \<Rightarrow> int" where
  "clock_timespec_compare a b =
     (if tv_sec a < tv_sec b then - 1
      else if tv_sec a > tv_sec b then 1
      else int32 (tv_nsec a - tv_nsec b))"

text \<open>A signed 64-bit number of nanoseconds, rounded up to ticks, which are a signed 32-bit number.\<close>

definition clock_time2ticks :: "timespec \<Rightarrow> int" where
  "clock_time2ticks reltime =
     (let relnsec = int64 (tv_sec reltime * NSEC_PER_SEC + tv_nsec reltime)
      in int32 (int64 (relnsec + NSEC_PER_TICK - 1) sdiv NSEC_PER_TICK))"

definition clock_ticks2time :: "int \<Rightarrow> timespec" where
  "clock_ticks2time ticks =
     (let sec = uint32 (ticks sdiv TICK_PER_SEC);
          remainder = int32 (uint32 (ticks - TICK_PER_SEC * sec))
      in \<lparr>tv_sec = sec, tv_nsec = int32 (remainder * NSEC_PER_TICK)\<rparr>)"

text \<open>The error number, or zero and the ticks until an absolute time; \<open>-1\<close> if it has passed.\<close>

definition clock_abstime2ticks :: "int \<Rightarrow> timespec \<Rightarrow> sysclock \<Rightarrow> int + int" where
  "clock_abstime2ticks clockid abstime c =
     (case clock_gettime clockid c of
        Inl _ \<Rightarrow> Inl EINVAL
      | Inr currtime \<Rightarrow>
          if clock_timespec_compare abstime currtime < 0 then Inr (- 1)
          else (let nsec = int32 (tv_nsec abstime - tv_nsec currtime);
                    sec = uint32 (tv_sec abstime - tv_sec currtime);
                    reltime = (if nsec < 0 then \<lparr>tv_sec = uint32 (sec - 1), tv_nsec = int32 (nsec + NSEC_PER_SEC)\<rparr>
                               else \<lparr>tv_sec = sec, tv_nsec = nsec\<rparr>)
                in Inr (clock_time2ticks reltime)))"

section \<open>Time in nanoseconds\<close>

definition nsecs :: "timespec \<Rightarrow> int" where
  "nsecs ts = tv_sec ts * 1000000000 + tv_nsec ts"

definition valid_ts :: "timespec \<Rightarrow> bool" where
  "valid_ts ts \<longleftrightarrow> 0 \<le> tv_sec ts \<and> tv_sec ts < 2 ^ 32 \<and> 0 \<le> tv_nsec ts \<and> tv_nsec ts < 1000000000"

definition clock_ok :: "sysclock \<Rightarrow> bool" where
  "clock_ok c \<longleftrightarrow> 0 \<le> g_system_timer c \<and> g_system_timer c < 2 ^ 32 \<and> valid_ts (g_basetime c)"

text \<open>The range of the time of day, \<open>2 ^ 32\<close> seconds.\<close>

abbreviation EPOCH :: int where "EPOCH \<equiv> 2 ^ 32 * 1000000000"

lemmas clock_consts = NSEC_PER_SEC_def NSEC_PER_TICK_def TICK_PER_SEC_def TICK2MSEC_def CLOCK_REALTIME_def

lemma int32_small: "- 2147483648 \<le> x \<Longrightarrow> x < 2147483648 \<Longrightarrow> int32 x = x"
  by (rule sint_cast_id) auto

lemma int64_small: "- 9223372036854775808 \<le> x \<Longrightarrow> x < 9223372036854775808 \<Longrightarrow> int64 x = x"
  by (rule sint_cast_id) auto

lemma nsec_wrap:
  assumes "0 \<le> n" "n < 1000000000"
  shows "uint32 s * 1000000000 + n = (s * 1000000000 + n) mod EPOCH"
proof -
  have "(s * 1000000000 + n) mod (1000000000 * 2 ^ 32) =
      1000000000 * ((s * 1000000000 + n) div 1000000000 mod 2 ^ 32) + (s * 1000000000 + n) mod 1000000000"
    by (rule zmod_zmult2_eq) simp
  moreover have "(s * 1000000000 + n) div 1000000000 = s" "(s * 1000000000 + n) mod 1000000000 = n" using assms by simp_all
  ultimately show ?thesis by (simp add: uint_cast_def mult.commute)
qed

lemma nsecs_range: "valid_ts ts \<Longrightarrow> 0 \<le> nsecs ts \<and> nsecs ts < EPOCH"
  by (auto simp: valid_ts_def nsecs_def)

lemma systime_timespec_spec:
  assumes "0 \<le> g_system_timer c" "g_system_timer c < 2 ^ 32"
  shows "valid_ts (clock_systime_timespec c) \<and> nsecs (clock_systime_timespec c) = g_system_timer c * 10000000"
proof -
  define m where "m = g_system_timer c * 10"
  have s: "0 \<le> m div 1000" "m div 1000 < 2 ^ 32" using assms by (auto simp: m_def pos_imp_zdiv_nonneg_iff)
  have n: "m - m div 1000 * 1000 = m mod 1000" "0 \<le> m mod 1000" "m mod 1000 < 1000" by (simp_all add: minus_div_mult_eq_mod)
  have "clock_systime_timespec c = \<lparr>tv_sec = m div 1000, tv_nsec = m mod 1000 * 1000000\<rparr>"
    unfolding clock_systime_timespec_def clock_consts clock_systime_ticks_def Let_def m_def [symmetric] n(1)
    using s n by (simp add: uint_cast_id int32_small)
  moreover have "m div 1000 * 1000000000 + m mod 1000 * 1000000 = g_system_timer c * 10000000"
    using div_mult_mod_eq [of m 1000] unfolding m_def by linarith
  ultimately show ?thesis using s n by (simp add: valid_ts_def nsecs_def)
qed

lemma gettime_spec:
  assumes "clock_ok c"
  shows "\<exists>ts. clock_gettime CLOCK_REALTIME c = Inr ts \<and> valid_ts ts \<and>
    nsecs ts = (nsecs (g_basetime c) + g_system_timer c * 10000000) mod EPOCH"
proof -
  define ts where "ts = clock_systime_timespec c"
  define S where "S = tv_sec ts + tv_sec (g_basetime c)"
  define N where "N = tv_nsec ts + tv_nsec (g_basetime c)"
  have v: "valid_ts ts" "nsecs ts = g_system_timer c * 10000000" "valid_ts (g_basetime c)"
    using systime_timespec_spec [of c] assms by (auto simp: clock_ok_def ts_def)
  have N: "0 \<le> N" "N < 2000000000" using v by (auto simp: N_def valid_ts_def)
  have sum: "nsecs (g_basetime c) + g_system_timer c * 10000000 = S * 1000000000 + N"
    using v(2) by (simp add: nsecs_def S_def N_def)
  have cast: "int32 (tv_nsec ts + uint32 (tv_nsec (g_basetime c))) = N" "uint32 (tv_sec ts + uint32 (tv_sec (g_basetime c))) = uint32 S"
    using v N by (simp_all add: valid_ts_def uint_cast_id int32_small N_def S_def)
  show ?thesis
  proof (cases "N \<ge> 1000000000")
    case True
    then have "N div 1000000000 = 1" using N by simp
    then have "clock_gettime CLOCK_REALTIME c = Inr \<lparr>tv_sec = uint32 (S + 1), tv_nsec = N - 1000000000\<rparr>"
      using True N cast unfolding clock_gettime_def ts_def [symmetric]
      by (simp add: clock_consts Let_def uint_cast_id int32_small) (simp add: uint_cast_def mod_simps)
    then show ?thesis using nsec_wrap [of "N - 1000000000" "S + 1"] True N uint_cast_bounds [of 32 "S + 1"] sum
      by (simp add: nsecs_def valid_ts_def algebra_simps)
  next
    case False
    then have "clock_gettime CLOCK_REALTIME c = Inr \<lparr>tv_sec = uint32 S, tv_nsec = N\<rparr>"
      using cast unfolding clock_gettime_def ts_def [symmetric] by (simp add: clock_consts Let_def)
    then show ?thesis using nsec_wrap [of N S] False N uint_cast_bounds [of 32 S] sum by (simp add: nsecs_def valid_ts_def)
  qed
qed

lemma settime_spec:
  assumes "clock_ok c" "valid_ts tp"
  shows "\<exists>c'. clock_settime CLOCK_REALTIME tp c = Inr c' \<and> clock_ok c' \<and> g_system_timer c' = g_system_timer c \<and>
    nsecs (g_basetime c') = (nsecs tp - g_system_timer c * 10000000) mod EPOCH"
proof -
  define b where "b = clock_systime_timespec c"
  have b: "valid_ts b" "nsecs b = g_system_timer c * 10000000" using systime_timespec_spec [of c] assms(1) by (auto simp: clock_ok_def b_def)
  define S where "S = tv_sec tp - tv_sec b - (if tv_nsec tp < tv_nsec b then 1 else 0)"
  define N where "N = tv_nsec tp - tv_nsec b + (if tv_nsec tp < tv_nsec b then 1000000000 else 0)"
  have N: "0 \<le> N" "N < 1000000000" using b(1) assms(2) by (auto simp: N_def valid_ts_def)
  have "uint32 (uint32 x - y) = uint32 (x - y)" for x y by (simp add: uint_cast_def mod_simps)
  then have "clock_settime CLOCK_REALTIME tp c = Inr (c\<lparr>g_basetime := \<lparr>tv_sec = uint32 S, tv_nsec = N\<rparr>\<rparr>)"
    using b(1) assms(2) unfolding clock_settime_def b_def [symmetric] S_def N_def valid_ts_def
    by (auto simp: clock_consts Let_def int32_small algebra_simps)
  moreover have "uint32 S * 1000000000 + N = (nsecs tp - g_system_timer c * 10000000) mod EPOCH"
    using nsec_wrap [OF N, of S] b(2) by (simp add: nsecs_def S_def N_def algebra_simps)
  ultimately show ?thesis using assms(1) N uint_cast_bounds [of 32 S] by (simp add: clock_ok_def valid_ts_def nsecs_def)
qed

lemma clock_ticks:
  assumes "clock_ok c" "g_system_timer c + int n < 2 ^ 32"
  shows "clock_ok ((clock_timer ^^ n) c) \<and> g_system_timer ((clock_timer ^^ n) c) = g_system_timer c + int n \<and>
    g_basetime ((clock_timer ^^ n) c) = g_basetime c"
  using assms by (induction n) (auto simp: clock_ok_def clock_timer_def uint_cast_id)

section \<open>Time and ticks\<close>

lemma time2ticks_spec:
  assumes "valid_ts r"
  shows "clock_time2ticks r = int32 ((nsecs r + 9999999) div 10000000)"
proof -
  have r: "int64 (nsecs r) = nsecs r" "int64 (nsecs r + 10000000 - 1) = nsecs r + 9999999" "0 \<le> nsecs r + 9999999"
    using nsecs_range [OF assms] by (auto simp: int64_small)
  show ?thesis
    unfolding clock_time2ticks_def clock_consts Let_def nsecs_def [symmetric] r(1,2) by (simp add: sdiv_pos [OF r(3)])
qed

lemma ticks2time_spec:
  assumes "0 \<le> t" "t < 2 ^ 31"
  shows "valid_ts (clock_ticks2time t) \<and> nsecs (clock_ticks2time t) = t * 10000000"
proof -
  have s: "0 \<le> t div 100" "t div 100 < 2 ^ 32" using assms by (auto simp: pos_imp_zdiv_nonneg_iff)
  have n: "t - 100 * (t div 100) = t mod 100" "0 \<le> t mod 100" "t mod 100 < 100" by (simp_all add: minus_mult_div_eq_mod)
  have "clock_ticks2time t = \<lparr>tv_sec = t div 100, tv_nsec = t mod 100 * 10000000\<rparr>"
    unfolding clock_ticks2time_def clock_consts Let_def sdiv_pos [OF assms(1), of 100, simplified] uint_cast_id [OF s] n(1)
    using n by (simp add: uint_cast_id int32_small)
  moreover have "t div 100 * 1000000000 + t mod 100 * 10000000 = t * 10000000"
    using div_mult_mod_eq [of t 100] by linarith
  ultimately show ?thesis using s n by (simp add: valid_ts_def nsecs_def)
qed

lemma ticks_roundtrip: "0 \<le> t \<Longrightarrow> t < 2 ^ 31 \<Longrightarrow> clock_time2ticks (clock_ticks2time t) = t"
  using time2ticks_spec [of "clock_ticks2time t"] ticks2time_spec [of t] by (simp add: int32_small)

lemma timespec_add_spec:
  assumes "valid_ts a" "valid_ts b"
  shows "valid_ts (clock_timespec_add a b) \<and> nsecs (clock_timespec_add a b) = (nsecs a + nsecs b) mod EPOCH"
proof -
  let ?S = "tv_sec a + tv_sec b" and ?N = "tv_nsec a + tv_nsec b"
  have N: "0 \<le> ?N" "?N < 2000000000" using assms by (auto simp: valid_ts_def)
  have u: "uint32 (uint32 ?S + 1) = uint32 (?S + 1)" by (simp add: uint_cast_def mod_simps)
  show ?thesis
    using N u nsec_wrap [of ?N ?S] nsec_wrap [of "?N - 1000000000" "?S + 1"] uint_cast_bounds [of 32 ?S] uint_cast_bounds [of 32 "?S + 1"]
    by (cases "?N \<ge> 1000000000")
      (simp_all add: clock_timespec_add_def clock_consts Let_def int32_small valid_ts_def nsecs_def algebra_simps)
qed

lemma timespec_subtract_spec:
  assumes "valid_ts a" "valid_ts b"
  shows "valid_ts (clock_timespec_subtract a b) \<and> nsecs (clock_timespec_subtract a b) = max 0 (nsecs a - nsecs b)"
  using assms by (auto simp: clock_timespec_subtract_def clock_consts Let_def valid_ts_def nsecs_def int32_small uint_cast_id)

lemma timespec_compare_spec:
  assumes "valid_ts a" "valid_ts b"
  shows "clock_timespec_compare a b < 0 \<longleftrightarrow> nsecs a < nsecs b"
  using assms by (auto simp: clock_timespec_compare_def valid_ts_def nsecs_def int32_small)

lemma abstime2ticks_spec:
  assumes "valid_ts a" "clock_gettime CLOCK_REALTIME c = Inr now" "valid_ts now"
  shows "clock_abstime2ticks CLOCK_REALTIME a c =
    Inr (if nsecs a < nsecs now then - 1 else int32 ((nsecs a - nsecs now + 9999999) div 10000000))"
proof (cases "nsecs a < nsecs now")
  case True
  then show ?thesis using assms timespec_compare_spec [OF assms(1,3)] by (simp add: clock_abstime2ticks_def)
next
  case False
  let ?n = "tv_nsec a - tv_nsec now" and ?s = "tv_sec a - tv_sec now"
  define r where "r = (if ?n < 0 then \<lparr>tv_sec = ?s - 1, tv_nsec = ?n + 1000000000\<rparr> else \<lparr>tv_sec = ?s, tv_nsec = ?n\<rparr>)"
  have r: "valid_ts r" "nsecs r = nsecs a - nsecs now"
    using False assms(1,3) by (auto simp: r_def valid_ts_def nsecs_def)
  have "clock_abstime2ticks CLOCK_REALTIME a c = Inr (clock_time2ticks r)"
    using False assms timespec_compare_spec [OF assms(1,3)]
    by (auto simp: clock_abstime2ticks_def Let_def r_def valid_ts_def nsecs_def int32_small uint_cast_id clock_consts)
  then show ?thesis using False time2ticks_spec [OF r(1)] r(2) by simp
qed

section \<open>Property\<close>

text \<open>
  C35. After the time of day is set, every later reading is the set time plus one tick for each timer
  interrupt since, until the tick counter wraps around; seconds are counted modulo \<open>2 ^ 32\<close>.
\<close>

theorem clock_keeps_time:
  assumes "clock_ok c" "valid_ts tp" "g_system_timer c + int n < 2 ^ 32"
  shows "\<exists>c' ts. clock_settime CLOCK_REALTIME tp c = Inr c' \<and> clock_gettime CLOCK_REALTIME ((clock_timer ^^ n) c') = Inr ts \<and>
    valid_ts ts \<and> nsecs ts = (nsecs tp + int n * 10000000) mod EPOCH"
proof -
  obtain c' where c': "clock_settime CLOCK_REALTIME tp c = Inr c'" "clock_ok c'" "g_system_timer c' = g_system_timer c"
    "nsecs (g_basetime c') = (nsecs tp - g_system_timer c * 10000000) mod EPOCH" using settime_spec [OF assms(1,2)] by blast
  then have k: "clock_ok ((clock_timer ^^ n) c')" "g_system_timer ((clock_timer ^^ n) c') = g_system_timer c + int n"
    "g_basetime ((clock_timer ^^ n) c') = g_basetime c'" using clock_ticks [OF c'(2), of n] assms(3) by auto
  from gettime_spec [OF k(1)] obtain ts where ts: "clock_gettime CLOCK_REALTIME ((clock_timer ^^ n) c') = Inr ts" "valid_ts ts"
    "nsecs ts = (nsecs (g_basetime c') + (g_system_timer c + int n) * 10000000) mod EPOCH" using k(2,3) by auto
  have "nsecs ts = (nsecs tp + int n * 10000000) mod EPOCH"
    unfolding ts(3) c'(4) mod_add_left_eq by (rule arg_cong [where f = "\<lambda>x. x mod EPOCH"]) (simp add: algebra_simps)
  then show ?thesis using c'(1) ts by blast
qed

theorem clock_keeps_time_witness:
  "\<exists>c' ts. clock_settime CLOCK_REALTIME \<lparr>tv_sec = 1394409600, tv_nsec = 995000000\<rparr> sysclock_start = Inr c' \<and>
     clock_gettime CLOCK_REALTIME ((clock_timer ^^ 250) c') = Inr ts \<and> nsecs ts = 1394409603495000000"
  using clock_keeps_time [of sysclock_start "\<lparr>tv_sec = 1394409600, tv_nsec = 995000000\<rparr>" 250]
  by (simp add: sysclock_start_def clock_ok_def valid_ts_def nsecs_def del: funpow.simps) blast

end
