(* ===== verification/Sem_Timed.thy ===== *)
theory Sem_Timed
  imports Sem_Theorems Wdog_Theorems Clock
begin

text \<open>
  Waiting for a semaphore with a timeout (\<open>nxsem_tickwait\<close>) and the timer interrupt
  (\<open>nxsched_process_timer\<close>), which brings together the scheduler, the semaphores, the PID table and
  the watchdog timers.

  The only watchdog function of the model is \<open>nxsem_timeout\<close>.  It changes the scheduler and the
  semaphores and no watchdog, while the expiry of watchdogs changes nothing else; so the functions
  of the watchdogs that expire at a tick are executed after \<open>wd_timer\<close>, in the order of their calls.
\<close>

section \<open>Definitions\<close>

datatype wd_function = Nxsem_timeout

record tkernel = kernel +
  kwdogs :: "wd_function wdogs"
  waitdog :: "nat \<Rightarrow> wdog option"
  kclock :: sysclock

definition getpid :: "'a kernel_scheme \<Rightarrow> int" where
  "getpid k =
     (case this_task (ksched k) of
        None \<Rightarrow> 0
      | Some rtcb \<Rightarrow> if task_state (ksched k) rtcb = TSTATE_TASK_RUNNING then tcb_pid (kpids k) rtcb else - ESRCH)"

definition set_waitdog :: "nat \<Rightarrow> wdog option \<Rightarrow> tkernel \<Rightarrow> tkernel" where
  "set_waitdog t w k = k\<lparr>waitdog := (waitdog k)(t := w)\<rparr>"

text \<open>The exit of \<open>nxsem_tickwait\<close>: the watchdog is deleted.\<close>

definition tickwait_exit :: "nat \<Rightarrow> int \<Rightarrow> tkernel \<Rightarrow> (int option \<times> tkernel) option" where
  "tickwait_exit rtcb ret k =
     do { w \<leftarrow> waitdog k rtcb;
          (_, _, wd) \<leftarrow> wd_delete w (kwdogs k);
          Some (Some ret, set_waitdog rtcb None (k\<lparr>kwdogs := wd\<rparr>)) }"

text \<open>The end of the blocking wait: the watchdog is stopped when the semaphore was obtained.\<close>

definition tickwait_waited :: "nat \<Rightarrow> int \<Rightarrow> tkernel \<Rightarrow> (int option \<times> tkernel) option" where
  "tickwait_waited rtcb ret k =
     (if ret < 0 then tickwait_exit rtcb ret k
      else do { (_, wd) \<leftarrow> wd_cancel (waitdog k rtcb) (kwdogs k);
                tickwait_exit rtcb ret (k\<lparr>kwdogs := wd\<rparr>) })"

text \<open>\<open>mem\<close> is the result of \<open>kmm_malloc\<close> in \<open>wd_create\<close>; the delay is unsigned, that of \<open>wd_start\<close> signed.\<close>

definition nxsem_tickwait ::
    "wdog option \<Rightarrow> nat option \<Rightarrow> int \<Rightarrow> int \<Rightarrow> tkernel \<Rightarrow> (int option \<times> tkernel) option" where
  "nxsem_tickwait mem sem start delay k =
     do {
       rtcb \<leftarrow> this_task (ksched k);
       let (dog, wd) = wd_create False mem (kwdogs k);
       let k1 = set_waitdog rtcb dog (k\<lparr>kwdogs := wd\<rparr>);
       case dog of
         None \<Rightarrow> Some (Some (- ENOMEM), k1)
       | Some w \<Rightarrow>
           do {
             (ret, k2) \<leftarrow> nxsem_trywait sem k1;
             let elapsed = uint32 (clock_systime_ticks (kclock k2) - start);
             if ret = 0 \<or> delay = 0 then tickwait_exit rtcb ret k2
             else if elapsed \<ge> delay then tickwait_exit rtcb (- ETIMEDOUT) k2
             else do {
               (_, wd2) \<leftarrow> wd_start (Some w) (int32 (uint32 (delay - elapsed))) Nxsem_timeout 1 [getpid k2] (kwdogs k2);
               (r, k3) \<leftarrow> nxsem_wait sem (k2\<lparr>kwdogs := wd2\<rparr>);
               case r of
                 None \<Rightarrow> Some (None, k3)
               | Some ret \<Rightarrow> tickwait_waited rtcb ret k3 } } }"

definition nxsem_tickwait_resume :: "nat \<Rightarrow> tkernel \<Rightarrow> (int option \<times> tkernel) option" where
  "nxsem_tickwait_resume rtcb k = tickwait_waited rtcb (nxsem_wait_resume rtcb k) k"

definition nxsem_tickwait_uninterruptible_resume ::
    "nat \<Rightarrow> wdog option \<Rightarrow> nat option \<Rightarrow> int \<Rightarrow> int \<Rightarrow> tkernel \<Rightarrow> (int option \<times> tkernel) option" where
  "nxsem_tickwait_uninterruptible_resume rtcb mem sem start delay k =
     do { (r, k1) \<leftarrow> nxsem_tickwait_resume rtcb k;
          if r = Some (- EINTR) then nxsem_tickwait mem sem start delay k1 else Some (r, k1) }"

text \<open>The functions of the watchdogs that expired.\<close>

fun run_calls :: "wd_function wd_call list \<Rightarrow> tkernel \<Rightarrow> tkernel option" where
  "run_calls [] k = Some k"
| "run_calls (c # cs) k = do { k1 \<leftarrow> nxsem_timeout (fst (call_parms c)) k; run_calls cs k1 }"

definition no_requests :: "wd_function wd_code" where
  "no_requests f argc parms st = []"

definition nxsched_process_timer :: "tkernel \<Rightarrow> tkernel option" where
  "nxsched_process_timer k =
     do {
       let k1 = k\<lparr>kclock := clock_timer (kclock k)\<rparr>;
       s \<leftarrow> nxsched_process_scheduler (ksched k1);
       (calls, wd) \<leftarrow> wd_timer no_requests (kwdogs k1);
       run_calls calls (k1\<lparr>ksched := s, kwdogs := wd\<rparr>)
     }"

fun timer_ticks :: "nat \<Rightarrow> tkernel \<Rightarrow> tkernel option" where
  "timer_ticks 0 k = Some k"
| "timer_ticks (Suc n) k = do { k1 \<leftarrow> nxsched_process_timer k; timer_ticks n k1 }"

section \<open>The watchdogs of one tick\<close>

lemma loop_no_requests:
  assumes "wd_expire_loop no_requests st tr0 = Some y" "\<forall>c \<in> set tr0. call_reqs c = []"
  shows "\<forall>c \<in> set (fst y). call_reqs c = []"
proof -
  have "code = no_requests \<longrightarrow> (\<forall>c \<in> set tr0. call_reqs c = []) \<longrightarrow> (\<forall>c \<in> set (fst y). call_reqs c = [])"
    if "wd_expire_loop code st tr0 = Some y" for code st tr0 y
  proof (rule wd_expire_loop.raw_induct [where P = "\<lambda>code st tr0 y. code = no_requests \<longrightarrow>
      (\<forall>c \<in> set tr0. call_reqs c = []) \<longrightarrow> (\<forall>c \<in> set (fst y). call_reqs c = [])", OF _ that], goal_cases)
    case (1 loop code st tr0 y)
    have step: "\<forall>c \<in> set (fst y). call_reqs c = []"
      if "loop code st4 (tr0 @ [wd_called code w st3]) = Some y" "code = no_requests" "\<forall>c \<in> set tr0. call_reqs c = []"
      for st4 st3 w
      using 1(1) [OF that(1)] that(2,3) by (simp add: wd_called_def no_requests_def Let_def)
    show ?case using 1(2) step by (auto simp: Let_def bind_eq_Some_conv split: option.splits if_splits prod.splits)
  qed
  from this [OF assms(1)] assms(2) show ?thesis by simp
qed

lemma timer_no_requests:
  assumes "wd_timer no_requests st = Some (tr, st')" "c \<in> set tr"
  shows "call_reqs c = []"
  using assms loop_no_requests [of _ "[]" "(tr, st')"]
  by (auto simp: wd_timer_def wd_expiration_def bind_eq_Some_conv split: option.splits if_splits)

text \<open>
  Each watchdog with one tick left is called once, with its arguments; the others have one tick
  less.
\<close>

lemma timers_dom: "(v, t) \<in> set (timers st ws) \<Longrightarrow> v \<in> set ws"
  by (metis fst_timers fst_conv image_eqI set_map)

lemma timer_due_unique:
  assumes "wd_inv st ws fs" "(v, t) \<in> set (timers st ws)" "(v, t') \<in> set (timers st ws)"
  shows "t = t'"
proof -
  have "distinct (map fst (timers st ws))" using wd_invD(7) [OF assms(1)] by simp
  then show ?thesis using assms(2,3) by (rule eq_key_imp_eq_value)
qed

lemma wd_tick:
  assumes inv: "wd_inv st ws fs" and run: "running st ws"
  shows "\<exists>tr st' ws'. wd_timer no_requests st = Some (tr, st') \<and> wd_inv st' ws' fs \<and> running st' ws' \<and>
    (\<forall>c \<in> set tr. (call_wdog c, 1) \<in> set (timers st ws) \<and> calls_armed st (call_wdog c) c) \<and>
    (\<forall>v. (v, 1) \<in> set (timers st ws) \<longrightarrow> v \<notin> set ws' \<and> (\<exists>c \<in> set tr. call_wdog c = v)) \<and>
    (\<forall>v t. (v, t) \<in> set (timers st' ws') \<longrightarrow> (v, t + 1) \<in> set (timers st ws) \<and> armed st' v = armed st v) \<and>
    (\<forall>v t. (v, t + 1) \<in> set (timers st ws) \<and> t \<noteq> 0 \<longrightarrow> (v, t) \<in> set (timers st' ws'))"
proof -
  have ok: "code_ok fs no_requests" by (simp add: code_ok_def no_requests_def)
  obtain tr st' ws' where t: "wd_timer no_requests st = Some (tr, st')" "wd_inv st' ws' fs" "running st' ws'"
    "tick_post st ws tr st' ws'"
    using wd_timer_spec [OF inv run ok] by blast
  have "touched tr = {}" using timer_no_requests [OF t(1)] by (auto simp: touched_def)
  then have post: "if (v, 1) \<in> set (timers st ws) then fires st v tr \<and> v \<notin> set ws'
      else calls_of v tr = [] \<and> armed st' v = armed st v \<and>
        (\<forall>t. (v, t) \<in> set (timers st' ws') \<longleftrightarrow> (v, t + 1) \<in> set (timers st ws))" for v
    using t(4) unfolding tick_post_def by blast
  have calls: "(call_wdog c, 1) \<in> set (timers st ws) \<and> calls_armed st (call_wdog c) c" if "c \<in> set tr" for c
  proof -
    have c: "c \<in> set (calls_of (call_wdog c) tr)" using that by (simp add: calls_of_def)
    then have "(call_wdog c, 1) \<in> set (timers st ws)" using post [of "call_wdog c"] by (auto split: if_splits)
    then show ?thesis using c post [of "call_wdog c"] by (auto simp: fires_def)
  qed
  have fired: "v \<notin> set ws' \<and> (\<exists>c \<in> set tr. call_wdog c = v)" if one: "(v, 1) \<in> set (timers st ws)" for v
  proof -
    obtain c where "calls_of v tr = [c]" "v \<notin> set ws'" using post [of v] one by (auto simp: fires_def)
    then have "c \<in> set (calls_of v tr)" "v \<notin> set ws'" by simp_all
    then show ?thesis by (auto simp: calls_of_def)
  qed
  have old: "(v, t) \<in> set (timers st' ws') \<longrightarrow> (v, t + 1) \<in> set (timers st ws) \<and> armed st' v = armed st v" for v t
    using post [of v] timers_dom [of v t st' ws'] by (cases "(v, 1) \<in> set (timers st ws)") auto
  have "(v, t + 1) \<in> set (timers st ws) \<and> t \<noteq> 0 \<longrightarrow> (v, t) \<in> set (timers st' ws')" for v t
    using post [of v] timer_due_unique [OF inv, of v 1 "t + 1"] by (cases "(v, 1) \<in> set (timers st ws)") auto
  then show ?thesis using t(1-3) calls fired old by blast
qed

section \<open>The functions of one tick\<close>

text \<open>\<open>rest\<close> is what neither the scheduler nor the semaphores touch.\<close>

definition same_rest :: "tkernel \<Rightarrow> tkernel \<Rightarrow> bool" where
  "same_rest k k' \<longleftrightarrow> kpids k' = kpids k \<and> kwdogs k' = kwdogs k \<and> waitdog k' = waitdog k \<and> kclock k' = kclock k"

lemma same_rest_refl [simp]: "same_rest k k"
  by (simp add: same_rest_def)

lemma same_rest_trans: "same_rest k k' \<Longrightarrow> same_rest k' k'' \<Longrightarrow> same_rest k k''"
  by (simp add: same_rest_def)

lemma wait_irq_rest: "nxsem_wait_irq t e k = Some k' \<Longrightarrow> same_rest k k'"
  by (auto simp: nxsem_wait_irq_def same_rest_def set_errcode_def set_waitsem_def set_semcount_def Let_def bind_eq_Some_conv
      split: if_splits)

lemma wait_irq_others: "nxsem_wait_irq t e k = Some k' \<Longrightarrow> v \<noteq> t \<Longrightarrow> waitsem k' v = waitsem k v \<and> errcode k' v = errcode k v"
  by (auto simp: nxsem_wait_irq_def Let_def bind_eq_Some_conv split: if_splits)

lemma waiting_iff:
  assumes "sem_sys idle k q C"
  shows "waitsem k t \<noteq> None \<longleftrightarrow> t \<in> C \<and> task_state (ksched k) t = TSTATE_WAIT_SEM"
proof -
  note D = sem_sysD [OF assms]
  have "waitsem k t \<noteq> None \<longleftrightarrow> t \<in> set (q W)" using D(3) sem_invD(5) [OF D(1)] by auto
  then show ?thesis using set_waiting [OF D(7)] D(2) by auto
qed

text \<open>What a timeout for PID \<open>pid\<close> means for a task \<open>t\<close>.\<close>

definition timed_out :: "int \<Rightarrow> nat \<Rightarrow> tkernel \<Rightarrow> bool" where
  "timed_out pid t k \<longleftrightarrow> int16 pid = tcb_pid (kpids k) t \<and> waitsem k t \<noteq> None"

lemma nxsem_timeout_spec:
  assumes sys: "sem_sys idle k q C"
  shows "\<exists>k' q'. nxsem_timeout pid k = Some k' \<and> sem_sys idle k' q' C \<and> same_rest k k' \<and>
    (\<forall>t \<in> C. if timed_out pid t k then waitsem k' t = None \<and> errcode k' t = ETIMEDOUT
       else waitsem k' t = waitsem k t \<and> errcode k' t = errcode k t)"
proof -
  note D = sem_sysD [OF sys]
  have un: "nxsched_get_tcb (int16 pid) (kpids k) = Some t" if "t \<in> C" "timed_out pid t k" for t
    using that get_tcb_live [OF D(5)] D(6) by (simp add: timed_out_def)
  show ?thesis
  proof (cases "nxsched_get_tcb (int16 pid) (kpids k)")
    case None
    then show ?thesis using sys un by (intro exI [of _ k] exI [of _ q]) (auto simp: nxsem_timeout_def)
  next
    case (Some u)
    have u: "u \<in> C" "tcb_pid (kpids k) u = int16 pid" using get_tcb_live [OF D(5)] D(6) Some by auto
    show ?thesis
    proof (cases "task_state (ksched k) u = TSTATE_WAIT_SEM")
      case False
      then have "\<not> timed_out pid t k" if "t \<in> C" for t
        using un [OF that] Some waiting_iff [OF sys, of t] by (auto simp: timed_out_def)
      then show ?thesis using Some False sys by (intro exI [of _ k] exI [of _ q]) (auto simp: nxsem_timeout_def)
    next
      case True
      obtain k' q' where k': "nxsem_wait_irq u ETIMEDOUT k = Some k'" "sem_sys idle k' q' C"
        "errcode k' u = ETIMEDOUT" "waitsem k' u = None"
        using step_irq [OF sys, of ETIMEDOUT u] u(1) True by auto
      have "timed_out pid u k" using u waiting_iff [OF sys, of u] True by (simp add: timed_out_def)
      moreover have "\<not> timed_out pid t k" if "t \<in> C" "t \<noteq> u" for t using un [OF that(1)] Some that(2) by auto
      ultimately have "\<forall>t \<in> C. if timed_out pid t k then waitsem k' t = None \<and> errcode k' t = ETIMEDOUT
           else waitsem k' t = waitsem k t \<and> errcode k' t = errcode k t"
        using k'(3,4) wait_irq_others [OF k'(1)] by metis
      then show ?thesis using k'(1,2) wait_irq_rest [OF k'(1)] Some True
        by (intro exI [of _ k'] exI [of _ q']) (simp add: nxsem_timeout_def)
    qed
  qed
qed

lemma run_calls_spec:
  assumes "sem_sys idle k q C"
  shows "\<exists>k' q'. run_calls cs k = Some k' \<and> sem_sys idle k' q' C \<and> same_rest k k' \<and>
    (\<forall>t \<in> C. if \<exists>c \<in> set cs. timed_out (fst (call_parms c)) t k then waitsem k' t = None \<and> errcode k' t = ETIMEDOUT
       else waitsem k' t = waitsem k t \<and> errcode k' t = errcode k t)"
  using assms
proof (induction cs arbitrary: k q)
  case Nil
  then show ?case by auto
next
  case (Cons c cs)
  let ?p = "fst (call_parms c)"
  obtain k1 q1 where k1: "nxsem_timeout ?p k = Some k1" "sem_sys idle k1 q1 C" "same_rest k k1"
    "\<forall>t \<in> C. if timed_out ?p t k then waitsem k1 t = None \<and> errcode k1 t = ETIMEDOUT
       else waitsem k1 t = waitsem k t \<and> errcode k1 t = errcode k t"
    using nxsem_timeout_spec [OF Cons.prems, of ?p] by blast
  obtain k' q' where k': "run_calls cs k1 = Some k'" "sem_sys idle k' q' C" "same_rest k1 k'"
    "\<forall>t \<in> C. if \<exists>c \<in> set cs. timed_out (fst (call_parms c)) t k1 then waitsem k' t = None \<and> errcode k' t = ETIMEDOUT
       else waitsem k' t = waitsem k1 t \<and> errcode k' t = errcode k1 t"
    using Cons.IH [OF k1(2)] by blast
  have "if \<exists>c \<in> set (c # cs). timed_out (fst (call_parms c)) t k then waitsem k' t = None \<and> errcode k' t = ETIMEDOUT
       else waitsem k' t = waitsem k t \<and> errcode k' t = errcode k t" if t: "t \<in> C" for t
  proof (cases "timed_out ?p t k")
    case True
    then have "waitsem k1 t = None" "errcode k1 t = ETIMEDOUT" using k1(4) t by auto
    moreover from this have "\<not> (\<exists>c \<in> set cs. timed_out (fst (call_parms c)) t k1)" by (simp add: timed_out_def)
    ultimately show ?thesis using k'(4) t True by auto
  next
    case False
    then have e: "waitsem k1 t = waitsem k t" "errcode k1 t = errcode k t" using k1(4) t by auto
    then have "timed_out p t k1 = timed_out p t k" for p using k1(3) by (simp add: timed_out_def same_rest_def)
    then show ?thesis using k'(4) t False e by auto
  qed
  then show ?case using k1(1) k'(1,2) same_rest_trans [OF k1(3) k'(3)] by (intro exI [of _ k'] exI [of _ q']) simp
qed

section \<open>Ticks until the timeout\<close>

lemma process_scheduler_sys:
  fixes k :: "'a kernel_scheme"
  assumes sys: "sem_sys idle k q C"
  shows "\<exists>s q'. nxsched_process_scheduler (ksched k) = Some s \<and> sem_sys idle (k\<lparr>ksched := s\<rparr>) q' C"
proof -
  note D = sem_sysD [OF sys]
  let ?r = "hd (q G_readytorun)"
  have th: "this_task (ksched k) = Some ?r" by (rule running_not_waiting(3) [OF D(1)])
  obtain ret s q' where s: "nxsched_process_roundrobin ?r 1 False (ksched k) = Some (ret, s)" "sched_ok s q' idle"
    "same_tcb (ksched k) s" "listed q' = listed q" "only_ready q q'"
    using roundrobin_ok [OF D(7) refl] by blast
  have "set (q' W) = set (q W)" using s(5) by (simp add: only_ready_def)
  moreover have "0 \<le> lockcount s t" for t using D(4) s(3) by (simp add: same_tcb_def)
  ultimately have "sem_sys idle (k\<lparr>ksched := s, kpids := kpids k\<rparr>) q' C"
    using sem_sys_sched [OF sys s(2) _ _ _ D(5,6)] s(4) D(2) by simp
  then show ?thesis using th s(1) sys by (cases "sched_rr (ksched k) ?r") (auto simp: nxsched_process_scheduler_def)
qed

text \<open>
  Task \<open>t\<close> waits for semaphore \<open>m\<close>; its watchdog \<open>w\<close> is the only one armed for its PID and expires in
  \<open>n + 1\<close> ticks.
\<close>

definition timed_sys :: "nat \<Rightarrow> tkernel \<Rightarrow> nat set \<Rightarrow> wdog list \<Rightarrow> wdog list \<Rightarrow> bool" where
  "timed_sys idle k C ws fs \<longleftrightarrow> (\<exists>q. sem_sys idle k q C) \<and> wd_inv (kwdogs k) ws fs \<and> running (kwdogs k) ws"

definition armed_for :: "tkernel \<Rightarrow> wdog \<Rightarrow> nat \<Rightarrow> bool" where
  "armed_for k w t \<longleftrightarrow> int16 (wd_parm (kwdogs k) w 0) = tcb_pid (kpids k) t"

definition timed_wait ::
    "nat \<Rightarrow> tkernel \<Rightarrow> nat set \<Rightarrow> wdog list \<Rightarrow> wdog list \<Rightarrow> nat \<Rightarrow> wdog \<Rightarrow> nat \<Rightarrow> nat \<Rightarrow> bool" where
  "timed_wait idle k C ws fs t w m n \<longleftrightarrow>
     timed_sys idle k C ws fs \<and> t \<in> C \<and> waitsem k t = Some m \<and> waitdog k t = Some w \<and> w \<notin> set fs \<and>
     (w, int n + 1) \<in> set (timers (kwdogs k) ws) \<and> armed_for k w t \<and> (\<forall>v \<in> set ws. v \<noteq> w \<longrightarrow> \<not> armed_for k v t)"

lemma timer_tick:
  assumes sys: "timed_sys idle k C ws fs"
  shows "\<exists>k' ws'. nxsched_process_timer k = Some k' \<and> timed_sys idle k' C ws' fs \<and>
    kpids k' = kpids k \<and> waitdog k' = waitdog k \<and>
    (\<forall>t \<in> C. if \<exists>v. (v, 1) \<in> set (timers (kwdogs k) ws) \<and> armed_for k v t \<and> waitsem k t \<noteq> None
       then waitsem k' t = None \<and> errcode k' t = ETIMEDOUT
       else waitsem k' t = waitsem k t \<and> errcode k' t = errcode k t) \<and>
    (\<forall>v n. (v, n) \<in> set (timers (kwdogs k') ws') \<longrightarrow>
       (v, n + 1) \<in> set (timers (kwdogs k) ws) \<and> armed (kwdogs k') v = armed (kwdogs k) v) \<and>
    (\<forall>v n. (v, n + 1) \<in> set (timers (kwdogs k) ws) \<and> n \<noteq> 0 \<longrightarrow> (v, n) \<in> set (timers (kwdogs k') ws'))"
proof -
  obtain q where q: "sem_sys idle k q C" and wd: "wd_inv (kwdogs k) ws fs" "running (kwdogs k) ws"
    using sys by (auto simp: timed_sys_def)
  let ?k = "k\<lparr>kclock := clock_timer (kclock k)\<rparr>"
  have "sem_sys idle ?k q C" using q by (simp add: sem_sys_def sem_inv_def sem_waiters_def)
  then obtain s q1 where s: "nxsched_process_scheduler (ksched k) = Some s" "sem_sys idle (?k\<lparr>ksched := s\<rparr>) q1 C"
    using process_scheduler_sys [of idle ?k q C] by auto
  obtain tr st' ws' where t: "wd_timer no_requests (kwdogs k) = Some (tr, st')" "wd_inv st' ws' fs" "running st' ws'"
    "\<forall>c \<in> set tr. (call_wdog c, 1) \<in> set (timers (kwdogs k) ws) \<and> calls_armed (kwdogs k) (call_wdog c) c"
    "\<forall>v. (v, 1) \<in> set (timers (kwdogs k) ws) \<longrightarrow> v \<notin> set ws' \<and> (\<exists>c \<in> set tr. call_wdog c = v)"
    "\<forall>v t. (v, t) \<in> set (timers st' ws') \<longrightarrow> (v, t + 1) \<in> set (timers (kwdogs k) ws) \<and> armed st' v = armed (kwdogs k) v"
    "\<forall>v t. (v, t + 1) \<in> set (timers (kwdogs k) ws) \<and> t \<noteq> 0 \<longrightarrow> (v, t) \<in> set (timers st' ws')"
    using wd_tick [OF wd] by blast
  define k1 where "k1 = ?k\<lparr>ksched := s, kwdogs := st'\<rparr>"
  have f: "waitsem k1 = waitsem k" "errcode k1 = errcode k" "kpids k1 = kpids k" "waitdog k1 = waitdog k" "kwdogs k1 = st'"
    by (simp_all add: k1_def)
  have "sem_sys idle k1 q1 C" using s(2) by (simp add: k1_def sem_sys_def sem_inv_def sem_waiters_def)
  then obtain k' q' where k': "run_calls tr k1 = Some k'" "sem_sys idle k' q' C" "same_rest k1 k'"
    "\<forall>t \<in> C. if \<exists>c \<in> set tr. timed_out (fst (call_parms c)) t k1 then waitsem k' t = None \<and> errcode k' t = ETIMEDOUT
       else waitsem k' t = waitsem k t \<and> errcode k' t = errcode k t"
    using run_calls_spec [of idle k1 q1 C tr] f(1,2) by auto
  have to: "(\<exists>c \<in> set tr. timed_out (fst (call_parms c)) v k1) \<longleftrightarrow>
      (\<exists>w. (w, 1) \<in> set (timers (kwdogs k) ws) \<and> armed_for k w v \<and> waitsem k v \<noteq> None)" for v
    using t(4,5) unfolding timed_out_def armed_for_def calls_armed_def f by (metis fst_conv)
  have "nxsched_process_timer k = Some k'"
    using s(1) t(1) k'(1) by (simp add: nxsched_process_timer_def k1_def)
  moreover have "timed_sys idle k' C ws' fs" using k'(2,3) t(2,3) f(5) by (auto simp: timed_sys_def same_rest_def)
  ultimately show ?thesis using k'(3,4) t(6,7) f unfolding to same_rest_def
    by (intro exI [of _ k'] exI [of _ ws']) simp
qed

lemma timed_wait_step:
  assumes "timed_wait idle k C ws fs t w m (Suc n)"
  shows "\<exists>k' ws'. nxsched_process_timer k = Some k' \<and> timed_wait idle k' C ws' fs t w m n"
proof -
  have A: "timed_sys idle k C ws fs" "t \<in> C" "waitsem k t = Some m" "waitdog k t = Some w" "w \<notin> set fs"
    "(w, int (Suc n) + 1) \<in> set (timers (kwdogs k) ws)" "armed_for k w t" "\<forall>v \<in> set ws. v \<noteq> w \<longrightarrow> \<not> armed_for k v t"
    using assms by (auto simp: timed_wait_def)
  have inv: "wd_inv (kwdogs k) ws fs" using A(1) by (simp add: timed_sys_def)
  obtain k' ws' where k': "nxsched_process_timer k = Some k'" "timed_sys idle k' C ws' fs" "kpids k' = kpids k"
    "waitdog k' = waitdog k"
    "\<forall>t \<in> C. if \<exists>v. (v, 1) \<in> set (timers (kwdogs k) ws) \<and> armed_for k v t \<and> waitsem k t \<noteq> None
       then waitsem k' t = None \<and> errcode k' t = ETIMEDOUT
       else waitsem k' t = waitsem k t \<and> errcode k' t = errcode k t"
    "\<forall>v n. (v, n) \<in> set (timers (kwdogs k') ws') \<longrightarrow>
       (v, n + 1) \<in> set (timers (kwdogs k) ws) \<and> armed (kwdogs k') v = armed (kwdogs k) v"
    "\<forall>v n. (v, n + 1) \<in> set (timers (kwdogs k) ws) \<and> n \<noteq> 0 \<longrightarrow> (v, n) \<in> set (timers (kwdogs k') ws')"
    using timer_tick [OF A(1)] by blast
  have no: "\<not> (\<exists>v. (v, 1) \<in> set (timers (kwdogs k) ws) \<and> armed_for k v t \<and> waitsem k t \<noteq> None)"
    using A(8) timers_dom timer_due_unique [OF inv A(6)] by force
  have wt: "waitsem k' t = Some m" using bspec [OF k'(5) A(2)] A(3) unfolding if_not_P [OF no] by simp
  have tw: "(w, int n + 1) \<in> set (timers (kwdogs k') ws')" using k'(7) A(6) by (auto simp: add.commute)
  have old: "armed_for k' v t = armed_for k v t" if "(v, i) \<in> set (timers (kwdogs k') ws')" for v i
    using k'(3,6) that by (auto simp: armed_for_def armed_def)
  have "v \<in> fst ` set (timers (kwdogs k') ws')" if "v \<in> set ws'" for v
    using that by (metis fst_timers set_map)
  then have "\<forall>v \<in> set ws'. v \<noteq> w \<longrightarrow> \<not> armed_for k' v t"
    using old k'(6) A(8) timers_dom by fastforce
  then show ?thesis using k'(1,2,4) A(2,4,5,7) wt tw old [OF tw]
    by (intro exI [of _ k'] exI [of _ ws']) (simp add: timed_wait_def)
qed

lemma timed_wait_last:
  assumes "timed_wait idle k C ws fs t w m 0"
  shows "\<exists>k' ws'. nxsched_process_timer k = Some k' \<and> timed_sys idle k' C ws' fs \<and> waitsem k' t = None \<and>
    errcode k' t = ETIMEDOUT \<and> waitdog k' t = Some w \<and> w \<notin> set fs"
proof -
  have A: "timed_sys idle k C ws fs" "t \<in> C" "waitsem k t = Some m" "waitdog k t = Some w" "w \<notin> set fs"
    "(w, 1) \<in> set (timers (kwdogs k) ws)" "armed_for k w t"
    using assms by (auto simp: timed_wait_def)
  then have yes: "\<exists>v. (v, 1) \<in> set (timers (kwdogs k) ws) \<and> armed_for k v t \<and> waitsem k t \<noteq> None" by auto
  obtain k' ws' where k': "nxsched_process_timer k = Some k'" "timed_sys idle k' C ws' fs" "waitdog k' = waitdog k"
    "waitsem k' t = None \<and> errcode k' t = ETIMEDOUT"
    using timer_tick [OF A(1)] A(2) yes by metis
  then show ?thesis using A(4,5) by auto
qed

lemma timed_wait_ticks:
  assumes "timed_wait idle k C ws fs t w m n"
  shows "(\<forall>i \<le> n. \<exists>k'. timer_ticks i k = Some k' \<and> waitsem k' t = Some m) \<and>
    (\<exists>k' ws'. timer_ticks (Suc n) k = Some k' \<and> timed_sys idle k' C ws' fs \<and> waitsem k' t = None \<and>
       errcode k' t = ETIMEDOUT \<and> waitdog k' t = Some w \<and> w \<notin> set fs)"
  using assms
proof (induction n arbitrary: k ws)
  case 0
  have "waitsem k t = Some m" using 0 by (simp add: timed_wait_def)
  then show ?case using timed_wait_last [OF 0] by fastforce
next
  case (Suc n)
  obtain k1 ws1 where k1: "nxsched_process_timer k = Some k1" "timed_wait idle k1 C ws1 fs t w m n"
    using timed_wait_step [OF Suc.prems] by blast
  have m: "waitsem k t = Some m" using Suc.prems by (simp add: timed_wait_def)
  note IH = Suc.IH [OF k1(2)]
  have "\<exists>k'. timer_ticks i k = Some k' \<and> waitsem k' t = Some m" if "i \<le> Suc n" for i
    using that m IH k1(1) by (cases i) auto
  then show ?case using IH k1(1) by simp
qed

lemma wd_delete_returns:
  assumes "wd_inv st ws fs" "w \<notin> set fs"
  shows "\<exists>freed st'. wd_delete w st = Some (0, freed, st')"
proof -
  obtain st1 ws1 where 1: "(if WDOG_ISACTIVE w st then map_option snd (wd_cancel (Some w) st) else Some st) = Some st1"
      "wd_inv st1 ws1 fs"
    using wd_stop_spec [OF assms(1), of w] by blast
  have "sq_list (free_q st1) fs" using wd_invD(2) [OF 1(2)] by (simp add: free_q_def)
  then obtain q where "sq_addlast w (free_q st1) = Some q" using sq_addlast_list [OF _ assms(2)] by blast
  then show ?thesis using 1(1) by (simp add: wd_delete_def ex_bool_eq)
qed

lemma tickwait_exit_returns:
  assumes "timed_sys idle k C ws fs" "waitdog k t = Some w" "w \<notin> set fs"
  shows "\<exists>k'. tickwait_exit t ret k = Some (Some ret, k') \<and> waitdog k' t = None"
  using wd_delete_returns [of "kwdogs k" ws fs w] assms
  by (auto simp: timed_sys_def tickwait_exit_def set_waitdog_def)

section \<open>The call\<close>

lemma wd_create_parm: "wd_parm (snd (wd_create irq mem st)) = wd_parm st"
  by (auto simp: wd_create_def set_free_q_def Let_def split: prod.splits option.splits)

lemma create_waitdog:
  assumes wd: "wd_inv st ws fs" "running st ws"
    and pool: "4 < length fs \<or> (\<exists>w. mem = Some w \<and> w \<notin> set ws \<and> PREALLOC_WDOGS \<le> w)"
  shows "\<exists>w st' fs'. wd_create False mem st = (Some w, st') \<and> wd_inv st' ws fs' \<and> running st' ws \<and> w \<notin> set fs' \<and> w \<notin> set ws \<and>
    timers st' ws = timers st ws \<and> wd_parm st' = wd_parm st"
proof -
  note D = wd_invD [OF wd(1)]
  obtain r st' where r: "wd_create False mem st = (r, st')" by (cases "wd_create False mem st")
  have p: "wd_parm st' = wd_parm st" using wd_create_parm [of False mem st] r by simp
  show ?thesis
  proof (cases "4 < length fs")
    case True
    then obtain w fs' where fs: "fs = w # fs'" by (cases fs) auto
    have "r = hd_opt fs \<and> wd_inv st' ws (tl fs) \<and> timers st' ws = timers st ws"
      using wd_create_pool [OF wd(1), of False mem] r True D(10) by (auto simp: WDOG_INTRESERVE_def)
    then show ?thesis using r p fs D(3,8) wd(2) by (intro exI [of _ w] exI [of _ st'] exI [of _ fs']) (auto simp: running_def)
  next
    case False
    then obtain w where w: "mem = Some w" "w \<notin> set ws" "PREALLOC_WDOGS \<le> w" using pool by auto
    then have wf: "w \<notin> set fs" using D(11) by auto
    have "r = mem \<and> wd_inv st' ws fs \<and> timers st' ws = timers st ws"
      using wd_create_heap [OF wd(1), of False mem] r False D(10) w wf by (auto simp: WDOG_INTRESERVE_def)
    then show ?thesis using r p w wf wd(2) by (intro exI [of _ w] exI [of _ st'] exI [of _ fs]) (auto simp: running_def)
  qed
qed

lemma getpid_running:
  assumes "sem_sys idle k q C" "this_task (ksched k) = Some t"
  shows "getpid k = tcb_pid (kpids k) t" "int16 (uint32 (tcb_pid (kpids k) t)) = tcb_pid (kpids k) t" "t \<in> C"
proof -
  note D = sem_sysD [OF assms(1)]
  show "getpid k = tcb_pid (kpids k) t" using running_state [OF assms] assms(2) by (simp add: getpid_def)
  have "t = hd (q G_readytorun)" using running_not_waiting(3) [OF D(1)] assms(2) by simp
  then show t: "t \<in> C" using hd_listed [OF D(7)] D(2) by (auto simp: listed_def)
  have p: "0 \<le> tcb_pid (kpids k) t" "tcb_pid (kpids k) t < 2 ^ 15" using live_pid_range [OF D(5)] D(6) t by auto
  then have "uint32 (tcb_pid (kpids k) t) = tcb_pid (kpids k) t" by (intro uint_cast_id) auto
  then show "int16 (uint32 (tcb_pid (kpids k) t)) = tcb_pid (kpids k) t" using p by (simp add: int16_id)
qed

lemma nxsem_wait_rest: "nxsem_wait sem k = Some (r, k') \<Longrightarrow> same_rest k k'"
  by (auto simp: nxsem_wait_def same_rest_def set_errcode_def set_waitsem_def set_semcount_def Let_def bind_eq_Some_conv
      split: if_splits option.splits)

lemma sem_sys_rest:
  assumes "sem_sys idle k q C" "ksched k' = ksched k" "kpids k' = kpids k" "semcount k' = semcount k"
    "waitsem k' = waitsem k" "errcode k' = errcode k"
  shows "sem_sys idle k' q C"
  using assms by (simp add: sem_sys_def sem_inv_def sem_waiters_def)

lemma insert_time_mem: "x \<in> set (insert_time w d ts) \<longleftrightarrow> x = (w, d) \<or> x \<in> set ts"
  by (induction w d ts rule: insert_time.induct) auto

text \<open>A timed wait first reserves a watchdog, then starts it and waits.\<close>

lemma reserve_waitdog:
  assumes sys: "timed_sys idle k C ws fs"
    and pool: "4 < length fs \<or> (\<exists>w. mem = Some w \<and> w \<notin> set ws \<and> PREALLOC_WDOGS \<le> w)"
    and other: "\<forall>v \<in> set ws. \<not> armed_for k v t"
  obtains w st k1 fs1 where "wd_create False mem (kwdogs k) = (Some w, st)" "k1 = set_waitdog t (Some w) (k\<lparr>kwdogs := st\<rparr>)"
    "timed_sys idle k1 C ws fs1" "waitdog k1 t = Some w" "w \<notin> set fs1" "w \<notin> set ws" "\<forall>v \<in> set ws. \<not> armed_for k1 v t"
    "ksched k1 = ksched k" "semcount k1 = semcount k" "kclock k1 = kclock k" "kwdogs k1 = st"
    "timers st ws = timers (kwdogs k) ws"
proof -
  obtain q where q: "sem_sys idle k q C" and wd: "wd_inv (kwdogs k) ws fs" "running (kwdogs k) ws"
    using sys by (auto simp: timed_sys_def)
  obtain w st fs1 where w: "wd_create False mem (kwdogs k) = (Some w, st)" "wd_inv st ws fs1" "running st ws"
    "w \<notin> set fs1" "w \<notin> set ws" "timers st ws = timers (kwdogs k) ws" "wd_parm st = wd_parm (kwdogs k)"
    using create_waitdog [OF wd pool] by blast
  define k1 where "k1 = set_waitdog t (Some w) (k\<lparr>kwdogs := st\<rparr>)"
  have f: "ksched k1 = ksched k" "semcount k1 = semcount k" "kclock k1 = kclock k" "kwdogs k1 = st" "waitdog k1 t = Some w"
    "kpids k1 = kpids k" by (simp_all add: k1_def set_waitdog_def)
  have "sem_sys idle k1 q C" by (rule sem_sys_rest [OF q]) (simp_all add: k1_def set_waitdog_def)
  then have "timed_sys idle k1 C ws fs1" using w(2,3) f by (auto simp: timed_sys_def)
  moreover have "\<forall>v \<in> set ws. \<not> armed_for k1 v t" using other w(7) f by (simp add: armed_for_def)
  ultimately show ?thesis using that [OF w(1) k1_def] w(4-6) f by blast
qed

lemma start_waitdog:
  assumes wd: "wd_inv st ws fs" "running st ws" "w \<notin> set fs" and d: "0 \<le> d" "d < 2 ^ 31"
  obtains st' ws' where "wd_start (Some w) d f 1 [p] st = Some (0, st')" "wd_inv st' ws' fs" "running st' ws'"
    "(w, min d (2 ^ 31 - 2) + 1) \<in> set (timers st' ws')" "\<forall>v. v \<noteq> w \<longrightarrow> armed st' v = armed st v" "wd_parm st' w 0 = uint32 p"
    "set ws' \<subseteq> insert w (set ws)"
proof -
  have n: "min (d + 1) (2 ^ 31 - 1) = min d (2 ^ 31 - 2) + 1" by simp
  obtain st' ws' where s: "wd_start (Some w) d f 1 [p] st = Some (0, st')" "wd_inv st' ws' fs"
    "timers st' ws' = insert_time w (min d (2 ^ 31 - 2) + 1) (filter (\<lambda>(v, t). v \<noteq> w) (timers st ws))"
    "\<forall>v. v \<noteq> w \<longrightarrow> armed st' v = armed st v" "wd_parm st' w 0 = uint32 p"
    using wd_start_spec [OF wd(1,3), of 1 d "[p]" f] d unfolding n by (auto simp: MAX_WDOGPARMS_def)
  have "set ws' \<subseteq> insert w (set ws)"
  proof
    fix v assume "v \<in> set ws'"
    then obtain i where "(v, i) \<in> set (timers st' ws')" by (metis fst_timers imageE prod.collapse set_map)
    then show "v \<in> insert w (set ws)" using s(3) timers_dom [of v i st ws] by (auto simp: insert_time_mem)
  qed
  moreover have "running st' ws'" using wd(2) d(1) s(3) unfolding running_def by (auto simp: insert_time_mem)
  ultimately show ?thesis using that [OF s(1,2)] s(3-5) by (simp add: insert_time_mem)
qed

lemma wait_with_watchdog:
  assumes sys: "timed_sys idle k C ws fs" and t: "this_task (ksched k) = Some t" "t \<noteq> idle" and c: "semcount k m \<le> 0"
    and w: "waitdog k t = Some w" "w \<notin> set fs" "w \<notin> set ws" "\<forall>v \<in> set ws. \<not> armed_for k v t" and d: "0 < d" "d < 2 ^ 31"
  obtains st k' ws' where "wd_start (Some w) d Nxsem_timeout 1 [getpid k] (kwdogs k) = Some (0, st)"
    "nxsem_wait (Some m) (k\<lparr>kwdogs := st\<rparr>) = Some (None, k')"
    "timed_wait idle k' C ws' fs t w m (nat (min d (2 ^ 31 - 2)))" "kclock k' = kclock k"
proof -
  obtain q where q: "sem_sys idle k q C" and wd: "wd_inv (kwdogs k) ws fs" "running (kwdogs k) ws"
    using sys by (auto simp: timed_sys_def)
  note P = getpid_running [OF q t(1)]
  obtain st ws' where st: "wd_start (Some w) d Nxsem_timeout 1 [getpid k] (kwdogs k) = Some (0, st)" "wd_inv st ws' fs"
    "running st ws'" "(w, min d (2 ^ 31 - 2) + 1) \<in> set (timers st ws')" "\<forall>v. v \<noteq> w \<longrightarrow> armed st v = armed (kwdogs k) v"
    "wd_parm st w 0 = uint32 (getpid k)" "set ws' \<subseteq> insert w (set ws)"
    using start_waitdog [OF wd w(2), of d Nxsem_timeout "getpid k"] d by auto
  let ?k = "k\<lparr>kwdogs := st\<rparr>"
  have "sem_sys idle ?k q C" by (rule sem_sys_rest [OF q]) simp_all
  then obtain k' q' where k': "nxsem_wait (Some m) ?k = Some (None, k')" "sem_sys idle k' q' C" "waitsem k' t = Some m"
    using step_wait_block [of idle ?k q C m t] c t by auto
  have r: "kpids k' = kpids k" "kwdogs k' = st" "waitdog k' t = Some w" "kclock k' = kclock k"
    using nxsem_wait_rest [OF k'(1)] w(1) by (auto simp: same_rest_def)
  have "armed_for k' w t" using st(6) P r by (simp add: armed_for_def)
  moreover have "\<not> armed_for k' v t" if "v \<in> set ws'" "v \<noteq> w" for v
    using w(4) that st(5,7) r by (auto simp: armed_for_def armed_def)
  ultimately have "timed_wait idle k' C ws' fs t w m (nat (min d (2 ^ 31 - 2)))"
    using k'(2,3) st(2,3,4) P(3) r w(2) d(1) by (auto simp: timed_wait_def timed_sys_def)
  then show ?thesis using that [OF st(1) k'(1)] r(4) by blast
qed

lemma nxsem_tickwait_blocks:
  assumes sys: "timed_sys idle k C ws fs" and t: "this_task (ksched k) = Some t" "t \<noteq> idle" and c: "semcount k m \<le> 0"
    and d: "d = delay - uint32 (g_system_timer (kclock k) - start)" "0 < d" "d < 2 ^ 31" "delay < 2 ^ 32"
    and pool: "4 < length fs \<or> (\<exists>w. mem = Some w \<and> w \<notin> set ws \<and> PREALLOC_WDOGS \<le> w)"
    and other: "\<forall>v \<in> set ws. \<not> armed_for k v t"
  shows "\<exists>k' ws' fs' w. nxsem_tickwait mem (Some m) start delay k = Some (None, k') \<and>
    timed_wait idle k' C ws' fs' t w m (nat (min d (2 ^ 31 - 2)))"
proof -
  from reserve_waitdog [OF sys pool other] obtain w st k1 fs1 where w: "wd_create False mem (kwdogs k) = (Some w, st)"
    "k1 = set_waitdog t (Some w) (k\<lparr>kwdogs := st\<rparr>)" "timed_sys idle k1 C ws fs1" "waitdog k1 t = Some w" "w \<notin> set fs1"
    "w \<notin> set ws" "\<forall>v \<in> set ws. \<not> armed_for k1 v t" "ksched k1 = ksched k" "semcount k1 = semcount k" "kclock k1 = kclock k"
    "kwdogs k1 = st" .
  have t1: "this_task (ksched k1) = Some t" "semcount k1 m \<le> 0" using t(1) c w by auto
  from wait_with_watchdog [OF w(3) t1(1) t(2) t1(2) w(4-7) d(2,3)] obtain st2 k' ws' where
    k': "wd_start (Some w) d Nxsem_timeout 1 [getpid k1] (kwdogs k1) = Some (0, st2)"
      "nxsem_wait (Some m) (k1\<lparr>kwdogs := st2\<rparr>) = Some (None, k')"
      "timed_wait idle k' C ws' fs1 t w m (nat (min d (2 ^ 31 - 2)))" .
  have notake: "nxsem_trywait (Some m) k1 = Some (- EAGAIN, k1)" using t1(2) by (simp add: nxsem_trywait_def)
  have el: "0 \<le> uint32 (g_system_timer (kclock k) - start)" by (simp add: uint_cast_def)
  have dd: "int32 (uint32 d) = d" using d by (simp add: int32_id uint_cast_id)
  have "nxsem_tickwait mem (Some m) start delay k = Some (None, k')"
    using t(1) w(1,10,11) notake k'(1,2) d el dd unfolding nxsem_tickwait_def
    by (simp add: w(2) [symmetric] Let_def EAGAIN_def clock_systime_ticks_def)
  then show ?thesis using k'(3) by blast
qed

text \<open>
  A remaining delay of \<open>2 ^ 31\<close> ticks or more is negative for \<open>wd_start\<close>, which rejects it; the result
  is not checked, so that the wait has no timeout.
\<close>

lemma nxsem_tickwait_no_timeout:
  assumes sys: "timed_sys idle k C ws fs" and t: "this_task (ksched k) = Some t" "t \<noteq> idle" and c: "semcount k m \<le> 0"
    and d: "d = delay - uint32 (g_system_timer (kclock k) - start)" "2 ^ 31 \<le> d" "delay < 2 ^ 32"
    and pool: "4 < length fs \<or> (\<exists>w. mem = Some w \<and> w \<notin> set ws \<and> PREALLOC_WDOGS \<le> w)"
  shows "\<exists>k'. nxsem_tickwait mem (Some m) start delay k = Some (None, k') \<and> waitsem k' t = Some m \<and>
    timers (kwdogs k') ws = timers (kwdogs k) ws"
proof -
  obtain q where q: "sem_sys idle k q C" and wd: "wd_inv (kwdogs k) ws fs" "running (kwdogs k) ws"
    using sys by (auto simp: timed_sys_def)
  obtain w st1 where w: "wd_create False mem (kwdogs k) = (Some w, st1)" "timers st1 ws = timers (kwdogs k) ws"
    using create_waitdog [OF wd pool] by blast
  define k1 where "k1 = set_waitdog t (Some w) (k\<lparr>kwdogs := st1\<rparr>)"
  have k1: "sem_sys idle k1 q C" by (rule sem_sys_rest [OF q]) (simp_all add: k1_def set_waitdog_def)
  have f1: "ksched k1 = ksched k" "kwdogs k1 = st1" "semcount k1 = semcount k" "g_system_timer (kclock k1) = g_system_timer (kclock k)"
    by (simp_all add: k1_def set_waitdog_def)
  have notake: "nxsem_trywait (Some m) k1 = Some (- EAGAIN, k1)" using c f1 by (simp add: nxsem_trywait_def)
  have el: "0 \<le> uint32 (g_system_timer (kclock k) - start)" by (simp add: uint_cast_def)
  have u: "uint32 d = d" using d el by (intro uint_cast_id) auto
  have "d < 2 ^ 32" using d(1,3) el by linarith
  then have "int32 d < 0" using d(2) by (intro int32_neg) auto
  then have st2: "wd_start (Some w) (int32 (uint32 d)) Nxsem_timeout 1 [getpid k1] st1 = Some (- EINVAL, st1)"
    unfolding u by (simp add: wd_start_def)
  obtain k3 q3 where k3: "nxsem_wait (Some m) k1 = Some (None, k3)" "waitsem k3 t = Some m"
    using step_wait_block [OF k1, of m t] c t f1 by auto
  have k3': "nxsem_wait (Some m) (k1\<lparr>kwdogs := st1\<rparr>) = Some (None, k3)" using k3(1) f1(2) by (metis (no_types) tkernel.surjective tkernel.update_convs(1))
  have "kwdogs k3 = st1" using nxsem_wait_rest [OF k3(1)] f1 by (auto simp: same_rest_def)
  moreover have "nxsem_tickwait mem (Some m) start delay k = Some (None, k3)"
    using t(1) w(1) notake st2 k3' d el f1(2,4) unfolding nxsem_tickwait_def
    by (simp add: k1_def [symmetric] Let_def EAGAIN_def clock_systime_ticks_def)
  ultimately show ?thesis using k3(2) w(2) by auto
qed

section \<open>Property\<close>

definition demo_wdogs :: "wd_function wdogs" where
  "demo_wdogs = \<lparr>wd_next = (\<lambda>_. None), wd_func = (\<lambda>_. Nxsem_timeout), wd_lag = (\<lambda>_. 0), wd_flags = (\<lambda>_. 0),
     wd_argc = (\<lambda>_. 0), wd_parm = (\<lambda>_ _. 0), wd_activelist = sq_init, wd_freelist = sq_init, wd_nfree = 0\<rparr>"

lemma demo_timed: "\<exists>k C ws fs. timed_sys 0 k C ws fs \<and> this_task (ksched k) = Some 1 \<and> semcount k 7 = 0 \<and>
    kclock k = sysclock_start \<and> 4 < length fs \<and> ws = []"
proof -
  obtain k q where k: "sem_reachable 0 k {0, 1} no_history" "sem_inv k q 0" "q G_readytorun = [1, 0]" "fresh_sems k"
    using demo_running by blast
  obtain q' where q': "sem_sys 0 k q' {0, 1}" using sem_reachable_good [OF k(1)] by (auto simp: sem_good_def)
  have "\<forall>w. \<not> WDOG_ISACTIVE w demo_wdogs" by (simp add: demo_wdogs_def WDOG_ISACTIVE_def)
  from wd_initialize_spec [OF this] obtain wd :: "wd_function wdogs" where wd: "wd_inv wd [] [0..<PREALLOC_WDOGS]"
    by auto
  define k' where "k' = kernel.extend k (tkernel.fields wd (\<lambda>_. None) sysclock_start)"
  have f: "ksched k' = ksched k" "kpids k' = kpids k" "semcount k' = semcount k" "waitsem k' = waitsem k" "errcode k' = errcode k"
      "kwdogs k' = wd" "kclock k' = sysclock_start"
    by (simp_all add: k'_def kernel.defs tkernel.defs)
  have "sem_sys 0 k' q' {0, 1}" using q' f by (simp add: sem_sys_def sem_inv_def sem_waiters_def)
  then have "timed_sys 0 k' {0, 1} [] [0..<PREALLOC_WDOGS]" using wd f by (auto simp: timed_sys_def running_def timers_def)
  moreover have "this_task (ksched k') = Some 1" using running_not_waiting(3) [OF k(2)] k(3) f by simp
  moreover have "semcount k' 7 = 0" using k(4) f by (simp add: fresh_sems_def)
  ultimately show ?thesis using f by (intro exI [of _ k'] exI [of _ "{0, 1}"]) (auto simp: PREALLOC_WDOGS_def)
qed

text \<open>
  C8. A task that calls \<open>nxsem_tickwait\<close> for a semaphore that is not available, with \<open>d\<close> ticks of its
  delay left, waits; if nobody posts the semaphore, it is still waiting after each of the next \<open>d\<close>
  timer interrupts, and the one after these wakes it up: the call then returns \<open>-ETIMEDOUT\<close> and
  leaves no watchdog behind.  Timeouts of other tasks may occur at any of these interrupts.
\<close>

theorem nxsem_tickwait_times_out:
  assumes "timed_sys idle k C ws fs" "this_task (ksched k) = Some t" "t \<noteq> idle" "semcount k m \<le> 0"
    and "d = delay - uint32 (g_system_timer (kclock k) - start)" "0 < d" "d < 2 ^ 31 - 1" "delay < 2 ^ 32"
    and "4 < length fs \<or> (\<exists>w. mem = Some w \<and> w \<notin> set ws \<and> PREALLOC_WDOGS \<le> w)"
    and "\<forall>v \<in> set ws. \<not> armed_for k v t"
  shows "\<exists>k0 k1 k2. nxsem_tickwait mem (Some m) start delay k = Some (None, k0) \<and>
    (\<forall>i \<le> nat d. \<exists>k'. timer_ticks i k0 = Some k' \<and> waitsem k' t = Some m) \<and>
    timer_ticks (nat d + 1) k0 = Some k1 \<and> waitsem k1 t = None \<and> task_state (ksched k1) t \<noteq> TSTATE_WAIT_SEM \<and>
    nxsem_tickwait_resume t k1 = Some (Some (- ETIMEDOUT), k2) \<and> waitdog k2 t = None"
proof -
  have "min d (2 ^ 31 - 2) = d" using assms(7) by simp
  then obtain k0 ws0 fs0 w where k0: "nxsem_tickwait mem (Some m) start delay k = Some (None, k0)"
    "timed_wait idle k0 C ws0 fs0 t w m (nat d)"
    using nxsem_tickwait_blocks [OF assms(1-6) _ assms(8-10)] assms(7) by fastforce
  from timed_wait_ticks [OF k0(2)] obtain k1 ws1 where
    before: "\<forall>i \<le> nat d. \<exists>k'. timer_ticks i k0 = Some k' \<and> waitsem k' t = Some m" and
    k1: "timer_ticks (Suc (nat d)) k0 = Some k1" "timed_sys idle k1 C ws1 fs0" "waitsem k1 t = None"
      "errcode k1 t = ETIMEDOUT" "waitdog k1 t = Some w" "w \<notin> set fs0"
    by blast
  obtain q1 where q1: "sem_sys idle k1 q1 C" using k1(2) by (auto simp: timed_sys_def)
  have tC: "t \<in> C" using k0(2) by (simp add: timed_wait_def)
  have "task_state (ksched k1) t \<noteq> TSTATE_WAIT_SEM" using waiting_iff [OF q1, of t] k1(3) tC by auto
  moreover obtain k2 where "tickwait_exit t (- ETIMEDOUT) k1 = Some (Some (- ETIMEDOUT), k2)" "waitdog k2 t = None"
    using tickwait_exit_returns [OF k1(2,5,6)] by blast
  then have "nxsem_tickwait_resume t k1 = Some (Some (- ETIMEDOUT), k2)" "waitdog k2 t = None"
    using k1(4) by (auto simp: nxsem_tickwait_resume_def tickwait_waited_def nxsem_wait_resume_def ETIMEDOUT_def)
  ultimately show ?thesis using k0(1) before k1(1,3) by auto
qed

theorem nxsem_tickwait_times_out_witness:
  "\<exists>k k0 k1 k2. semcount k 7 = 0 \<and> this_task (ksched k) = Some 1 \<and> nxsem_tickwait None (Some 7) 0 3 k = Some (None, k0) \<and>
     timer_ticks 4 k0 = Some k1 \<and> nxsem_tickwait_resume 1 k1 = Some (Some (- ETIMEDOUT), k2)"
proof -
  obtain k C fs where k: "timed_sys 0 k C [] fs" "this_task (ksched k) = Some 1" "semcount k 7 = 0" "kclock k = sysclock_start"
    "4 < length fs" using demo_timed by blast
  have "\<exists>k0 k1 k2. nxsem_tickwait None (Some 7) 0 3 k = Some (None, k0) \<and>
    (\<forall>i \<le> nat 3. \<exists>k'. timer_ticks i k0 = Some k' \<and> waitsem k' 1 = Some 7) \<and>
    timer_ticks (nat 3 + 1) k0 = Some k1 \<and> waitsem k1 1 = None \<and> task_state (ksched k1) 1 \<noteq> TSTATE_WAIT_SEM \<and>
    nxsem_tickwait_resume 1 k1 = Some (Some (- ETIMEDOUT), k2) \<and> waitdog k2 1 = None"
    by (rule nxsem_tickwait_times_out [OF k(1,2)]) (use k(3-5) in \<open>simp_all add: uint_cast_def sysclock_start_def\<close>)
  then show ?thesis using k(2,3) by auto
qed

end
