(* ===== verification/Sem_Deadline.thy ===== *)
theory Sem_Deadline
  imports Sem_Timed
begin

text \<open>
  Waits for a semaphore until an absolute time (\<open>sched/semaphore/sem_timedwait.c\<close>): the deadline is
  converted to ticks by the system clock, which the timer interrupt advances together with the
  watchdogs.
\<close>

section \<open>Definitions\<close>

text \<open>The end of the blocking wait; the exit is that of \<open>nxsem_tickwait\<close>.\<close>

definition timedwait_waited :: "nat \<Rightarrow> int \<Rightarrow> tkernel \<Rightarrow> (int option \<times> tkernel) option" where
  "timedwait_waited rtcb ret k =
     do { (_, wd) \<leftarrow> wd_cancel (waitdog k rtcb) (kwdogs k);
          tickwait_exit rtcb ret (k\<lparr>kwdogs := wd\<rparr>) }"

text \<open>\<open>abstime\<close> is a pointer, followed only if the semaphore is not available.\<close>

definition nxsem_timedwait ::
    "wdog option \<Rightarrow> nat option \<Rightarrow> timespec option \<Rightarrow> tkernel \<Rightarrow> (int option \<times> tkernel) option" where
  "nxsem_timedwait mem sem abstime k =
     do {
       rtcb \<leftarrow> this_task (ksched k);
       let (dog, wd) = wd_create False mem (kwdogs k);
       let k1 = set_waitdog rtcb dog (k\<lparr>kwdogs := wd\<rparr>);
       case dog of
         None \<Rightarrow> Some (Some (- ENOMEM), k1)
       | Some w \<Rightarrow>
           do {
             (ret, k2) \<leftarrow> nxsem_trywait sem k1;
             if ret = 0 then tickwait_exit rtcb ret k2
             else do {
               ts \<leftarrow> abstime;
               if tv_nsec ts < 0 \<or> tv_nsec ts \<ge> 1000000000 then tickwait_exit rtcb (- EINVAL) k2
               else (case clock_abstime2ticks CLOCK_REALTIME ts (kclock k2) of
                       Inl status \<Rightarrow> tickwait_exit rtcb (- status) k2
                     | Inr ticks \<Rightarrow>
                         if ticks \<le> 0 then tickwait_exit rtcb (- ETIMEDOUT) k2
                         else do {
                           (_, wd2) \<leftarrow> wd_start (Some w) ticks Nxsem_timeout 1 [getpid k2] (kwdogs k2);
                           (r, k3) \<leftarrow> nxsem_wait sem (k2\<lparr>kwdogs := wd2\<rparr>);
                           case r of
                             None \<Rightarrow> Some (None, k3)
                           | Some ret \<Rightarrow> timedwait_waited rtcb ret k3 }) } } }"

definition nxsem_timedwait_resume :: "nat \<Rightarrow> tkernel \<Rightarrow> (int option \<times> tkernel) option" where
  "nxsem_timedwait_resume rtcb k = timedwait_waited rtcb (nxsem_wait_resume rtcb k) k"

definition nxsem_timedwait_uninterruptible_resume ::
    "nat \<Rightarrow> wdog option \<Rightarrow> nat option \<Rightarrow> timespec option \<Rightarrow> tkernel \<Rightarrow> (int option \<times> tkernel) option" where
  "nxsem_timedwait_uninterruptible_resume rtcb mem sem abstime k =
     do { (r, k1) \<leftarrow> nxsem_timedwait_resume rtcb k;
          if r = Some (- EINTR) then nxsem_timedwait mem sem abstime k1 else Some (r, k1) }"

definition posix_option :: "int option \<times> tkernel \<Rightarrow> int option \<times> tkernel" where
  "posix_option r = (case fst r of None \<Rightarrow> r | Some ret \<Rightarrow> map_prod Some id (posix_result (ret, snd r)))"

definition sem_timedwait ::
    "wdog option \<Rightarrow> nat option \<Rightarrow> timespec option \<Rightarrow> tkernel \<Rightarrow> (int option \<times> tkernel) option" where
  "sem_timedwait mem sem abstime k = map_option posix_option (nxsem_timedwait mem sem abstime k)"

definition sem_timedwait_resume :: "nat \<Rightarrow> tkernel \<Rightarrow> (int option \<times> tkernel) option" where
  "sem_timedwait_resume rtcb k = map_option posix_option (nxsem_timedwait_resume rtcb k)"

section \<open>The clock during a wait\<close>

lemma timeout_rest: "nxsem_timeout pid k = Some k' \<Longrightarrow> same_rest k k'"
  by (auto simp: nxsem_timeout_def dest: wait_irq_rest split: option.splits if_splits)

lemma run_calls_rest: "run_calls cs k = Some k' \<Longrightarrow> same_rest k k'"
proof (induction cs arbitrary: k)
  case (Cons c cs)
  then obtain k1 where "nxsem_timeout (fst (call_parms c)) k = Some k1" "run_calls cs k1 = Some k'"
    by (auto simp: bind_eq_Some_conv)
  then show ?case using Cons.IH timeout_rest same_rest_trans by blast
qed simp

lemma process_timer_clock: "nxsched_process_timer k = Some k' \<Longrightarrow> kclock k' = clock_timer (kclock k)"
  by (auto simp: nxsched_process_timer_def Let_def bind_eq_Some_conv same_rest_def dest!: run_calls_rest)

lemma timer_ticks_clock: "timer_ticks n k = Some k' \<Longrightarrow> kclock k' = (clock_timer ^^ n) (kclock k)"
  by (induction n arbitrary: k) (auto simp: bind_eq_Some_conv funpow_swap1 dest!: process_timer_clock)

section \<open>Waiting until a deadline\<close>

lemma nxsem_timedwait_blocks:
  assumes sys: "timed_sys idle k C ws fs" and t: "this_task (ksched k) = Some t" "t \<noteq> idle" and c: "semcount k m \<le> 0"
    and a: "valid_ts a" "clock_abstime2ticks CLOCK_REALTIME a (kclock k) = Inr d" "0 < d" "d < 2 ^ 31"
    and pool: "4 < length fs \<or> (\<exists>w. mem = Some w \<and> w \<notin> set ws \<and> PREALLOC_WDOGS \<le> w)"
    and other: "\<forall>v \<in> set ws. \<not> armed_for k v t"
  shows "\<exists>k' ws' fs' w. nxsem_timedwait mem (Some m) (Some a) k = Some (None, k') \<and> kclock k' = kclock k \<and>
    timed_wait idle k' C ws' fs' t w m (nat (min d (2 ^ 31 - 2)))"
proof -
  from reserve_waitdog [OF sys pool other] obtain w st k1 fs1 where w: "wd_create False mem (kwdogs k) = (Some w, st)"
    "k1 = set_waitdog t (Some w) (k\<lparr>kwdogs := st\<rparr>)" "timed_sys idle k1 C ws fs1" "waitdog k1 t = Some w" "w \<notin> set fs1"
    "w \<notin> set ws" "\<forall>v \<in> set ws. \<not> armed_for k1 v t" "ksched k1 = ksched k" "semcount k1 = semcount k" "kclock k1 = kclock k"
    "kwdogs k1 = st" .
  have t1: "this_task (ksched k1) = Some t" "semcount k1 m \<le> 0" using t(1) c w by auto
  from wait_with_watchdog [OF w(3) t1(1) t(2) t1(2) w(4-7) a(3,4)] obtain st2 k' ws' where
    k': "wd_start (Some w) d Nxsem_timeout 1 [getpid k1] (kwdogs k1) = Some (0, st2)"
      "nxsem_wait (Some m) (k1\<lparr>kwdogs := st2\<rparr>) = Some (None, k')"
      "timed_wait idle k' C ws' fs1 t w m (nat (min d (2 ^ 31 - 2)))" "kclock k' = kclock k1" .
  have notake: "nxsem_trywait (Some m) k1 = Some (- EAGAIN, k1)" using t1(2) by (simp add: nxsem_trywait_def)
  have "nxsem_timedwait mem (Some m) (Some a) k = Some (None, k')"
    using t(1) w(1,10,11) notake k'(1,2) a unfolding nxsem_timedwait_def
    by (simp add: w(2) [symmetric] Let_def EAGAIN_def valid_ts_def)
  then show ?thesis using k'(3,4) w(10) by auto
qed

lemma timedwait_waited_returns:
  assumes "timed_sys idle k C ws fs" "waitdog k t = Some w" "w \<notin> set fs"
  shows "\<exists>k'. timedwait_waited t ret k = Some (Some ret, k') \<and> waitdog k' t = None"
proof -
  have wd: "wd_inv (kwdogs k) ws fs" using assms(1) by (simp add: timed_sys_def)
  obtain r st ws' where st: "wd_cancel (Some w) (kwdogs k) = Some (r, st)" "wd_inv st ws' fs"
    using wd_cancel_spec [OF wd, of w] wd_cancel_inactive [OF wd, of w] wd by (cases "w \<in> set ws") auto
  obtain freed st' where "wd_delete w st = Some (0, freed, st')" using wd_delete_returns [OF st(2) assms(3)] by blast
  then show ?thesis using st(1) assms(2) by (simp add: timedwait_waited_def tickwait_exit_def set_waitdog_def)
qed

text \<open>The clock when a wait of \<open>(D + 9999999) div 10000000\<close> ticks ends.\<close>

lemma clock_at_timeout:
  assumes ok: "clock_ok c" and now: "clock_gettime CLOCK_REALTIME c = Inr now" "valid_ts now"
    and n: "g_system_timer c + int n < 2 ^ 32" "nsecs now + int n * 10000000 < EPOCH"
  shows "\<exists>ts. clock_gettime CLOCK_REALTIME ((clock_timer ^^ n) c) = Inr ts \<and> nsecs ts = nsecs now + int n * 10000000"
proof -
  let ?c = "(clock_timer ^^ n) c"
  have c: "clock_ok ?c" "g_system_timer ?c = g_system_timer c + int n" "g_basetime ?c = g_basetime c"
    using clock_ticks [OF ok n(1)] by auto
  obtain ts where ts: "clock_gettime CLOCK_REALTIME ?c = Inr ts"
    "nsecs ts = (nsecs (g_basetime c) + (g_system_timer c + int n) * 10000000) mod EPOCH"
    using gettime_spec [OF c(1)] c(2,3) by auto
  have "nsecs now = (nsecs (g_basetime c) + g_system_timer c * 10000000) mod EPOCH" using gettime_spec [OF ok] now(1) by auto
  then have "(nsecs now + int n * 10000000) mod EPOCH = nsecs ts"
    unfolding ts(2) by (simp only: mod_add_left_eq) (simp add: algebra_simps)
  moreover have "(nsecs now + int n * 10000000) mod EPOCH = nsecs now + int n * 10000000"
    using nsecs_range [OF now(2)] n(2) by simp
  ultimately show ?thesis using ts(1) by auto
qed

text \<open>The calls that return at once.\<close>

lemma nxsem_timedwait_at_once:
  assumes sys: "timed_sys idle k C ws fs" and t: "this_task (ksched k) = Some t"
    and pool: "4 < length fs \<or> (\<exists>w. mem = Some w \<and> w \<notin> set ws \<and> PREALLOC_WDOGS \<le> w)"
    and other: "\<forall>v \<in> set ws. \<not> armed_for k v t"
    and r: "r = (if semcount k m > 0 then 0 else if \<not> (0 \<le> tv_nsec a \<and> tv_nsec a < 1000000000) then - EINVAL else - ETIMEDOUT)"
    and past: "r = - ETIMEDOUT \<longrightarrow> (\<exists>d. clock_abstime2ticks CLOCK_REALTIME a (kclock k) = Inr d \<and> d \<le> 0)"
  shows "\<exists>k'. nxsem_timedwait mem (Some m) (Some a) k = Some (Some r, k') \<and> waitdog k' t = None"
proof -
  from reserve_waitdog [OF sys pool other] obtain w st k1 fs1 where w: "wd_create False mem (kwdogs k) = (Some w, st)"
    "k1 = set_waitdog t (Some w) (k\<lparr>kwdogs := st\<rparr>)" "timed_sys idle k1 C ws fs1" "waitdog k1 t = Some w" "w \<notin> set fs1"
    "w \<notin> set ws" "\<forall>v \<in> set ws. \<not> armed_for k1 v t" "ksched k1 = ksched k" "semcount k1 = semcount k" "kclock k1 = kclock k" .
  define k2 where "k2 = (if semcount k m > 0 then set_waitsem t None (set_semcount m (semcount k m - 1) k1) else k1)"
  have f: "kwdogs k2 = kwdogs k1" "waitdog k2 = waitdog k1" "kclock k2 = kclock k1"
    by (simp_all add: k2_def set_waitsem_def set_semcount_def)
  have take: "nxsem_trywait (Some m) k1 = Some (if semcount k m > 0 then 0 else - EAGAIN, k2)"
    using t w by (simp add: nxsem_trywait_def k2_def)
  have "wd_inv (kwdogs k2) ws fs1" using w(3) f by (simp add: timed_sys_def)
  from wd_delete_returns [OF this w(5)] obtain k' where k': "tickwait_exit t r k2 = Some (Some r, k')" "waitdog k' t = None"
    using w(4) f by (auto simp: tickwait_exit_def set_waitdog_def)
  have "nxsem_timedwait mem (Some m) (Some a) k = tickwait_exit t r k2"
    using t w(1,10) take r past f unfolding nxsem_timedwait_def
    by (auto simp: w(2) [symmetric] Let_def EAGAIN_def EINVAL_def ETIMEDOUT_def)
  then show ?thesis using k' by auto
qed

text \<open>
  A deadline \<open>2 ^ 31\<close> ticks away or more does not fit the number of ticks: the call reports at once that
  it has passed.
\<close>

lemma nxsem_timedwait_far_deadline:
  assumes sys: "timed_sys idle k C ws fs" and t: "this_task (ksched k) = Some t" and c: "semcount k m \<le> 0"
    and a: "valid_ts a" "clock_gettime CLOCK_REALTIME (kclock k) = Inr now" "valid_ts now"
      "2 ^ 31 \<le> (nsecs a - nsecs now + 9999999) div 10000000" "(nsecs a - nsecs now + 9999999) div 10000000 < 2 ^ 32"
    and pool: "4 < length fs \<or> (\<exists>w. mem = Some w \<and> w \<notin> set ws \<and> PREALLOC_WDOGS \<le> w)"
    and other: "\<forall>v \<in> set ws. \<not> armed_for k v t"
  shows "\<exists>k'. nxsem_timedwait mem (Some m) (Some a) k = Some (Some (- ETIMEDOUT), k')"
proof -
  let ?d = "(nsecs a - nsecs now + 9999999) div 10000000"
  have "int32 ?d < 0" by (rule int32_neg [OF a(4,5)])
  then have "\<exists>d. clock_abstime2ticks CLOCK_REALTIME a (kclock k) = Inr d \<and> d \<le> 0"
    using abstime2ticks_spec [OF a(1-3)] by (auto simp del: One_nat_def)
  then show ?thesis
    using nxsem_timedwait_at_once [OF sys t pool other refl, of m a] c a(1) by (auto simp: valid_ts_def)
qed

section \<open>Property\<close>

text \<open>
  C36. A task that waits for a semaphore until an absolute time, and for which nobody posts the
  semaphore, goes on waiting until the time of day has passed that time, by at least one and less
  than two ticks; then the call returns \<open>-ETIMEDOUT\<close> and leaves no watchdog behind.
\<close>

theorem nxsem_timedwait_respects_deadline:
  assumes "timed_sys idle k C ws fs" "this_task (ksched k) = Some t" "t \<noteq> idle" "semcount k m \<le> 0"
    and "4 < length fs \<or> (\<exists>w. mem = Some w \<and> w \<notin> set ws \<and> PREALLOC_WDOGS \<le> w)" "\<forall>v \<in> set ws. \<not> armed_for k v t"
    and "clock_ok (kclock k)" "clock_gettime CLOCK_REALTIME (kclock k) = Inr now" "valid_ts a"
    and "n = nat ((nsecs a - nsecs now + 9999999) div 10000000)" "nsecs now < nsecs a" "n < 2 ^ 31 - 1"
    and "g_system_timer (kclock k) + int n + 1 < 2 ^ 32" "nsecs a + 20000000 \<le> EPOCH"
  shows "\<exists>k0 k1 k2 ts. nxsem_timedwait mem (Some m) (Some a) k = Some (None, k0) \<and>
    (\<forall>i \<le> n. \<exists>k'. timer_ticks i k0 = Some k' \<and> waitsem k' t = Some m) \<and>
    timer_ticks (n + 1) k0 = Some k1 \<and> waitsem k1 t = None \<and> task_state (ksched k1) t \<noteq> TSTATE_WAIT_SEM \<and>
    clock_gettime CLOCK_REALTIME (kclock k1) = Inr ts \<and> nsecs a + 10000000 \<le> nsecs ts \<and> nsecs ts < nsecs a + 20000000 \<and>
    nxsem_timedwait_resume t k1 = Some (Some (- ETIMEDOUT), k2) \<and> waitdog k2 t = None"
proof -
  let ?d = "(nsecs a - nsecs now + 9999999) div 10000000"
  have now: "valid_ts now" using gettime_spec [OF assms(7)] assms(8) by auto
  have d: "0 < ?d" "?d < 2 ^ 31 - 1" "int n = ?d" using assms(10-12) by auto
  have n: "nsecs a \<le> nsecs now + int n * 10000000" "nsecs now + int n * 10000000 < nsecs a + 10000000"
    unfolding d(3) using assms(11) by linarith+
  have "clock_abstime2ticks CLOCK_REALTIME a (kclock k) = Inr ?d"
    using abstime2ticks_spec [OF assms(9,8) now] assms(11) d by (simp add: int32_small)
  then obtain k0 ws0 fs0 w where k0: "nxsem_timedwait mem (Some m) (Some a) k = Some (None, k0)" "kclock k0 = kclock k"
    "timed_wait idle k0 C ws0 fs0 t w m n"
    using nxsem_timedwait_blocks [OF assms(1-4,9) _ _ _ assms(5,6), of ?d] d assms(10) by fastforce
  from timed_wait_ticks [OF k0(3)] obtain k1 ws1 where
    before: "\<forall>i \<le> n. \<exists>k'. timer_ticks i k0 = Some k' \<and> waitsem k' t = Some m" and
    k1: "timer_ticks (Suc n) k0 = Some k1" "timed_sys idle k1 C ws1 fs0" "waitsem k1 t = None"
      "errcode k1 t = ETIMEDOUT" "waitdog k1 t = Some w" "w \<notin> set fs0" by blast
  have "kclock k1 = (clock_timer ^^ Suc n) (kclock k)" using timer_ticks_clock [OF k1(1)] k0(2) by simp
  moreover have "g_system_timer (kclock k) + int (Suc n) < 2 ^ 32" "nsecs now + int (Suc n) * 10000000 < EPOCH"
    using assms(13,14) n by simp_all
  then obtain ts where "clock_gettime CLOCK_REALTIME ((clock_timer ^^ Suc n) (kclock k)) = Inr ts"
      "nsecs ts = nsecs now + int (Suc n) * 10000000"
    using clock_at_timeout [OF assms(7,8) now, of "Suc n"] by blast
  ultimately have clock: "clock_gettime CLOCK_REALTIME (kclock k1) = Inr ts" "nsecs a + 10000000 \<le> nsecs ts"
    "nsecs ts < nsecs a + 20000000" using n by simp_all
  obtain q1 where q1: "sem_sys idle k1 q1 C" using k1(2) by (auto simp: timed_sys_def)
  have "t \<in> C" using k0(3) by (simp add: timed_wait_def)
  then have "task_state (ksched k1) t \<noteq> TSTATE_WAIT_SEM" using waiting_iff [OF q1, of t] k1(3) by auto
  moreover obtain k2 where "timedwait_waited t (- ETIMEDOUT) k1 = Some (Some (- ETIMEDOUT), k2)" "waitdog k2 t = None"
    using timedwait_waited_returns [OF k1(2,5,6)] by blast
  then have "nxsem_timedwait_resume t k1 = Some (Some (- ETIMEDOUT), k2)" "waitdog k2 t = None"
    using k1(4) by (auto simp: nxsem_timedwait_resume_def nxsem_wait_resume_def ETIMEDOUT_def)
  ultimately show ?thesis using k0(1) before k1(1,3) clock by auto
qed

theorem nxsem_timedwait_respects_deadline_witness:
  "\<exists>k k0 k1 k2 ts. semcount k 7 = 0 \<and> kclock k = sysclock_start \<and>
     nxsem_timedwait None (Some 7) (Some \<lparr>tv_sec = 1, tv_nsec = 5\<rparr>) k = Some (None, k0) \<and>
     timer_ticks 102 k0 = Some k1 \<and> clock_gettime CLOCK_REALTIME (kclock k1) = Inr ts \<and> 1000000005 \<le> nsecs ts \<and>
     nxsem_timedwait_resume 1 k1 = Some (Some (- ETIMEDOUT), k2)"
proof -
  let ?a = "\<lparr>tv_sec = 1, tv_nsec = 5\<rparr>"
  obtain k C fs where k: "timed_sys 0 k C [] fs" "this_task (ksched k) = Some 1" "semcount k 7 = 0" "kclock k = sysclock_start"
    "4 < length fs" using demo_timed by blast
  have g: "clock_gettime CLOCK_REALTIME (kclock k) = Inr \<lparr>tv_sec = 0, tv_nsec = 0\<rparr>" unfolding k(4) by code_simp
  have "\<exists>k0 k1 k2 ts. nxsem_timedwait None (Some 7) (Some ?a) k = Some (None, k0) \<and>
    (\<forall>i \<le> 101. \<exists>k'. timer_ticks i k0 = Some k' \<and> waitsem k' 1 = Some 7) \<and>
    timer_ticks (101 + 1) k0 = Some k1 \<and> waitsem k1 1 = None \<and> task_state (ksched k1) 1 \<noteq> TSTATE_WAIT_SEM \<and>
    clock_gettime CLOCK_REALTIME (kclock k1) = Inr ts \<and> nsecs ?a + 10000000 \<le> nsecs ts \<and> nsecs ts < nsecs ?a + 20000000 \<and>
    nxsem_timedwait_resume 1 k1 = Some (Some (- ETIMEDOUT), k2) \<and> waitdog k2 1 = None"
    by (rule nxsem_timedwait_respects_deadline [OF k(1,2) _ _ _ _ _ g])
      (use k(3-5) in \<open>simp_all add: nsecs_def valid_ts_def clock_ok_def sysclock_start_def\<close>)
  then obtain k0 k1 k2 ts where r: "nxsem_timedwait None (Some 7) (Some ?a) k = Some (None, k0)" "timer_ticks 102 k0 = Some k1"
    "clock_gettime CLOCK_REALTIME (kclock k1) = Inr ts" "nsecs ?a + 10000000 \<le> nsecs ts"
    "nxsem_timedwait_resume 1 k1 = Some (Some (- ETIMEDOUT), k2)" by auto
  have "1000000005 \<le> nsecs ts" using r(4) by (simp add: nsecs_def)
  then show ?thesis using k(3,4) r(1,2,3,5) by blast
qed

end
