(* ===== verification/Py_Qstr.thy ===== *)
theory Py_Qstr
  imports Prelude "HOL-Library.Word"
begin

unbundle bit_operations_syntax

text \<open>
  Interned strings of MicroPython (\<open>py/qstr.c\<close>), with two bytes of hash and one byte of length
  per string (\<open>MICROPY_QSTR_BYTES_IN_HASH\<close>, \<open>MICROPY_QSTR_BYTES_IN_LEN\<close>).

  The bytes of an interned string, from \<open>q_ptr\<close> on, are a list: hash, length, data and a zero.
  The pools are a list with \<open>last_pool\<close> first; its last element is the constant pool, which the
  build generates and which is therefore part of the initial state.  Of the chunk that holds the
  data of new strings the model has its size and fill level; whether an allocation succeeds is
  an argument, one Boolean per call of the allocator, in the order of the calls.
\<close>

section \<open>Strings in memory\<close>

type_synonym byte = "8 word"

definition QSTR_BYTES_IN_HASH :: nat where "QSTR_BYTES_IN_HASH = 2"
definition QSTR_BYTES_IN_LEN :: nat where "QSTR_BYTES_IN_LEN = 1"
definition ALLOC_QSTR_ENTRIES_INIT :: nat where "ALLOC_QSTR_ENTRIES_INIT = 10"
definition ALLOC_QSTR_CHUNK_INIT :: nat where "ALLOC_QSTR_CHUNK_INIT = 128"
definition Q_HASH_MASK :: "32 word" where "Q_HASH_MASK = 0xffff"

definition Q_GET_HASH :: "byte list \<Rightarrow> 32 word" where
  "Q_GET_HASH q = (ucast (q ! 0) :: 32 word) OR push_bit 8 (ucast (q ! 1))"

definition Q_SET_HASH :: "32 word \<Rightarrow> byte list" where
  "Q_SET_HASH hash = [ucast hash, ucast (drop_bit 8 hash)]"

definition Q_GET_LENGTH :: "byte list \<Rightarrow> nat" where
  "Q_GET_LENGTH q = unat (q ! QSTR_BYTES_IN_HASH)"

definition Q_GET_DATA :: "byte list \<Rightarrow> byte list" where
  "Q_GET_DATA q = drop (QSTR_BYTES_IN_HASH + QSTR_BYTES_IN_LEN) q"

definition hash_step :: "byte \<Rightarrow> 32 word \<Rightarrow> 32 word" where
  "hash_step b hash = (push_bit 5 hash + hash) XOR ucast b"

definition qstr_compute_hash :: "byte list \<Rightarrow> 32 word" where
  "qstr_compute_hash str =
     (let hash = fold hash_step str 5381 AND Q_HASH_MASK in if hash = 0 then hash + 1 else hash)"

text \<open>The data stored for a new string.\<close>

definition qstr_encode :: "byte list \<Rightarrow> byte list" where
  "qstr_encode str =
     Q_SET_HASH (qstr_compute_hash str) @ [of_nat (length str)] @ str @ [0]"

section \<open>Pools\<close>

record qstr_pool =
  total_prev_len :: nat
  pool_alloc :: nat
  pool_qstrs :: "byte list list"

abbreviation pool_len :: "qstr_pool \<Rightarrow> nat" where
  "pool_len p \<equiv> length (pool_qstrs p)"

record qstr_state =
  pools :: "qstr_pool list"
  last_chunk :: bool
  last_alloc :: nat
  last_used :: nat

datatype qstr_error = NameTooLong | MemoryError

definition qstr_init :: "qstr_pool \<Rightarrow> qstr_state \<Rightarrow> qstr_state" where
  "qstr_init const_pool st = st\<lparr>pools := [const_pool], last_chunk := False\<rparr>"

fun find_qstr_loop :: "nat \<Rightarrow> qstr_pool list \<Rightarrow> byte list option" where
  "find_qstr_loop q [] = None"
| "find_qstr_loop q (p # ps) =
     (if q < total_prev_len p then find_qstr_loop q ps
      else if q - total_prev_len p < pool_len p then Some (pool_qstrs p ! (q - total_prev_len p))
      else None)"

definition find_qstr :: "nat \<Rightarrow> qstr_state \<Rightarrow> byte list option" where
  "find_qstr q st = find_qstr_loop q (pools st)"

text \<open>\<open>qstr_find_strn\<close>: the search of one pool, and of the pools from the last one back; 0 when not found.\<close>

definition qstr_matches :: "32 word \<Rightarrow> byte list \<Rightarrow> byte list \<Rightarrow> bool" where
  "qstr_matches hash str q \<longleftrightarrow>
     Q_GET_HASH q = hash \<and> Q_GET_LENGTH q = length str \<and> take (length str) (Q_GET_DATA q) = str"

fun find_in_pool :: "32 word \<Rightarrow> byte list \<Rightarrow> nat \<Rightarrow> byte list list \<Rightarrow> nat option" where
  "find_in_pool hash str i [] = None"
| "find_in_pool hash str i (q # qs) =
     (if qstr_matches hash str q then Some i else find_in_pool hash str (Suc i) qs)"

fun find_in_pools :: "32 word \<Rightarrow> byte list \<Rightarrow> qstr_pool list \<Rightarrow> nat" where
  "find_in_pools hash str [] = 0"
| "find_in_pools hash str (p # ps) =
     (case find_in_pool hash str 0 (pool_qstrs p) of
        Some i \<Rightarrow> total_prev_len p + i
      | None \<Rightarrow> find_in_pools hash str ps)"

definition qstr_find_strn :: "byte list \<Rightarrow> qstr_state \<Rightarrow> nat" where
  "qstr_find_strn str st = find_in_pools (qstr_compute_hash str) str (pools st)"

text \<open>The next result of the allocator; it fails when no more are given.\<close>

fun next_alloc :: "bool list \<Rightarrow> bool \<times> bool list" where
  "next_alloc [] = (False, [])"
| "next_alloc (a # mem) = (a, mem)"

definition qstr_add :: "byte list \<Rightarrow> bool list \<Rightarrow> qstr_state \<Rightarrow> ((qstr_error + nat) \<times> qstr_state) option" where
  "qstr_add q_ptr mem st =
     (case pools st of
        [] \<Rightarrow> None
      | p # ps \<Rightarrow>
          (let full = pool_len p \<ge> pool_alloc p;
               (ok, _) = (if full then next_alloc mem else (True, mem))
           in if \<not> ok then Some (Inl MemoryError, st)
              else (let ps1 = (if full then \<lparr>total_prev_len = total_prev_len p + pool_len p,
                                             pool_alloc = pool_alloc p * 2, pool_qstrs = []\<rparr> # p # ps
                               else p # ps);
                        p1 = hd ps1;
                        p2 = p1\<lparr>pool_qstrs := pool_qstrs p1 @ [q_ptr]\<rparr>
                    in Some (Inr (total_prev_len p2 + pool_len p2 - 1), st\<lparr>pools := p2 # tl ps1\<rparr>))))"

text \<open>
  Room for \<open>n_bytes\<close> bytes in the chunk: growing the present one, else allocating a new one;
  \<open>False\<close> in the result of \<open>new_chunk\<close> stands for the exception of \<open>m_malloc_fail\<close>.
\<close>

definition grow_chunk :: "nat \<Rightarrow> bool list \<Rightarrow> qstr_state \<Rightarrow> bool list \<times> qstr_state" where
  "grow_chunk n_bytes mem st =
     (if last_chunk st \<and> last_used st + n_bytes > last_alloc st
      then (let (ok, mem1) = next_alloc mem
            in if \<not> ok then (snd (next_alloc mem1), st\<lparr>last_chunk := False\<rparr>)
               else (mem1, st\<lparr>last_alloc := last_alloc st + n_bytes\<rparr>))
      else (mem, st))"

definition new_chunk :: "nat \<Rightarrow> bool list \<Rightarrow> qstr_state \<Rightarrow> bool \<times> bool list \<times> qstr_state" where
  "new_chunk n_bytes mem st =
     (if last_chunk st then (True, mem, st)
      else (let al = (if n_bytes < ALLOC_QSTR_CHUNK_INIT then ALLOC_QSTR_CHUNK_INIT else n_bytes);
                (ok, mem1) = next_alloc mem
            in if ok then (True, mem1, st\<lparr>last_chunk := True, last_alloc := al, last_used := 0\<rparr>)
               else (let (ok2, mem2) = next_alloc mem1
                     in if ok2 then (True, mem2, st\<lparr>last_chunk := True, last_alloc := n_bytes, last_used := 0\<rparr>)
                        else (False, mem2, st))))"

definition qstr_from_strn ::
    "byte list \<Rightarrow> bool list \<Rightarrow> qstr_state \<Rightarrow> ((qstr_error + nat) \<times> qstr_state) option" where
  "qstr_from_strn str mem st =
     (let q = qstr_find_strn str st
      in if q \<noteq> 0 then Some (Inr q, st)
         else if length str \<ge> 2 ^ (8 * QSTR_BYTES_IN_LEN) then Some (Inl NameTooLong, st)
         else (let n_bytes = QSTR_BYTES_IN_HASH + QSTR_BYTES_IN_LEN + length str + 1;
                   (mem1, st1) = grow_chunk n_bytes mem st;
                   (ok, mem2, st2) = new_chunk n_bytes mem1 st1
               in if \<not> ok then Some (Inl MemoryError, st2)
                  else (let st3 = st2\<lparr>last_used := last_used st2 + n_bytes\<rparr>
                        in qstr_add (qstr_encode str) mem2 st3)))"

definition qstr_hash :: "nat \<Rightarrow> qstr_state \<Rightarrow> 32 word option" where
  "qstr_hash q st = map_option Q_GET_HASH (find_qstr q st)"

definition qstr_len :: "nat \<Rightarrow> qstr_state \<Rightarrow> nat option" where
  "qstr_len q st = map_option Q_GET_LENGTH (find_qstr q st)"

definition qstr_data :: "nat \<Rightarrow> qstr_state \<Rightarrow> byte list option" where
  "qstr_data q st = map_option (\<lambda>qd. take (Q_GET_LENGTH qd) (Q_GET_DATA qd)) (find_qstr q st)"

definition QSTR_TOTAL :: "qstr_state \<Rightarrow> nat" where
  "QSTR_TOTAL st = (case pools st of [] \<Rightarrow> 0 | p # ps \<Rightarrow> total_prev_len p + pool_len p)"

text \<open>\<open>qstr_pool_info\<close> without the byte counts of the heap: pools, strings and bytes of string data
  outside the constant pool.\<close>

definition Q_GET_ALLOC :: "byte list \<Rightarrow> nat" where
  "Q_GET_ALLOC q = QSTR_BYTES_IN_HASH + QSTR_BYTES_IN_LEN + Q_GET_LENGTH q + 1"

definition qstr_pool_info :: "qstr_state \<Rightarrow> nat \<times> nat \<times> nat" where
  "qstr_pool_info st =
     (let ps = butlast (pools st)
      in (length ps, sum_list (map pool_len ps),
          sum_list (map (\<lambda>p. sum_list (map Q_GET_ALLOC (pool_qstrs p))) ps)))"

section \<open>The interned strings\<close>

lemma qstr_consts [simp]: "QSTR_BYTES_IN_HASH = 2" "QSTR_BYTES_IN_LEN = 1"
  by (simp_all add: QSTR_BYTES_IN_HASH_def QSTR_BYTES_IN_LEN_def)

lemma hash_bytes:
  fixes h :: "32 word"
  assumes "h AND 0xffff = h"
  shows "(ucast (ucast h :: byte) :: 32 word) OR push_bit 8 (ucast (ucast (drop_bit 8 h) :: byte)) = h"
proof (rule bit_word_eqI)
  fix n assume n: "n < LENGTH(32)"
  have "bit h n \<longleftrightarrow> bit (h AND 0xffff) n" using assms by simp
  also have "\<dots> \<longleftrightarrow> bit h n \<and> n < 16"
  proof -
    have "(0xffff :: 32 word) = mask 16" by (simp add: mask_eq_exp_minus_1)
    then show ?thesis using n by (simp only: bit_and_iff bit_mask_iff) auto
  qed
  finally have b: "bit h n \<longleftrightarrow> bit h n \<and> n < 16" .
  show "bit ((ucast (ucast h :: byte) :: 32 word) OR push_bit 8 (ucast (ucast (drop_bit 8 h) :: byte))) n = bit h n"
    using n b by (auto simp: bit_simps)
qed

lemma qstr_compute_hash_16: "qstr_compute_hash s AND 0xffff = qstr_compute_hash s"
  by (simp add: qstr_compute_hash_def Q_HASH_MASK_def Let_def and.assoc)

lemma qstr_compute_hash_nonzero: "qstr_compute_hash s \<noteq> 0"
  by (simp add: qstr_compute_hash_def Let_def)

lemma Q_GET_encode [simp]:
  "Q_GET_HASH (qstr_encode s) = qstr_compute_hash s"
  "Q_GET_DATA (qstr_encode s) = s @ [0]"
  "length s < 256 \<Longrightarrow> Q_GET_LENGTH (qstr_encode s) = length s"
  using hash_bytes [OF qstr_compute_hash_16, of s]
  by (simp_all add: Q_GET_HASH_def Q_GET_DATA_def Q_GET_LENGTH_def qstr_encode_def Q_SET_HASH_def
      nth_append unat_of_nat)

lemma qstr_matches_encode:
  "length t < 256 \<Longrightarrow> qstr_matches (qstr_compute_hash s) s (qstr_encode t) \<longleftrightarrow> t = s"
  by (auto simp: qstr_matches_def)

text \<open>All strings in the order of their numbers.\<close>

fun all_qstrs :: "qstr_pool list \<Rightarrow> byte list list" where
  "all_qstrs [] = []"
| "all_qstrs (p # ps) = all_qstrs ps @ pool_qstrs p"

fun offsets_ok :: "qstr_pool list \<Rightarrow> bool" where
  "offsets_ok [] \<longleftrightarrow> True"
| "offsets_ok (p # ps) \<longleftrightarrow> total_prev_len p = length (all_qstrs ps) \<and> offsets_ok ps"

lemma find_qstr_loop_all:
  "offsets_ok ps \<Longrightarrow> find_qstr_loop q ps = (if q < length (all_qstrs ps) then Some (all_qstrs ps ! q) else None)"
  by (induction ps) (auto simp: nth_append)

lemma find_in_pool_None: "find_in_pool h s i qs = None \<longleftrightarrow> (\<forall>q \<in> set qs. \<not> qstr_matches h s q)"
  by (induction qs arbitrary: i) auto

lemma find_in_pool_Some:
  "find_in_pool h s i qs = Some k \<Longrightarrow> i \<le> k \<and> k - i < length qs \<and> qstr_matches h s (qs ! (k - i))"
proof (induction qs arbitrary: i)
  case (Cons q qs)
  show ?case
  proof (cases "qstr_matches h s q")
    case False
    then have "find_in_pool h s (Suc i) qs = Some k" using Cons.prems by simp
    with Cons.IH [OF this] show ?thesis by (auto simp: nth_Cons' Suc_diff_le)
  qed (use Cons.prems in auto)
qed simp

lemma find_in_pools_found:
  assumes "offsets_ok ps" "i < length (all_qstrs ps)" "qstr_matches h s (all_qstrs ps ! i)"
    and "\<forall>j < length (all_qstrs ps). qstr_matches h s (all_qstrs ps ! j) \<longrightarrow> j = i"
  shows "find_in_pools h s ps = i"
  using assms
proof (induction ps)
  case (Cons p ps)
  let ?n = "length (all_qstrs ps)"
  show ?case
  proof (cases "find_in_pool h s 0 (pool_qstrs p)")
    case None
    then have n: "\<forall>q \<in> set (pool_qstrs p). \<not> qstr_matches h s q" by (simp add: find_in_pool_None)
    then have i: "i < ?n" using Cons.prems(2,3) by (auto simp: nth_append split: if_splits)
    have "find_in_pools h s ps = i"
    proof (rule Cons.IH)
      show "\<forall>j < ?n. qstr_matches h s (all_qstrs ps ! j) \<longrightarrow> j = i"
      proof (intro allI impI)
        fix j assume "j < ?n" "qstr_matches h s (all_qstrs ps ! j)"
        then show "j = i" using Cons.prems(4) [rule_format, of j] by (simp add: nth_append)
      qed
    qed (use Cons.prems i in \<open>auto simp: nth_append\<close>)
    then show ?thesis using None by simp
  next
    case (Some k)
    then have "k < pool_len p" "qstr_matches h s (pool_qstrs p ! k)" using find_in_pool_Some [OF Some] by auto
    then have "?n + k = i" using Cons.prems(4) [rule_format, of "?n + k"] by (simp add: nth_append)
    then show ?thesis using Some Cons.prems(1) by simp
  qed
qed simp

lemma find_in_pools_none:
  assumes "\<forall>q \<in> set (all_qstrs ps). \<not> qstr_matches h s q"
  shows "find_in_pools h s ps = 0"
  using assms
proof (induction ps)
  case (Cons p ps)
  then have "find_in_pool h s 0 (pool_qstrs p) = None" by (simp add: find_in_pool_None)
  then show ?case using Cons by simp
qed simp

text \<open>
  The invariant: number 0 is the null string, which no search finds since its hash is zero; the
  others are distinct strings.  No pool but the constant one holds more strings than it has room
  for, and the chunk is not filled beyond its size.
\<close>

definition qstr_inv :: "qstr_state \<Rightarrow> byte list list \<Rightarrow> bool" where
  "qstr_inv st strs \<longleftrightarrow>
     (\<exists>null. all_qstrs (pools st) = null # map qstr_encode strs \<and> Q_GET_HASH null = 0) \<and>
     distinct strs \<and> (\<forall>s \<in> set strs. length s < 256) \<and> offsets_ok (pools st) \<and> pools st \<noteq> [] \<and>
     (\<forall>p \<in> set (pools st). 0 < pool_alloc p) \<and>
     (\<forall>p \<in> set (butlast (pools st)). pool_len p \<le> pool_alloc p) \<and>
     (last_chunk st \<longrightarrow> last_used st \<le> last_alloc st)"

lemma qstr_inv_find:
  assumes "qstr_inv st strs"
  shows "0 < q \<Longrightarrow> find_qstr q st = (if q \<le> length strs then Some (qstr_encode (strs ! (q - 1))) else None)"
  using assms find_qstr_loop_all [of "pools st" q]
  by (cases q) (auto simp: qstr_inv_def find_qstr_def)

lemma qstr_data_nth:
  assumes "qstr_inv st strs" "0 < q" "q \<le> length strs"
  shows "qstr_data q st = Some (strs ! (q - 1))" "qstr_len q st = Some (length (strs ! (q - 1)))"
    and "qstr_hash q st = Some (qstr_compute_hash (strs ! (q - 1)))"
proof -
  have "length (strs ! (q - 1)) < 256" using assms by (simp add: qstr_inv_def)
  then show "qstr_data q st = Some (strs ! (q - 1))" "qstr_len q st = Some (length (strs ! (q - 1)))"
      "qstr_hash q st = Some (qstr_compute_hash (strs ! (q - 1)))"
    using qstr_inv_find [OF assms(1,2)] assms(3) by (simp_all add: qstr_data_def qstr_len_def qstr_hash_def)
qed

lemma qstr_find_strn_spec:
  assumes inv: "qstr_inv st strs"
  shows "i < length strs \<Longrightarrow> qstr_find_strn (strs ! i) st = Suc i"
    and "s \<notin> set strs \<Longrightarrow> qstr_find_strn s st = 0"
proof -
  obtain null where all: "all_qstrs (pools st) = null # map qstr_encode strs" and null: "Q_GET_HASH null = 0"
    and short: "\<forall>s \<in> set strs. length s < 256" and dist: "distinct strs" and off: "offsets_ok (pools st)"
    using inv by (auto simp: qstr_inv_def)
  have nn: "\<not> qstr_matches (qstr_compute_hash s) s null" for s
    using null qstr_compute_hash_nonzero [of s] by (simp add: qstr_matches_def)
  have m: "qstr_matches (qstr_compute_hash s) s (all_qstrs (pools st) ! j) \<longleftrightarrow>
      (\<exists>k. j = Suc k \<and> strs ! k = s)" if "j < Suc (length strs)" for s j
    using that short nn qstr_matches_encode by (cases j) (auto simp: all)
  show "qstr_find_strn (strs ! i) st = Suc i" if "i < length strs"
    unfolding qstr_find_strn_def
  proof (rule find_in_pools_found [OF off])
    show "\<forall>j < length (all_qstrs (pools st)). qstr_matches (qstr_compute_hash (strs ! i)) (strs ! i)
        (all_qstrs (pools st) ! j) \<longrightarrow> j = Suc i"
      using m dist that by (auto simp: all nth_eq_iff_index_eq less_Suc_eq_0_disj)
  qed (use that m [of "Suc i" "strs ! i"] in \<open>auto simp: all\<close>)
  show "qstr_find_strn s st = 0" if "s \<notin> set strs"
    unfolding qstr_find_strn_def
    by (rule find_in_pools_none) (use that nn short qstr_matches_encode in \<open>auto simp: all\<close>)
qed

section \<open>Interning\<close>

lemma qstr_inv_chunk:
  assumes "qstr_inv st strs" "pools st' = pools st" "last_chunk st' \<longrightarrow> last_used st' \<le> last_alloc st'"
  shows "qstr_inv st' strs"
  using assms by (simp add: qstr_inv_def)

lemma qstr_add_spec:
  assumes inv: "qstr_inv st strs" and s: "s \<notin> set strs" "length s < 256"
    and run: "qstr_add (qstr_encode s) mem st = Some (r, st')"
  shows "r = Inl MemoryError \<and> st' = st \<and> \<not> fst (next_alloc mem) \<or>
         r = Inr (Suc (length strs)) \<and> qstr_inv st' (strs @ [s])"
proof -
  obtain p ps where ps: "pools st = p # ps" using inv by (cases "pools st") (auto simp: qstr_inv_def)
  obtain null where all: "all_qstrs ps @ pool_qstrs p = null # map qstr_encode strs" "Q_GET_HASH null = 0"
    using inv ps by (auto simp: qstr_inv_def)
  have len: "length (all_qstrs ps) + pool_len p = Suc (length strs)"
    using arg_cong [OF all(1), of length] by simp
  have tot: "total_prev_len p = length (all_qstrs ps)" using inv ps by (simp add: qstr_inv_def)
  have app: "all_qstrs ps @ pool_qstrs p @ [qstr_encode s] = null # map qstr_encode (strs @ [s])"
    using all(1) by simp
  show ?thesis
  proof (cases "pool_len p \<ge> pool_alloc p")
    case False
    define p2 where "p2 = p\<lparr>pool_qstrs := pool_qstrs p @ [qstr_encode s]\<rparr>"
    have r: "r = Inr (Suc (length strs))" "st' = st\<lparr>pools := p2 # ps\<rparr>"
      using run False len tot by (auto simp: qstr_add_def ps p2_def Let_def)
    have "qstr_inv st' (strs @ [s])"
      using inv s False app all(2) by (auto simp: qstr_inv_def ps r(2) p2_def split: if_splits)
    then show ?thesis using r(1) by simp
  next
    case True
    show ?thesis
    proof (cases "fst (next_alloc mem)")
      case False
      then show ?thesis using run True by (auto simp: qstr_add_def ps Let_def split: prod.splits)
    next
      case ok: True
      define p2 where "p2 = \<lparr>total_prev_len = total_prev_len p + pool_len p, pool_alloc = pool_alloc p * 2,
          pool_qstrs = [qstr_encode s]\<rparr>"
      have r: "r = Inr (Suc (length strs))" "st' = st\<lparr>pools := p2 # p # ps\<rparr>"
        using run True ok len tot by (auto simp: qstr_add_def ps p2_def Let_def split: prod.splits)
      have "pool_len q \<le> pool_alloc q" if "q \<in> set (butlast (p2 # p # ps))" for q
        using that inv ps True by (auto simp: qstr_inv_def p2_def split: if_splits)
      then have "qstr_inv st' (strs @ [s])"
        using inv s app all(2) tot len unfolding qstr_inv_def r(2) by (auto simp: ps p2_def)
      then show ?thesis using r(1) by simp
    qed
  qed
qed

lemma qstr_add_returns: "qstr_inv st strs \<Longrightarrow> \<exists>r st'. qstr_add q mem st = Some (r, st')"
  by (cases "pools st") (auto simp: qstr_add_def qstr_inv_def Let_def split: prod.splits)

lemma grow_chunk_spec:
  assumes "qstr_inv st strs" "grow_chunk n mem st = (mem1, st1)"
  shows "qstr_inv st1 strs \<and> (last_chunk st1 \<longrightarrow> last_used st1 + n \<le> last_alloc st1)"
  using assms by (auto simp: grow_chunk_def qstr_inv_def split: if_splits prod.splits)

lemma new_chunk_spec:
  assumes "qstr_inv st strs" "last_chunk st \<longrightarrow> last_used st + n \<le> last_alloc st"
    "new_chunk n mem st = (ok, mem1, st1)"
  shows "qstr_inv st1 strs \<and> (ok \<longrightarrow> last_used st1 + n \<le> last_alloc st1)"
  using assms by (auto simp: new_chunk_def qstr_inv_def Let_def split: if_splits prod.splits)

text \<open>The allocator never fails: as many successful calls as interning can make.\<close>

abbreviation plenty :: "bool list" where
  "plenty \<equiv> [True, True, True]"

lemma qstr_from_strn_spec:
  assumes inv: "qstr_inv st strs"
  shows "\<exists>r st'. qstr_from_strn s mem st = Some (r, st') \<and>
           (if s \<in> set strs then (\<exists>q. r = Inr q \<and> 0 < q \<and> q \<le> length strs \<and> strs ! (q - 1) = s) \<and> st' = st
            else if 256 \<le> length s then r = Inl NameTooLong \<and> st' = st
            else r = Inl MemoryError \<and> qstr_inv st' strs \<and> mem \<noteq> plenty \<or>
                 r = Inr (Suc (length strs)) \<and> qstr_inv st' (strs @ [s]))"
proof (cases "s \<in> set strs")
  case True
  then obtain i where i: "i < length strs" "strs ! i = s" by (auto simp: in_set_conv_nth)
  then have "qstr_find_strn s st = Suc i" using qstr_find_strn_spec(1) [OF inv, of i] by simp
  then show ?thesis using True i by (auto simp: qstr_from_strn_def intro!: exI [of _ "Suc i"])
next
  case new: False
  have f: "qstr_find_strn s st = 0" using qstr_find_strn_spec(2) [OF inv new] .
  show ?thesis
  proof (cases "256 \<le> length s")
    case True
    then show ?thesis using f new by (simp add: qstr_from_strn_def)
  next
    case False
    define n where "n = 2 + 1 + length s + 1"
    obtain mem1 st1 where g: "grow_chunk n mem st = (mem1, st1)" by fastforce
    obtain ok mem2 st2 where c: "new_chunk n mem1 st1 = (ok, mem2, st2)" by (metis prod_cases3)
    note g1 = grow_chunk_spec [OF inv g] and c1 = new_chunk_spec [OF _ _ c, of strs]
    have c2: "qstr_inv st2 strs" "ok \<longrightarrow> last_used st2 + n \<le> last_alloc st2" using g1 c1 by auto
    have p: "ok" "mem = plenty \<Longrightarrow> fst (next_alloc mem2)" if "mem = plenty"
      using that g c by (auto simp: grow_chunk_def new_chunk_def Let_def split: if_splits)
    show ?thesis
    proof (cases ok)
      case False
      then show ?thesis using f new \<open>\<not> 256 \<le> length s\<close> g c c2(1) p(1)
        by (auto simp: qstr_from_strn_def n_def Let_def)
    next
      case True
      define st3 where "st3 = st2\<lparr>last_used := last_used st2 + n\<rparr>"
      have inv3: "qstr_inv st3 strs"
        by (rule qstr_inv_chunk [OF c2(1)]) (use c2(2) True in \<open>auto simp: st3_def\<close>)
      obtain r st' where a: "qstr_add (qstr_encode s) mem2 st3 = Some (r, st')"
        using qstr_add_returns [OF inv3] by blast
      have run: "qstr_from_strn s mem st = Some (r, st')"
        using f \<open>\<not> 256 \<le> length s\<close> g c True a by (simp add: qstr_from_strn_def n_def st3_def Let_def)
      from qstr_add_spec [OF inv3 new _ a] False show ?thesis
        using run new inv3 p(2) by auto
    qed
  qed
qed

end
