(* ===== verification/Py_SmallInt.thy ===== *)
theory Py_SmallInt
  imports CInt "HOL-Library.Word" "HOL-Library.Signed_Division"
begin

unbundle bit_operations_syntax

text \<open>
  Integers of the MicroPython port: \<open>py/smallint.c\<close>, the small-integer parts of \<open>mp_unary_op\<close> and
  \<open>mp_binary_op\<close> (\<open>py/runtime.c\<close>) and \<open>py/objint.c\<close>, for 32-bit words, object representation A
  and \<open>MICROPY_LONGINT_IMPL_NONE\<close>: all integers are small integers of 31 bits, and a result that
  does not fit raises \<open>OverflowError\<close>.

  Values of type \<open>mp_int_t\<close> are integers in the range of \<open>int32_t\<close>, with the conversions of
  theory \<open>CInt\<close> where the code computes; division and remainder truncate, as in C.  Results of
  floating point code are values of a type parameter.
\<close>

section \<open>Representation\<close>

type_synonym mp_word = "32 word"

definition MP_SMALL_INT_MIN :: int where "MP_SMALL_INT_MIN = - (2 ^ 30)"
definition MP_SMALL_INT_MAX :: int where "MP_SMALL_INT_MAX = 2 ^ 30 - 1"
definition BITS_PER_WORD :: int where "BITS_PER_WORD = 32"
definition WORD_MSBIT_HIGH :: mp_word where "WORD_MSBIT_HIGH = push_bit 31 1"

definition MP_SMALL_INT_FITS :: "int \<Rightarrow> bool" where
  "MP_SMALL_INT_FITS n \<longleftrightarrow>
     ((word_of_int n :: mp_word) XOR push_bit 1 (word_of_int n)) AND WORD_MSBIT_HIGH = 0"

definition MP_OBJ_NEW_SMALL_INT :: "int \<Rightarrow> mp_word" where
  "MP_OBJ_NEW_SMALL_INT n = push_bit 1 (word_of_int n) OR 1"

definition MP_OBJ_SMALL_INT_VALUE :: "mp_word \<Rightarrow> int" where
  "MP_OBJ_SMALL_INT_VALUE obj = sint (signed_drop_bit 1 obj)"

definition MP_OBJ_NEW_QSTR :: "nat \<Rightarrow> mp_word" where
  "MP_OBJ_NEW_QSTR q = push_bit 3 (of_nat q) OR 2"

definition MP_OBJ_QSTR_VALUE :: "mp_word \<Rightarrow> nat" where
  "MP_OBJ_QSTR_VALUE obj = unat (drop_bit 3 obj)"

definition MP_OBJ_NEW_IMMEDIATE_OBJ :: "nat \<Rightarrow> mp_word" where
  "MP_OBJ_NEW_IMMEDIATE_OBJ v = push_bit 3 (of_nat v) OR 6"

definition MP_OBJ_IMMEDIATE_OBJ_VALUE :: "mp_word \<Rightarrow> nat" where
  "MP_OBJ_IMMEDIATE_OBJ_VALUE obj = unat (drop_bit 3 obj)"

definition mp_obj_is_small_int :: "mp_word \<Rightarrow> bool" where
  "mp_obj_is_small_int obj \<longleftrightarrow> obj AND 1 \<noteq> 0"

definition mp_obj_is_qstr :: "mp_word \<Rightarrow> bool" where
  "mp_obj_is_qstr obj \<longleftrightarrow> obj AND 7 = 2"

definition mp_obj_is_immediate_obj :: "mp_word \<Rightarrow> bool" where
  "mp_obj_is_immediate_obj obj \<longleftrightarrow> obj AND 7 = 6"

definition mp_obj_is_obj :: "mp_word \<Rightarrow> bool" where
  "mp_obj_is_obj obj \<longleftrightarrow> obj AND 3 = 0"

section \<open>Arithmetic (\<open>py/smallint.c\<close>)\<close>

definition mp_small_int_mul_overflow :: "int \<Rightarrow> int \<Rightarrow> bool" where
  "mp_small_int_mul_overflow x y =
     (if x > 0
      then if y > 0 then x > MP_SMALL_INT_MAX sdiv y else y < MP_SMALL_INT_MIN sdiv x
      else if y > 0 then x < MP_SMALL_INT_MIN sdiv y
           else x \<noteq> 0 \<and> y < MP_SMALL_INT_MAX sdiv x)"

definition mp_small_int_modulo :: "int \<Rightarrow> int \<Rightarrow> int" where
  "mp_small_int_modulo dividend divisor =
     (let d = int32 (dividend smod divisor)
      in if d < 0 \<and> divisor > 0 \<or> d > 0 \<and> divisor < 0 then int32 (d + divisor) else d)"

definition mp_small_int_floor_divide :: "int \<Rightarrow> int \<Rightarrow> int" where
  "mp_small_int_floor_divide num denom =
     (let num1 = (if num \<ge> 0
                  then if denom < 0 then int32 (num + int32 (- denom - 1)) else num
                  else if denom \<ge> 0 then int32 (num + int32 (- denom + 1)) else num)
      in int32 (num1 sdiv denom))"

section \<open>Operators (\<open>py/runtime.c\<close>)\<close>

datatype py_error = OverflowError | ZeroDivisionError | ValueError | TypeError

datatype 'f py_val = VInt int | VBool bool | VPair int int | VFloat 'f

text \<open>
  The operators that the switch on two small integers distinguishes.  The in-place variants share
  the branches of their operators; equality and identity do not reach the switch.
\<close>

datatype binary_op = OP_OR | OP_XOR | OP_AND | OP_LSHIFT | OP_RSHIFT | OP_ADD | OP_SUBTRACT |
  OP_MULTIPLY | OP_MAT_MULTIPLY | OP_FLOOR_DIVIDE | OP_TRUE_DIVIDE | OP_MODULO | OP_POWER | OP_DIVMOD |
  OP_LESS | OP_MORE | OP_LESS_EQUAL | OP_MORE_EQUAL

text \<open>\<open>mp_obj_new_int_from_ll\<close> always raises; \<open>mp_obj_new_int\<close> only if the value does not fit.\<close>

definition mp_obj_new_int_from_ll :: "int \<Rightarrow> py_error + 'f py_val" where
  "mp_obj_new_int_from_ll val = Inl OverflowError"

definition mp_obj_new_int :: "int \<Rightarrow> py_error + 'f py_val" where
  "mp_obj_new_int val =
     (if MP_SMALL_INT_FITS val
      then Inr (VInt (MP_OBJ_SMALL_INT_VALUE (MP_OBJ_NEW_SMALL_INT val)))
      else Inl OverflowError)"

text \<open>The loop of \<open>MP_BINARY_OP_POWER\<close>; \<open>None\<close> is the jump to \<open>power_overflow\<close>.\<close>

function pow_loop :: "int \<Rightarrow> int \<Rightarrow> int \<Rightarrow> int option" where
  "pow_loop ans lhs rhs =
     (if rhs > 0
      then if rhs AND 1 \<noteq> 0 \<and> mp_small_int_mul_overflow ans lhs then None
           else (let ans1 = (if rhs AND 1 \<noteq> 0 then int32 (ans * lhs) else ans)
                 in if rhs = 1 then Some ans1
                    else if mp_small_int_mul_overflow lhs lhs then None
                    else pow_loop ans1 (int32 (lhs * lhs)) (rhs sdiv 2))
      else Some ans)"
  by pat_completeness auto
termination
  by (relation "measure (\<lambda>(ans, lhs, rhs). nat rhs)") (auto simp: signed_divide_int_def)

declare pow_loop.simps [simp del]

definition finish_int :: "int \<Rightarrow> py_error + 'f py_val" where
  "finish_int val =
     (if MP_SMALL_INT_FITS val
      then Inr (VInt (MP_OBJ_SMALL_INT_VALUE (MP_OBJ_NEW_SMALL_INT val)))
      else mp_obj_new_int_from_ll val)"

text \<open>
  The operators on two small integers.  \<open>truediv\<close> and \<open>floatpow\<close> stand for the floating point
  results of true division and of a power with a negative exponent.
\<close>

fun small_int_binary_op ::
    "(int \<Rightarrow> int \<Rightarrow> 'f) \<Rightarrow> (int \<Rightarrow> int \<Rightarrow> 'f) \<Rightarrow> binary_op \<Rightarrow> int \<Rightarrow> int \<Rightarrow> py_error + 'f py_val" where
  "small_int_binary_op truediv floatpow OP_OR l r = finish_int (l OR r)"
| "small_int_binary_op truediv floatpow OP_XOR l r = finish_int (l XOR r)"
| "small_int_binary_op truediv floatpow OP_AND l r = finish_int (l AND r)"
| "small_int_binary_op truediv floatpow OP_LSHIFT l r =
     (if r < 0 then Inl ValueError
      else if r \<ge> BITS_PER_WORD \<or> l > drop_bit (nat r) MP_SMALL_INT_MAX \<or> l < drop_bit (nat r) MP_SMALL_INT_MIN
      then mp_obj_new_int_from_ll l
      else finish_int (int32 (push_bit (nat r) l)))"
| "small_int_binary_op truediv floatpow OP_RSHIFT l r =
     (if r < 0 then Inl ValueError
      else (let r' = (if r \<ge> BITS_PER_WORD then BITS_PER_WORD - 1 else r)
            in finish_int (drop_bit (nat r') l)))"
| "small_int_binary_op truediv floatpow OP_ADD l r = finish_int (int32 (l + r))"
| "small_int_binary_op truediv floatpow OP_SUBTRACT l r = finish_int (int32 (l - r))"
| "small_int_binary_op truediv floatpow OP_MULTIPLY l r =
     (if mp_small_int_mul_overflow l r then mp_obj_new_int_from_ll l
      else Inr (VInt (MP_OBJ_SMALL_INT_VALUE (MP_OBJ_NEW_SMALL_INT (int32 (l * r))))))"
| "small_int_binary_op truediv floatpow OP_MAT_MULTIPLY l r = Inl TypeError"
| "small_int_binary_op truediv floatpow OP_FLOOR_DIVIDE l r =
     (if r = 0 then Inl ZeroDivisionError else finish_int (mp_small_int_floor_divide l r))"
| "small_int_binary_op truediv floatpow OP_TRUE_DIVIDE l r =
     (if r = 0 then Inl ZeroDivisionError else Inr (VFloat (truediv l r)))"
| "small_int_binary_op truediv floatpow OP_MODULO l r =
     (if r = 0 then Inl ZeroDivisionError else finish_int (mp_small_int_modulo l r))"
| "small_int_binary_op truediv floatpow OP_POWER l r =
     (if r < 0 then Inr (VFloat (floatpow l r))
      else (case pow_loop 1 l r of
              None \<Rightarrow> mp_obj_new_int_from_ll l
            | Some ans \<Rightarrow> finish_int ans))"
| "small_int_binary_op truediv floatpow OP_DIVMOD l r =
     (if r = 0 then Inl ZeroDivisionError
      else Inr (VPair (MP_OBJ_SMALL_INT_VALUE (MP_OBJ_NEW_SMALL_INT (mp_small_int_floor_divide l r)))
                      (MP_OBJ_SMALL_INT_VALUE (MP_OBJ_NEW_SMALL_INT (mp_small_int_modulo l r)))))"
| "small_int_binary_op truediv floatpow OP_LESS l r = Inr (VBool (l < r))"
| "small_int_binary_op truediv floatpow OP_MORE l r = Inr (VBool (l > r))"
| "small_int_binary_op truediv floatpow OP_LESS_EQUAL l r = Inr (VBool (l \<le> r))"
| "small_int_binary_op truediv floatpow OP_MORE_EQUAL l r = Inr (VBool (l \<ge> r))"

text \<open>The unary operators of small integers; \<open>len\<close> and \<open>sizeof\<close> are not among them.\<close>

datatype unary_op = OP_BOOL | OP_HASH | OP_POSITIVE | OP_NEGATIVE | OP_INVERT | OP_ABS | OP_INT | OP_NOT

fun small_int_unary_op :: "unary_op \<Rightarrow> int \<Rightarrow> py_error + 'f py_val" where
  "small_int_unary_op OP_NOT v = Inr (VBool (v = 0))"
| "small_int_unary_op OP_BOOL v = Inr (VBool (v \<noteq> 0))"
| "small_int_unary_op OP_HASH v = Inr (VInt v)"
| "small_int_unary_op OP_POSITIVE v = Inr (VInt v)"
| "small_int_unary_op OP_INT v = Inr (VInt v)"
| "small_int_unary_op OP_NEGATIVE v =
     (if v = MP_SMALL_INT_MIN then mp_obj_new_int (int32 (- v))
      else Inr (VInt (MP_OBJ_SMALL_INT_VALUE (MP_OBJ_NEW_SMALL_INT (int32 (- v))))))"
| "small_int_unary_op OP_ABS v =
     (if v \<ge> 0 then Inr (VInt v)
      else if v = MP_SMALL_INT_MIN then mp_obj_new_int (int32 (- v))
      else Inr (VInt (MP_OBJ_SMALL_INT_VALUE (MP_OBJ_NEW_SMALL_INT (int32 (- v))))))"
| "small_int_unary_op OP_INVERT v =
     Inr (VInt (MP_OBJ_SMALL_INT_VALUE (MP_OBJ_NEW_SMALL_INT (NOT v))))"

section \<open>Range and representation\<close>

definition small :: "int \<Rightarrow> bool" where
  "small n \<longleftrightarrow> MP_SMALL_INT_MIN \<le> n \<and> n \<le> MP_SMALL_INT_MAX"

lemmas small_range = small_def MP_SMALL_INT_MIN_def MP_SMALL_INT_MAX_def

lemma int32_range: "- (2 ^ 31) \<le> x \<Longrightarrow> x < 2 ^ 31 \<Longrightarrow> int32 x = x"
  by (rule sint_cast_id) simp_all

lemma int32_zero [simp]: "int32 0 = 0"
  by (simp add: int32_range)

lemma small_int32: "small n \<Longrightarrow> int32 n = n"
  by (rule int32_range) (simp_all add: small_range)

lemma fits_bits:
  "MP_SMALL_INT_FITS n \<longleftrightarrow> (bit (word_of_int n :: mp_word) 31 \<longleftrightarrow> bit (word_of_int n :: mp_word) 30)"
proof -
  let ?w = "word_of_int n :: mp_word"
  have "MP_SMALL_INT_FITS n \<longleftrightarrow> \<not> bit (?w XOR push_bit 1 ?w) 31"
    unfolding MP_SMALL_INT_FITS_def WORD_MSBIT_HIGH_def bit_iff_and_push_bit_not_eq_0 by simp
  also have "bit (?w XOR push_bit 1 ?w) 31 \<longleftrightarrow> (bit ?w 31 \<noteq> bit ?w 30)"
    by (simp only: bit_xor_iff bit_push_bit_iff) simp
  finally show ?thesis by simp
qed

lemma fits_small:
  assumes "- (2 ^ 31) \<le> n" "n < 2 ^ 31"
  shows "MP_SMALL_INT_FITS n \<longleftrightarrow> small n"
proof -
  have bits: "bit (word_of_int n :: mp_word) i \<longleftrightarrow> odd (n div 2 ^ i)" if "i < 32" for i
    using that bit_iff_odd [of n i] bit_word_of_int_iff [where 'a = 32, of n i] by simp
  have b31: "bit (word_of_int n :: mp_word) 31 \<longleftrightarrow> n < 0"
  proof -
    have "n div 2 ^ 31 = (if n < 0 then -1 else 0)" using assms by (auto simp: div_pos_pos_trivial intro: int_div_pos_eq [of _ _ _ "n + 2 ^ 31"])
    then show ?thesis using bits [of 31] by simp
  qed
  have b30: "bit (word_of_int n :: mp_word) 30 \<longleftrightarrow> odd (n div 2 ^ 30)" by (rule bits) simp
  show ?thesis
  proof (cases "n < 0")
    case True
    have "n div 2 ^ 30 = (if n < - (2 ^ 30) then -2 else -1)"
      using True assms by (auto intro: int_div_pos_eq [of _ _ _ "n + 2 * 2 ^ 30"] int_div_pos_eq [of _ _ _ "n + 2 ^ 30"])
    then show ?thesis using True b30 b31 by (auto simp: fits_bits small_range)
  next
    case False
    have "n div 2 ^ 30 = (if n < 2 ^ 30 then 0 else 1)"
      using False assms by (auto intro: int_div_pos_eq [of _ _ _ "n - 2 ^ 30"])
    then show ?thesis using False b30 b31 by (auto simp: fits_bits small_range)
  qed
qed

lemma small_int_roundtrip:
  assumes "small n"
  shows "MP_OBJ_SMALL_INT_VALUE (MP_OBJ_NEW_SMALL_INT n) = n"
proof -
  have "push_bit 1 (word_of_int n :: mp_word) OR 1 = word_of_int (2 * n + 1)"
    by (simp add: or_one_eq push_bit_eq_mult)
  moreover have "sint (word_of_int (2 * n + 1) :: mp_word) = 2 * n + 1"
    unfolding sint_sbintrunc' using assms by (simp add: small_range signed_take_bit_int_eq_self_iff)
  ultimately have "sint (MP_OBJ_NEW_SMALL_INT n) = 2 * n + 1"
    by (simp add: MP_OBJ_NEW_SMALL_INT_def)
  then show ?thesis
    by (simp add: MP_OBJ_SMALL_INT_VALUE_def sint_signed_drop_bit_eq drop_bit_eq_div)
qed

section \<open>Arithmetic is exact\<close>

lemma le_div_int: "0 < (y::int) \<Longrightarrow> x \<le> m div y \<longleftrightarrow> x * y \<le> m"
proof
  assume y: "0 < y" and "x \<le> m div y"
  then have "x * y \<le> (m div y) * y" by (simp add: mult_right_mono)
  also have "\<dots> \<le> m" using y by (metis add_le_same_cancel1 div_mult_mod_eq le_add_same_cancel1 pos_mod_sign)
  finally show "x * y \<le> m" .
next
  assume y: "0 < y" and "x * y \<le> m"
  then have "(x * y) div y \<le> m div y" by (intro zdiv_mono1) auto
  then show "x \<le> m div y" using y by simp
qed

lemma mul_overflow_iff:
  assumes "small x" "small y"
  shows "mp_small_int_mul_overflow x y \<longleftrightarrow> \<not> small (x * y)"
proof -
  consider (pp) "0 < x" "0 < y" | (pn) "0 < x" "y \<le> 0" | (np) "x \<le> 0" "0 < y" | (nn) "x < 0" "y \<le> 0" | (z) "x = 0" "y \<le> 0"
    by linarith
  then show ?thesis
  proof cases
    case pp
    then have "0 \<le> x * y" by simp
    then have "small (x * y) \<longleftrightarrow> x * y \<le> 2 ^ 30 - 1" unfolding small_range by linarith
    then show ?thesis using pp le_div_int [of y x "2 ^ 30 - 1"]
      by (auto simp: mp_small_int_mul_overflow_def MP_SMALL_INT_MAX_def signed_divide_int_def)
  next
    case pn
    then have "x * y \<le> 0" by (simp add: mult_nonneg_nonpos)
    then have "small (x * y) \<longleftrightarrow> - y * x \<le> 2 ^ 30" unfolding small_range by (auto simp: mult.commute)
    then show ?thesis using pn le_div_int [of x "- y" "2 ^ 30"]
      by (auto simp: mp_small_int_mul_overflow_def MP_SMALL_INT_MIN_def signed_divide_int_def)
  next
    case np
    then have "x * y \<le> 0" by (simp add: mult_nonpos_nonneg)
    then have "small (x * y) \<longleftrightarrow> - x * y \<le> 2 ^ 30" unfolding small_range by auto
    then show ?thesis using np le_div_int [of y "- x" "2 ^ 30"]
      by (auto simp: mp_small_int_mul_overflow_def MP_SMALL_INT_MIN_def signed_divide_int_def)
  next
    case nn
    then have "0 \<le> x * y" by (simp add: mult_nonpos_nonpos)
    then have "small (x * y) \<longleftrightarrow> - y * - x \<le> 2 ^ 30 - 1" unfolding small_range by (auto simp: mult.commute)
    then show ?thesis using nn le_div_int [of "- x" "- y" "2 ^ 30 - 1"]
      by (auto simp: mp_small_int_mul_overflow_def MP_SMALL_INT_MAX_def signed_divide_int_def)
  next
    case z
    then show ?thesis by (simp add: mp_small_int_mul_overflow_def small_range)
  qed
qed

lemma div_round_up: "0 < (d::int) \<Longrightarrow> (n + d - 1) div d = - ((- n) div d)"
proof -
  assume d: "0 < d"
  define q where "q = (- n) div d"
  define r where "r = (- n) mod d"
  have "q * d + r = - n" by (simp add: q_def r_def)
  then have n: "n = - q * d - r" by simp
  have r: "0 \<le> r" "r < d" using d by (simp_all add: r_def)
  have "(n + d - 1) div d = - q"
    by (rule int_div_pos_eq [of _ _ _ "d - 1 - r"]) (use n r in \<open>auto simp: algebra_simps\<close>)
  then show ?thesis by (simp add: q_def)
qed

lemma div_abs_le: "0 < d \<Longrightarrow> \<bar>n div d\<bar> \<le> \<bar>n :: int\<bar>"
  using zdiv_mono2 [of n 1 d] zdiv_mono2_neg [of n 1 d] div_int_pos_iff [of n d]
    neg_imp_zdiv_neg_iff [of d n] by (cases "0 \<le> n") auto

lemma floor_divide_eq:
  assumes "small n" "small d" "d \<noteq> 0"
  shows "mp_small_int_floor_divide n d = n div d"
proof -
  have id: "int32 (n div d) = n div d"
  proof (rule int32_range)
    have "\<bar>n div d\<bar> \<le> \<bar>n\<bar>"
      using div_abs_le [of d n] div_abs_le [of "- d" "- n"] assms(3) by (cases "0 < d") auto
    then show "- (2 ^ 31) \<le> n div d" "n div d < 2 ^ 31" using assms(1) by (auto simp: small_range)
  qed
  consider (pp) "0 \<le> n" "0 < d" | (pn) "0 \<le> n" "d < 0" | (np) "n < 0" "0 < d" | (nn) "n < 0" "d < 0"
    using assms(3) by linarith
  then show ?thesis
  proof cases
    case pp
    then show ?thesis using id
      by (simp add: mp_small_int_floor_divide_def signed_divide_int_def sgn_if)
  next
    case pn
    have "int32 (n + int32 (- d - 1)) = n - d - 1"
      using pn assms by (simp add: int32_range small_range)
    moreover have "(n - d - 1) div (- d) = - (n div d)"
      using div_round_up [of "- d" n] pn by (simp add: algebra_simps)
    ultimately show ?thesis using pn id by (simp add: mp_small_int_floor_divide_def signed_divide_int_def sgn_if)
  next
    case np
    have "int32 (n + int32 (- d + 1)) = n - d + 1"
      using np assms by (simp add: int32_range small_range)
    moreover have "(- n + d - 1) div d = - (n div d)"
      using div_round_up [of d "- n"] np by simp
    then have "\<bar>n - d + 1\<bar> div d = - (n div d)" using np by (simp add: algebra_simps)
    ultimately show ?thesis using np id by (simp add: mp_small_int_floor_divide_def signed_divide_int_def sgn_if)
  next
    case nn
    then show ?thesis using id by (simp add: mp_small_int_floor_divide_def signed_divide_int_def sgn_if)
  qed
qed

lemma modulo_eq:
  assumes "small n" "small d" "d \<noteq> 0"
  shows "mp_small_int_modulo n d = n mod d"
proof -
  define m where "m = \<bar>n\<bar> mod \<bar>d\<bar>"
  have m: "0 \<le> m" "m < \<bar>d\<bar>" using assms(3) by (simp_all add: m_def)
  have "m < 2 ^ 30" using m(2) assms(2) unfolding small_range by linarith
  then have "int32 m = m" "int32 (- m) = - m" using m(1) by (simp_all add: int32_range)
  then have sm: "int32 (n smod d) = sgn n * m"
    by (simp add: signed_modulo_int_def m_def [symmetric] sgn_if)
  have d: "int32 (- m + d) = - m + d" "int32 (m + d) = m + d" "int32 (d - m) = d - m"
    using m assms(2) by (auto simp: int32_range small_range)
  consider (pp) "0 \<le> n" "0 < d" | (pn) "0 \<le> n" "d < 0" | (np) "n < 0" "0 < d" | (nn) "n < 0" "d < 0"
    using assms(3) by linarith
  then show ?thesis
  proof cases
    case pp
    then have "sgn n * m = n mod d" by (cases "n = 0") (simp_all add: m_def)
    moreover have "\<not> n mod d < 0" using pos_mod_sign [of d n] pp by (simp add: not_less)
    ultimately show ?thesis using pp sm by (simp add: mp_small_int_modulo_def Let_def)
  next
    case pn
    have "n mod d = (if m = 0 then 0 else m + d)"
      using pn zmod_zminus2_eq_if [of n "- d"] by (simp add: m_def)
    moreover have "sgn n * m = m" using pn by (cases "n = 0") (simp_all add: m_def)
    ultimately show ?thesis using pn sm m d by (auto simp: mp_small_int_modulo_def)
  next
    case np
    have "n mod d = (if m = 0 then 0 else d - m)"
      using np zmod_zminus1_eq_if [of "- n" d] by (simp add: m_def)
    then show ?thesis using np sm m d by (auto simp: mp_small_int_modulo_def)
  next
    case nn
    have "n mod d = - m" using nn mod_minus_minus [of "- n" "- d"] by (simp add: m_def)
    then show ?thesis using nn sm m by (auto simp: mp_small_int_modulo_def)
  qed
qed

text \<open>The power loop, with what it relies on of its running product.\<close>

lemma not_small_mult: "\<not> small p \<Longrightarrow> 1 \<le> s \<Longrightarrow> \<not> small (p * s)"
proof -
  assume p: "\<not> small p" and s: "1 \<le> s"
  show "\<not> small (p * s)"
  proof (cases "0 \<le> p")
    case True
    then have "p * 1 \<le> p * s" using s by (intro mult_left_mono)
    then show ?thesis using p True unfolding small_range by linarith
  next
    case False
    then have "p * s \<le> p * 1" using s by (intro mult_left_mono_neg) auto
    then show ?thesis using p False unfolding small_range by linarith
  qed
qed

lemma square_overflow:
  assumes sq: "\<not> small (lhs * lhs)" and k: "0 < k" and ans: "ans \<noteq> 0" "ans \<noteq> - 1"
  shows "\<not> small (ans * (lhs * lhs) ^ k)"
proof -
  have big: "2 ^ 30 \<le> lhs * lhs" using sq by (auto simp: small_range not_le) (smt (verit) zero_le_square)
  then have "(lhs * lhs) ^ 1 \<le> (lhs * lhs) ^ k" using k by (intro power_increasing) auto
  with big have t: "2 ^ 30 \<le> (lhs * lhs) ^ k" by simp
  show ?thesis
  proof (cases "0 < ans")
    case True
    have "1 * (lhs * lhs) ^ k \<le> ans * (lhs * lhs) ^ k" using True t by (intro mult_right_mono) auto
    then show ?thesis using t unfolding small_range by linarith
  next
    case False
    then have "ans * (lhs * lhs) ^ k \<le> (- 2) * (lhs * lhs) ^ k" using ans t by (intro mult_right_mono) auto
    then show ?thesis using t unfolding small_range by linarith
  qed
qed

lemma power_half:
  assumes "0 < rhs" "k = nat (rhs div 2)" "f = (if odd rhs then lhs else 1)"
  shows "lhs ^ nat rhs = f * (lhs * lhs :: int) ^ k"
proof -
  have "rhs = 2 * int k + (if odd rhs then 1 else 0)" using assms(1,2) by (cases "odd rhs") auto
  then have "nat rhs = 2 * k + (if odd rhs then 1 else 0)" by (auto split: if_splits)
  then show ?thesis using assms(3) by (auto simp: power_mult power2_eq_square)
qed

lemma pow_loop_eq:
  assumes "small ans" "small lhs" "0 \<le> rhs" "ans \<noteq> 0 \<or> lhs = 0" "ans = - 1 \<longrightarrow> \<bar>lhs\<bar> \<le> 1"
  shows "pow_loop ans lhs rhs = (if small (ans * lhs ^ nat rhs) then Some (ans * lhs ^ nat rhs) else None)"
  using assms
proof (induction "nat rhs" arbitrary: ans lhs rhs rule: less_induct)
  case less
  show ?case
  proof (cases "rhs > 0")
    case False
    then show ?thesis using less.prems by (simp add: pow_loop.simps)
  next
    case pos: True
    define k where "k = nat (rhs div 2)"
    define f where "f = (if odd rhs then lhs else 1)"
    have half: "rhs sdiv 2 = rhs div 2" using pos by (simp add: signed_divide_int_def)
    have odd_iff: "rhs AND 1 \<noteq> 0 \<longleftrightarrow> odd rhs" by (simp add: and_one_eq odd_iff_mod_2_eq_one)
    have pw: "ans * lhs ^ nat rhs = (ans * f) * (lhs * lhs) ^ k"
      using power_half [OF pos k_def f_def] by (simp add: mult.assoc)
    have sq: "lhs \<noteq> 0 \<Longrightarrow> 1 \<le> (lhs * lhs) ^ k"
      using one_le_power [of "lhs * lhs" k] by (smt (verit) zero_less_mult_iff)
    show ?thesis
    proof (cases "small (ans * f)")
      case False
      then have o: "odd rhs" "f = lhs" using less.prems(1) by (auto simp: f_def split: if_splits)
      then have "pow_loop ans lhs rhs = None"
        using False pos odd_iff mul_overflow_iff [OF less.prems(1,2)] by (subst pow_loop.simps) simp
      moreover have "lhs \<noteq> 0" using False o by (auto simp: small_range)
      ultimately show ?thesis using not_small_mult [OF False sq] unfolding pw by simp
    next
      case sm: True
      have a1: "(if rhs AND 1 \<noteq> 0 then int32 (ans * lhs) else ans) = ans * f"
        using sm small_int32 by (auto simp: odd_iff f_def)
      have no: "\<not> (rhs AND 1 \<noteq> 0 \<and> mp_small_int_mul_overflow ans lhs)"
        using sm mul_overflow_iff [OF less.prems(1,2)] by (cases "odd rhs") (simp_all add: odd_iff f_def)
      have "pow_loop ans lhs rhs = (if rhs = 1 then Some (ans * f)
          else if mp_small_int_mul_overflow lhs lhs then None
          else pow_loop (ans * f) (int32 (lhs * lhs)) (rhs sdiv 2))"
        by (subst pow_loop.simps) (simp only: if_P [OF pos] if_not_P [OF no] a1 Let_def)
      then have step: "pow_loop ans lhs rhs = (if rhs = 1 then Some (ans * f)
          else if small (lhs * lhs) then pow_loop (ans * f) (lhs * lhs) (rhs div 2) else None)"
        using half mul_overflow_iff [OF less.prems(2,2)] small_int32 [of "lhs * lhs"] by auto
      have m1: "\<bar>lhs\<bar> \<le> 1" if "ans * f = - 1"
        using that less.prems(5) abs_zmult_eq_1 [of lhs ans] by (auto simp: f_def mult.commute split: if_splits)
      have nz: "ans * f \<noteq> 0 \<or> lhs * lhs = 0" using less.prems(4) by (auto simp: f_def)
      show ?thesis
      proof (cases "rhs = 1")
        case True
        then have "k = 0" by (simp add: k_def)
        then show ?thesis using True step sm unfolding pw by simp
      next
        case not1: False
        then have k: "0 < k" using pos by (simp add: k_def)
        show ?thesis
        proof (cases "small (lhs * lhs)")
          case False
          have "ans * f \<noteq> - 1"
          proof
            assume "ans * f = - 1"
            from m1 [OF this] have "lhs = - 1 \<or> lhs = 0 \<or> lhs = 1" by linarith
            then show False using False by (auto simp: small_range)
          qed
          moreover have "ans * f \<noteq> 0" using nz False by (auto simp: small_range)
          ultimately show ?thesis using square_overflow [OF False k] step not1 False unfolding pw by simp
        next
          case True
          have "pow_loop (ans * f) (lhs * lhs) (rhs div 2) =
              (if small (ans * f * (lhs * lhs) ^ k) then Some (ans * f * (lhs * lhs) ^ k) else None)"
            unfolding k_def
          proof (rule less.hyps)
            show "nat (rhs div 2) < nat rhs" using pos by simp
            show "ans * f = - 1 \<longrightarrow> \<bar>lhs * lhs\<bar> \<le> 1"
            proof
              assume "ans * f = - 1"
              from m1 [OF this] have "lhs = - 1 \<or> lhs = 0 \<or> lhs = 1" by linarith
              then show "\<bar>lhs * lhs\<bar> \<le> 1" by auto
            qed
          qed (use sm True pos nz in auto)
          then show ?thesis using step not1 True unfolding pw by simp
        qed
      qed
    qed
  qed
qed

section \<open>Reference semantics\<close>

text \<open>
  What the Python language defines for integers, with \<open>OverflowError\<close> for results that do not
  fit: \<open>//\<close> rounds down and \<open>%\<close> takes the sign of the divisor, which are \<open>div\<close> and \<open>mod\<close> of HOL.
\<close>

definition py_int :: "int \<Rightarrow> py_error + 'f py_val" where
  "py_int n = (if small n then Inr (VInt n) else Inl OverflowError)"

fun py_binary ::
    "(int \<Rightarrow> int \<Rightarrow> 'f) \<Rightarrow> (int \<Rightarrow> int \<Rightarrow> 'f) \<Rightarrow> binary_op \<Rightarrow> int \<Rightarrow> int \<Rightarrow> py_error + 'f py_val" where
  "py_binary truediv floatpow OP_OR l r = py_int (l OR r)"
| "py_binary truediv floatpow OP_XOR l r = py_int (l XOR r)"
| "py_binary truediv floatpow OP_AND l r = py_int (l AND r)"
| "py_binary truediv floatpow OP_LSHIFT l r = (if r < 0 then Inl ValueError else py_int (l * 2 ^ nat r))"
| "py_binary truediv floatpow OP_RSHIFT l r = (if r < 0 then Inl ValueError else py_int (l div 2 ^ nat r))"
| "py_binary truediv floatpow OP_ADD l r = py_int (l + r)"
| "py_binary truediv floatpow OP_SUBTRACT l r = py_int (l - r)"
| "py_binary truediv floatpow OP_MULTIPLY l r = py_int (l * r)"
| "py_binary truediv floatpow OP_MAT_MULTIPLY l r = Inl TypeError"
| "py_binary truediv floatpow OP_FLOOR_DIVIDE l r = (if r = 0 then Inl ZeroDivisionError else py_int (l div r))"
| "py_binary truediv floatpow OP_TRUE_DIVIDE l r =
     (if r = 0 then Inl ZeroDivisionError else Inr (VFloat (truediv l r)))"
| "py_binary truediv floatpow OP_MODULO l r = (if r = 0 then Inl ZeroDivisionError else py_int (l mod r))"
| "py_binary truediv floatpow OP_POWER l r =
     (if r < 0 then Inr (VFloat (floatpow l r)) else py_int (l ^ nat r))"
| "py_binary truediv floatpow OP_DIVMOD l r =
     (if r = 0 then Inl ZeroDivisionError
      else if small (l div r) then Inr (VPair (l div r) (l mod r)) else Inl OverflowError)"
| "py_binary truediv floatpow OP_LESS l r = Inr (VBool (l < r))"
| "py_binary truediv floatpow OP_MORE l r = Inr (VBool (l > r))"
| "py_binary truediv floatpow OP_LESS_EQUAL l r = Inr (VBool (l \<le> r))"
| "py_binary truediv floatpow OP_MORE_EQUAL l r = Inr (VBool (l \<ge> r))"

fun py_unary :: "unary_op \<Rightarrow> int \<Rightarrow> py_error + 'f py_val" where
  "py_unary OP_NOT v = Inr (VBool (v = 0))"
| "py_unary OP_BOOL v = Inr (VBool (v \<noteq> 0))"
| "py_unary OP_HASH v = py_int v"
| "py_unary OP_POSITIVE v = py_int v"
| "py_unary OP_INT v = py_int v"
| "py_unary OP_NEGATIVE v = py_int (- v)"
| "py_unary OP_ABS v = py_int \<bar>v\<bar>"
| "py_unary OP_INVERT v = py_int (- v - 1)"

text \<open>
  The two operations that differ: a left shift of zero by 32 bits or more, and \<open>divmod\<close> of the
  smallest integer by -1.
\<close>

definition deviates :: "binary_op \<Rightarrow> int \<Rightarrow> int \<Rightarrow> bool" where
  "deviates op l r \<longleftrightarrow> op = OP_LSHIFT \<and> l = 0 \<and> BITS_PER_WORD \<le> r \<or>
     op = OP_DIVMOD \<and> l = MP_SMALL_INT_MIN \<and> r = - 1"

lemma finish_int_eq: "- (2 ^ 31) \<le> n \<Longrightarrow> n < 2 ^ 31 \<Longrightarrow> finish_int n = py_int n"
  by (simp add: finish_int_def py_int_def fits_small small_int_roundtrip mp_obj_new_int_from_ll_def)

lemma finish_small: "small n \<Longrightarrow> finish_int n = py_int n"
  by (rule finish_int_eq) (simp_all add: small_range)

lemma small_bits: "small l \<longleftrightarrow> l = signed_take_bit 30 l"
  using signed_take_bit_int_eq_self_iff [of 30 l] by (auto simp: small_range)

lemma small_bit: "small x \<Longrightarrow> bit x i = bit x (min 30 i)"
proof -
  assume "small x"
  then have "x = signed_take_bit 30 x" by (simp only: small_bits)
  then have "bit x i = bit (signed_take_bit 30 x) i" by (rule arg_cong)
  then show ?thesis by (simp add: bit_signed_take_bit_iff)
qed

lemma small_bitI:
  assumes "\<And>n. bit x n = bit x (min 30 n)"
  shows "small x"
  unfolding small_bits
proof (rule bit_eqI)
  fix n
  show "bit x n = bit (signed_take_bit 30 x) n"
    using assms [of n] by (simp add: bit_signed_take_bit_iff)
qed

lemma small_bitops:
  assumes "small l" "small r"
  shows "small (l OR r)" "small (l XOR r)" "small (l AND r)"
proof -
  note s = small_bit [OF assms(1)] small_bit [OF assms(2)]
  have "bit (l OR r) n = bit (l OR r) (min 30 n)" "bit (l XOR r) n = bit (l XOR r) (min 30 n)"
      "bit (l AND r) n = bit (l AND r) (min 30 n)" for n
    using s [of n] by (simp_all only: bit_or_iff bit_xor_iff bit_and_iff)
  then show "small (l OR r)" "small (l XOR r)" "small (l AND r)" by (blast intro: small_bitI)+
qed

lemma small_rshift: "small l \<Longrightarrow> small (l div 2 ^ n)"
  using div_abs_le [of "2 ^ n" l] by (auto simp: small_range) (smt (verit) div_by_1 zdiv_mono2_neg zero_less_power one_le_power div_neg_pos_less0)

lemma small_num: "small l \<longleftrightarrow> - 1073741824 \<le> l \<and> l \<le> 1073741823"
  by (simp add: small_range)

lemma rshift_far: "small l \<Longrightarrow> 31 \<le> n \<Longrightarrow> l div 2 ^ n = (if l < 0 then - 1 else 0)"
proof -
  assume l: "small l" and n: "31 \<le> n"
  have "(2::int) ^ 31 \<le> 2 ^ n" using n by (intro power_increasing) auto
  then show ?thesis using l
    by (auto simp: small_range div_pos_pos_trivial intro: int_div_pos_eq [of _ _ _ "l + 2 ^ n"])
qed

lemma rshift_eq:
  assumes "small l" "0 \<le> r"
  shows "finish_int (drop_bit (nat (if r \<ge> BITS_PER_WORD then BITS_PER_WORD - 1 else r)) l) = py_int (l div 2 ^ nat r)"
proof (cases "r \<ge> BITS_PER_WORD")
  case True
  then have "l div 2 ^ nat r = l div 2 ^ 31"
    using rshift_far [OF assms(1), of "nat r"] rshift_far [OF assms(1), of 31] by (simp add: BITS_PER_WORD_def)
  then show ?thesis using True finish_small [OF small_rshift [OF assms(1), of 31]]
    by (simp add: BITS_PER_WORD_def drop_bit_eq_div)
next
  case False
  then show ?thesis using finish_small [OF small_rshift [OF assms(1)]] by (simp add: drop_bit_eq_div)
qed

lemma lshift_far: "l \<noteq> 0 \<Longrightarrow> 32 \<le> n \<Longrightarrow> \<not> small (l * 2 ^ n)"
proof -
  assume l: "l \<noteq> 0" and n: "32 \<le> n"
  have "(2::int) ^ 32 \<le> 2 ^ n" using n by (intro power_increasing) auto
  then have p: "4294967296 \<le> (2::int) ^ n" by simp
  show ?thesis
  proof (cases "0 < l")
    case True
    then have "1 * 2 ^ n \<le> l * 2 ^ n" by (intro mult_right_mono) auto
    then show ?thesis using p unfolding small_num by linarith
  next
    case False
    then have "l * 2 ^ n \<le> (- 1) * 2 ^ n" using l by (intro mult_right_mono) auto
    then show ?thesis using p unfolding small_num by linarith
  qed
qed

lemma lshift_near:
  assumes n: "n < 32"
  shows "l > drop_bit n MP_SMALL_INT_MAX \<or> l < drop_bit n MP_SMALL_INT_MIN \<Longrightarrow> \<not> small (l * 2 ^ n)"
    and "\<not> (l > drop_bit n MP_SMALL_INT_MAX \<or> l < drop_bit n MP_SMALL_INT_MIN) \<Longrightarrow>
         - (2 ^ 31) \<le> l * 2 ^ n \<and> l * 2 ^ n < 2 ^ 31"
proof -
  have up: "l \<le> drop_bit n MP_SMALL_INT_MAX \<longleftrightarrow> l * 2 ^ n \<le> MP_SMALL_INT_MAX"
    by (simp add: drop_bit_eq_div le_div_int)
  have low: "l + 1 \<le> drop_bit n MP_SMALL_INT_MIN \<longleftrightarrow> (l + 1) * 2 ^ n \<le> MP_SMALL_INT_MIN"
    by (simp only: drop_bit_eq_div le_div_int zero_less_power zero_less_numeral)
  have pos: "(0::int) < 2 ^ n" by simp
  show "\<not> small (l * 2 ^ n)" if "l > drop_bit n MP_SMALL_INT_MAX \<or> l < drop_bit n MP_SMALL_INT_MIN"
    using that
  proof
    assume "l > drop_bit n MP_SMALL_INT_MAX"
    then show ?thesis using up unfolding small_def by linarith
  next
    assume "l < drop_bit n MP_SMALL_INT_MIN"
    then have "l * 2 ^ n + 2 ^ n \<le> MP_SMALL_INT_MIN" using low by (simp add: algebra_simps)
    then show ?thesis using pos unfolding small_def by linarith
  qed
  assume a: "\<not> (l > drop_bit n MP_SMALL_INT_MAX \<or> l < drop_bit n MP_SMALL_INT_MIN)"
  have "MP_SMALL_INT_MIN mod 2 ^ n \<le> 2 ^ 30"
  proof (cases "n = 31")
    case False
    then have "(2::int) ^ n dvd MP_SMALL_INT_MIN" using n unfolding MP_SMALL_INT_MIN_def
      by (intro dvd_minus_iff [THEN iffD2] le_imp_power_dvd) simp
    then show ?thesis by simp
  qed (simp add: MP_SMALL_INT_MIN_def)
  moreover have "drop_bit n MP_SMALL_INT_MIN * 2 ^ n \<le> l * 2 ^ n"
    using a by (intro mult_right_mono) auto
  moreover have "drop_bit n MP_SMALL_INT_MIN * 2 ^ n = MP_SMALL_INT_MIN - MP_SMALL_INT_MIN mod 2 ^ n"
    by (simp add: drop_bit_eq_div minus_mod_eq_div_mult)
  moreover have "m \<le> 2 ^ 30 \<Longrightarrow> q \<le> x \<Longrightarrow> q = MP_SMALL_INT_MIN - m \<Longrightarrow> - (2 ^ 31) \<le> x" for m q x
    by (simp add: MP_SMALL_INT_MIN_def)
  ultimately have "- (2 ^ 31) \<le> l * 2 ^ n" by blast
  moreover have "MP_SMALL_INT_MAX < 2 ^ 31" by (simp add: MP_SMALL_INT_MAX_def)
  then have "l * 2 ^ n < 2 ^ 31" using a up by linarith
  ultimately show "- (2 ^ 31) \<le> l * 2 ^ n \<and> l * 2 ^ n < 2 ^ 31" ..
qed

lemma lshift_eq:
  assumes "small l" "l \<noteq> 0 \<or> r < BITS_PER_WORD" "0 \<le> r"
  shows "small_int_binary_op td fp OP_LSHIFT l r = py_int (l * 2 ^ nat r)"
proof (cases "r \<ge> BITS_PER_WORD")
  case True
  then have "\<not> small (l * 2 ^ nat r)" using assms by (intro lshift_far) (auto simp: BITS_PER_WORD_def)
  then show ?thesis using True assms(3) by (simp add: mp_obj_new_int_from_ll_def py_int_def)
next
  case False
  then have n: "nat r < 32" using assms(3) by (simp add: BITS_PER_WORD_def)
  show ?thesis
  proof (cases "l > drop_bit (nat r) MP_SMALL_INT_MAX \<or> l < drop_bit (nat r) MP_SMALL_INT_MIN")
    case True
    then show ?thesis using lshift_near(1) [OF n True] assms(3)
      by (simp add: mp_obj_new_int_from_ll_def py_int_def)
  next
    case ok: False
    note b = lshift_near(2) [OF n ok]
    have "push_bit (nat r) l = l * 2 ^ nat r" by (simp add: push_bit_eq_mult)
    moreover have "small_int_binary_op td fp OP_LSHIFT l r = finish_int (int32 (push_bit (nat r) l))"
      using ok False assms(3) by simp
    ultimately show ?thesis using b finish_int_eq [of "l * 2 ^ nat r"] int32_range [of "l * 2 ^ nat r"] by simp
  qed
qed

lemma div_in_range:
  assumes "small l" "small r" "r \<noteq> 0"
  shows "- (2 ^ 31) \<le> l div r \<and> l div r < 2 ^ 31" "small (l mod r)"
    and "\<not> (l = MP_SMALL_INT_MIN \<and> r = - 1) \<Longrightarrow> small (l div r)"
proof -
  have abs: "\<bar>l div r\<bar> \<le> \<bar>l\<bar>"
    using div_abs_le [of r l] div_abs_le [of "- r" "- l"] assms(3) by (cases "0 < r") auto
  then show "- (2 ^ 31) \<le> l div r \<and> l div r < 2 ^ 31" using assms(1) by (auto simp: small_num)
  have "\<bar>l mod r\<bar> < \<bar>r\<bar>" using assms(3) by (rule abs_mod_less)
  then show "small (l mod r)"
    using assms(2) unfolding small_num by linarith
  assume ne: "\<not> (l = MP_SMALL_INT_MIN \<and> r = - 1)"
  show "small (l div r)"
  proof (cases "l = MP_SMALL_INT_MIN \<and> r < 0")
    case True
    then have "(- l) div (- r) \<le> (- l) div 2" using ne by (intro zdiv_mono2) (auto simp: MP_SMALL_INT_MIN_def)
    moreover have "(- l) div (- r) = l div r" by simp
    moreover have "(- l) div 2 = 536870912" using True by (simp add: MP_SMALL_INT_MIN_def)
    ultimately have "l div r \<le> 536870912" by simp
    then show ?thesis using abs assms(1) unfolding small_num by linarith
  next
    case False
    have "l div r \<noteq> 2 ^ 30"
    proof
      assume e: "l div r = 2 ^ 30"
      then have "l * r \<ge> 0 \<and> 2 ^ 30 \<le> \<bar>l\<bar>" using abs div_int_pos_iff [of l r]
        by (auto simp: zero_le_mult_iff)
      then show False using False e assms(1) by (auto simp: small_range zero_le_mult_iff)
    qed
    then show ?thesis using abs assms(1) unfolding small_num by (simp add: abs_le_iff) linarith
  qed
qed

lemma mul_eq:
  assumes "small l" "small r"
  shows "small_int_binary_op td fp OP_MULTIPLY l r = py_int (l * r)"
  using mul_overflow_iff [OF assms] small_int32 [of "l * r"] small_int_roundtrip [of "l * r"]
  by (simp add: py_int_def mp_obj_new_int_from_ll_def)

lemma pow_eq:
  assumes "small l" "0 \<le> r"
  shows "small_int_binary_op td fp OP_POWER l r = py_int (l ^ nat r)"
proof -
  have "pow_loop 1 l r = (if small (1 * l ^ nat r) then Some (1 * l ^ nat r) else None)"
    using assms by (intro pow_loop_eq) (simp_all add: small_num)
  then show ?thesis using assms
    by (simp add: finish_small py_int_def mp_obj_new_int_from_ll_def)
qed

lemma binary_op_eq:
  assumes "small l" "small r" "\<not> deviates op l r"
  shows "small_int_binary_op td fp op l r = py_binary td fp op l r"
proof (cases op)
  case OP_LSHIFT
  then show ?thesis using assms lshift_eq [of l r td fp]
    by (cases "r < 0") (simp, auto simp: deviates_def simp del: small_int_binary_op.simps)
next
  case OP_RSHIFT
  then show ?thesis using assms by (cases "r < 0") (simp, simp add: Let_def rshift_eq)
next
  case OP_MULTIPLY
  then show ?thesis using mul_eq [OF assms(1,2)] by (simp del: small_int_binary_op.simps)
next
  case OP_POWER
  then show ?thesis using pow_eq [OF assms(1), of r td fp]
    by (cases "r < 0") (simp, simp del: small_int_binary_op.simps)
next
  case OP_ADD
  then show ?thesis using assms by (simp add: finish_int_eq int32_range small_num)
next
  case OP_SUBTRACT
  then show ?thesis using assms by (simp add: finish_int_eq int32_range small_num)
next
  case OP_FLOOR_DIVIDE
  then show ?thesis using assms div_in_range(1) [OF assms(1,2)] by (simp add: finish_int_eq floor_divide_eq)
next
  case OP_MODULO
  then show ?thesis using assms by (simp add: finish_small div_in_range(2) modulo_eq)
next
  case OP_DIVMOD
  then show ?thesis using assms div_in_range(2,3) [of l r] floor_divide_eq [of l r] modulo_eq [of l r]
    by (simp add: deviates_def small_int_roundtrip)
qed (use assms in \<open>simp_all add: finish_small small_bitops\<close>)

lemma unary_op_eq:
  assumes "small v"
  shows "small_int_unary_op op v = py_unary op v"
proof -
  have neg: "int32 (- v) = - v" using assms by (simp add: int32_range small_num)
  have fit: "MP_SMALL_INT_FITS (- v) = small (- v)" using assms by (intro fits_small) (simp_all add: small_num)
  have ne: "v \<noteq> MP_SMALL_INT_MIN \<longleftrightarrow> small (- v)" using assms by (auto simp: small_range)
  have inv: "NOT v = - v - 1" "small (- v - 1)" using assms by (auto simp: not_eq_complement small_num)
  show ?thesis
    by (cases op) (use assms neg fit ne inv in \<open>auto simp: py_int_def mp_obj_new_int_def small_int_roundtrip\<close>)
qed

text \<open>What the code does where it deviates.\<close>

lemma deviation_shift:
  assumes "BITS_PER_WORD \<le> r"
  shows "small_int_binary_op td fp OP_LSHIFT 0 r = Inl OverflowError" "py_binary td fp OP_LSHIFT 0 r = Inr (VInt 0)"
  using assms by (simp_all add: BITS_PER_WORD_def mp_obj_new_int_from_ll_def py_int_def small_num)

lemma deviation_divmod:
  "small_int_binary_op td fp OP_DIVMOD MP_SMALL_INT_MIN (- 1) = Inr (VPair MP_SMALL_INT_MIN 0)"
  "py_binary td fp OP_DIVMOD MP_SMALL_INT_MIN (- 1) = Inl OverflowError"
proof -
  have s: "small MP_SMALL_INT_MIN" "small (- 1)" "small 0" by (simp_all add: small_range)
  have "mp_small_int_floor_divide MP_SMALL_INT_MIN (- 1) = 2 ^ 30"
      "mp_small_int_modulo MP_SMALL_INT_MIN (- 1) = 0"
    using floor_divide_eq [OF s(1,2)] modulo_eq [OF s(1,2)] by (simp_all add: MP_SMALL_INT_MIN_def)
  moreover have "MP_OBJ_SMALL_INT_VALUE (MP_OBJ_NEW_SMALL_INT (2 ^ 30)) = MP_SMALL_INT_MIN" by code_simp
  ultimately show "small_int_binary_op td fp OP_DIVMOD MP_SMALL_INT_MIN (- 1) = Inr (VPair MP_SMALL_INT_MIN 0)"
    using small_int_roundtrip [OF s(3)] by simp
  show "py_binary td fp OP_DIVMOD MP_SMALL_INT_MIN (- 1) = Inl OverflowError"
    by (simp add: small_range)
qed

section \<open>Tags\<close>

lemma word_bits: "(a :: mp_word) = b \<longleftrightarrow> (\<forall>n. bit a n = bit b n)"
  by (auto intro: bit_eqI)

lemma and_mask3:
  "(w :: mp_word) AND 7 = c \<longleftrightarrow> (\<forall>n<3. bit w n = bit c n) \<and> (\<forall>n\<ge>3. \<not> bit c n)"
proof -
  have "(7::mp_word) = mask 3" by (simp add: mask_eq_exp_minus_1)
  then have b7: "bit (7::mp_word) n \<longleftrightarrow> n < 3" for n by (simp only: bit_mask_iff) auto
  show ?thesis unfolding word_bits bit_and_iff b7 by (metis not_le)
qed

lemma tag_bits:
  fixes w :: mp_word
  shows "mp_obj_is_small_int w \<longleftrightarrow> bit w 0"
    "mp_obj_is_qstr w \<longleftrightarrow> \<not> bit w 0 \<and> bit w 1 \<and> \<not> bit w 2"
    "mp_obj_is_immediate_obj w \<longleftrightarrow> \<not> bit w 0 \<and> bit w 1 \<and> bit w 2"
    "mp_obj_is_obj w \<longleftrightarrow> \<not> bit w 0 \<and> \<not> bit w 1"
proof -
  have all3: "(\<forall>n<3. P n) \<longleftrightarrow> P 0 \<and> P 1 \<and> P (2::nat)" for P
    by (simp add: numeral_3_eq_3 All_less_Suc numeral_2_eq_2 conj_ac)
  have "(2::mp_word) = push_bit 1 (mask 1)" "(6::mp_word) = push_bit 1 (mask 2)"
    by (simp_all add: mask_eq_exp_minus_1 push_bit_eq_mult)
  then have bits: "bit (2::mp_word) n \<longleftrightarrow> n = 1" "bit (6::mp_word) n \<longleftrightarrow> n = 1 \<or> n = 2" for n
    by (simp_all only: bit_push_bit_iff bit_mask_iff) auto
  have high: "(\<forall>n\<ge>3. n \<noteq> (1::nat)) = True" "(\<forall>n\<ge>3. \<not> (n = 1 \<or> n = (2::nat))) = True" by auto
  show "mp_obj_is_small_int w \<longleftrightarrow> bit w 0" by (simp add: mp_obj_is_small_int_def and_one_eq bit_0 odd_iff_mod_2_eq_one)
  show "mp_obj_is_qstr w \<longleftrightarrow> \<not> bit w 0 \<and> bit w 1 \<and> \<not> bit w 2"
    "mp_obj_is_immediate_obj w \<longleftrightarrow> \<not> bit w 0 \<and> bit w 1 \<and> bit w 2"
    unfolding mp_obj_is_qstr_def mp_obj_is_immediate_obj_def and_mask3 all3 bits high by simp_all
  have "(3::mp_word) = mask 2" by (simp add: mask_eq_exp_minus_1)
  then have b3: "bit (3::mp_word) n \<longleftrightarrow> n = 0 \<or> n = 1" for n by (simp only: bit_mask_iff) auto
  have b0: "bit (0::mp_word) n \<longleftrightarrow> False" for n by simp
  show "mp_obj_is_obj w \<longleftrightarrow> \<not> bit w 0 \<and> \<not> bit w 1"
    unfolding mp_obj_is_obj_def word_bits bit_and_iff b3 b0 by metis
qed

lemma tags_partition:
  fixes w :: mp_word
  shows "[mp_obj_is_small_int w, mp_obj_is_qstr w, mp_obj_is_immediate_obj w, mp_obj_is_obj w]
    \<in> {[True, False, False, False], [False, True, False, False], [False, False, True, False], [False, False, False, True]}"
  by (auto simp only: tag_bits insert_iff list.inject simp_thms)

lemma small_int_word:
  assumes "mp_obj_is_small_int w"
  shows "small (MP_OBJ_SMALL_INT_VALUE w)" "MP_OBJ_NEW_SMALL_INT (MP_OBJ_SMALL_INT_VALUE w) = w"
proof -
  have v: "MP_OBJ_SMALL_INT_VALUE w = sint w div 2"
    by (simp add: MP_OBJ_SMALL_INT_VALUE_def sint_signed_drop_bit_eq drop_bit_eq_div)
  have r: "- (2 ^ 31) \<le> sint w" "sint w < 2 ^ 31" using sint_range_size [of w] by (simp_all add: word_size)
  then show "small (MP_OBJ_SMALL_INT_VALUE w)" unfolding v small_num by simp presburger
  have "odd (sint w)" using assms bit_sint_iff [of w 0] by (simp add: tag_bits bit_0)
  then have "2 * (sint w div 2) + 1 = sint w" by simp
  moreover have "MP_OBJ_NEW_SMALL_INT n = word_of_int (2 * n + 1)" for n
    by (simp add: MP_OBJ_NEW_SMALL_INT_def or_one_eq push_bit_eq_mult)
  ultimately have "MP_OBJ_NEW_SMALL_INT (sint w div 2) = word_of_int (sint w)" by (simp only:)
  then show "MP_OBJ_NEW_SMALL_INT (MP_OBJ_SMALL_INT_VALUE w) = w" unfolding v by simp
qed

lemma new_small_int_tag: "mp_obj_is_small_int (MP_OBJ_NEW_SMALL_INT n)"
  by (simp add: tag_bits MP_OBJ_NEW_SMALL_INT_def bit_or_iff)

lemma tag3_value:
  assumes "q < 2 ^ 29" "t < (8::nat)"
  shows "unat (drop_bit 3 (push_bit 3 (of_nat q) OR (of_nat t :: mp_word))) = q"
proof -
  have "uint (drop_bit 3 (of_nat t :: mp_word)) = 0" unfolding unsigned_drop_bit_eq
    using assms(2) by (simp add: drop_bit_eq_div unsigned_of_nat take_bit_eq_mod)
  then have "drop_bit 3 (of_nat t :: mp_word) = 0" by (simp only: uint_0_iff)
  moreover have push: "push_bit 3 (of_nat q) = (of_nat (q * 8) :: mp_word)" by (simp add: push_bit_eq_mult)
  have "unat (of_nat (q * 8) :: mp_word) = q * 8"
    unfolding unsigned_of_nat using assms(1) by (simp add: take_bit_eq_mod)
  then have "unat (drop_bit 3 (push_bit 3 (of_nat q) :: mp_word)) = q"
    unfolding unsigned_drop_bit_eq push using assms(1) by (simp add: drop_bit_eq_div take_bit_eq_mod del: of_nat_mult)
  ultimately show ?thesis by (simp only: drop_bit_or or.right_neutral)
qed

lemma qstr_word:
  assumes "q < 2 ^ 29"
  shows "mp_obj_is_qstr (MP_OBJ_NEW_QSTR q)" "MP_OBJ_QSTR_VALUE (MP_OBJ_NEW_QSTR q) = q"
    "mp_obj_is_immediate_obj (MP_OBJ_NEW_IMMEDIATE_OBJ q)" "MP_OBJ_IMMEDIATE_OBJ_VALUE (MP_OBJ_NEW_IMMEDIATE_OBJ q) = q"
proof -
  have low: "bit (push_bit 3 (of_nat q :: mp_word) OR t) n = bit t n" if "n < 3" for n and t :: mp_word
    using that by (simp only: bit_or_iff bit_push_bit_iff) auto
  have "bit (2::mp_word) 1" "\<not> bit (2::mp_word) 0" "\<not> bit (2::mp_word) 2"
       "bit (6::mp_word) 1" "\<not> bit (6::mp_word) 0" "bit (6::mp_word) 2" by code_simp+
  then show "mp_obj_is_qstr (MP_OBJ_NEW_QSTR q)" "mp_obj_is_immediate_obj (MP_OBJ_NEW_IMMEDIATE_OBJ q)"
    unfolding tag_bits MP_OBJ_NEW_QSTR_def MP_OBJ_NEW_IMMEDIATE_OBJ_def by (simp_all only: low) simp_all
  show "MP_OBJ_QSTR_VALUE (MP_OBJ_NEW_QSTR q) = q" "MP_OBJ_IMMEDIATE_OBJ_VALUE (MP_OBJ_NEW_IMMEDIATE_OBJ q) = q"
    using tag3_value [OF assms, of 2] tag3_value [OF assms, of 6]
    by (simp_all add: MP_OBJ_QSTR_VALUE_def MP_OBJ_NEW_QSTR_def MP_OBJ_IMMEDIATE_OBJ_VALUE_def MP_OBJ_NEW_IMMEDIATE_OBJ_def)
qed

end
