(* ===== verification/Py_Theorems.thy ===== *)
theory Py_Theorems
  imports Py_Qstr Py_SmallInt
begin

text \<open>
  Properties of the MicroPython components: integer operators, object words and interned strings.
\<close>

section \<open>Integers\<close>






text \<open>
  C27. Every object word is of exactly one of the four kinds (small integer, interned string,
  immediate object, pointer), each constructor gives a word of its kind from which the value is
  recovered, and every word tagged as a small integer is the one that represents its value.
\<close>

theorem object_words_typed:
  fixes w :: mp_word
  shows "[mp_obj_is_small_int w, mp_obj_is_qstr w, mp_obj_is_immediate_obj w, mp_obj_is_obj w]
      \<in> {[True, False, False, False], [False, True, False, False], [False, False, True, False], [False, False, False, True]} \<and>
    (mp_obj_is_small_int w \<longrightarrow>
      small (MP_OBJ_SMALL_INT_VALUE w) \<and> MP_OBJ_NEW_SMALL_INT (MP_OBJ_SMALL_INT_VALUE w) = w) \<and>
    (small n \<longrightarrow>
      mp_obj_is_small_int (MP_OBJ_NEW_SMALL_INT n) \<and> MP_OBJ_SMALL_INT_VALUE (MP_OBJ_NEW_SMALL_INT n) = n) \<and>
    (q < 2 ^ 29 \<longrightarrow>
      mp_obj_is_qstr (MP_OBJ_NEW_QSTR q) \<and> MP_OBJ_QSTR_VALUE (MP_OBJ_NEW_QSTR q) = q) \<and>
    (q < 2 ^ 29 \<longrightarrow>
      mp_obj_is_immediate_obj (MP_OBJ_NEW_IMMEDIATE_OBJ q) \<and>
      MP_OBJ_IMMEDIATE_OBJ_VALUE (MP_OBJ_NEW_IMMEDIATE_OBJ q) = q)"
  using tags_partition [of w] small_int_word [of w] new_small_int_tag [of n] small_int_roundtrip [of n] qstr_word [of q]
  by blast

theorem object_words_typed_witness:
  "small (- 1) \<and> MP_OBJ_NEW_SMALL_INT (- 1) = 0xffffffff \<and> mp_obj_is_small_int 0xffffffff \<and>
   MP_OBJ_SMALL_INT_VALUE 0xffffffff = - 1 \<and> MP_OBJ_QSTR_VALUE (MP_OBJ_NEW_QSTR 5) = 5 \<and>
   mp_obj_is_immediate_obj (MP_OBJ_NEW_IMMEDIATE_OBJ 3)"
proof -
  have s: "small (- 1)" by (simp add: small_range)
  have w: "MP_OBJ_NEW_SMALL_INT (- 1) = 0xffffffff" by code_simp
  show ?thesis using object_words_typed [of "MP_OBJ_NEW_SMALL_INT (- 1)" "- 1" 5] object_words_typed [of "MP_OBJ_NEW_SMALL_INT (- 1)" "- 1" 3] s
    unfolding w by simp
qed

section \<open>Interned strings\<close>




end
