(* ===== verification/Spec2Isabelle.thy ===== *)
theory Spec2Isabelle
  imports Queue MM_Theorems Sched_Theorems Sem_Deadline Py_Theorems
begin

text \<open>
  A verification library for the NuttX kernel and the MicroPython runtime that make up the
  MicroPython port for the SAME70: \<open>src/nuttx\<close> with the configuration
  \<open>nuttx/config_samv71_mp\<close> (flat build, one CPU, round-robin scheduling, periodic timer, no
  priority inheritance), and \<open>src/apps/interpreters/micropython\<close>.

  \<^bold>\<open>Parts and how they interact.\<close>  The kernel keeps its tasks, timers and free blocks in linked lists.
  The heap manager serves \<open>malloc\<close> for the kernel and the applications; the scheduler orders tasks
  by priority and switches between them when a task blocks, becomes ready, changes its priority,
  releases the preemption lock or uses up its time slice; the timer interrupt advances the time
  slice of the running task and the watchdog timers, whose functions wake up waiting tasks.  The
  MicroPython virtual machine runs as a task on top; it represents every value by one machine
  word and every name by the number of an interned string.

  \<^bold>\<open>How C is represented.\<close>  A pointer is an \<open>option\<close>, \<open>None\<close> being NULL, a structure field is a
  function from the addresses of structures to values, and following NULL makes an operation
  return \<open>None\<close>.  Integers are \<open>int\<close> with the conversions of theory \<open>CInt\<close> where a value is stored
  in a type of fixed width, or machine words where the code works on bits.  A loop over linked
  structures is a \<open>partial_function\<close> into \<open>option\<close>, so that an endless loop is \<open>None\<close> as well;
  theorems about such operations state that they return a result.  No model uses fuel.

  \<^bold>\<open>Theories.\<close>
  \<^item> \<open>Prelude\<close>: pointer structures as lists (\<open>path\<close>, \<open>sq_list\<close>, \<open>dq_list\<close>) and list lemmas.
  \<^item> \<open>CInt\<close>: C integers; \<open>Libc_String\<close>: \<open>memcpy\<close>, \<open>memset\<close> (\<open>libs/libc/string\<close>).
  \<^item> \<open>Queue\<close>: all of \<open>libs/libc/queue\<close> and the macros of \<open>include/queue.h\<close>, one definition per
    function, each proved to be the corresponding operation on lists; a locale of first-in
    first-out queues, interpreted on both kinds.
  \<^item> \<open>MM_Heap\<close> defines the heap manager of \<open>mm/mm_heap\<close> (\<open>mm_initialize\<close>, \<open>mm_malloc\<close>, \<open>mm_free\<close>,
    \<open>mm_realloc\<close>, \<open>mm_memalign\<close>, \<open>mm_extend\<close>, \<open>mm_mallinfo\<close> and what they call) on chunk headers in
    memory; \<open>MM_Inv\<close> has the invariant's parts (chunks tile the region, sorted free lists by size
    class), \<open>MM_Correct\<close>, \<open>MM_Init\<close>, \<open>MM_Alloc\<close> and \<open>MM_Resize\<close> its preservation and the effect of each
    operation on the list of chunks, \<open>MM_Theorems\<close> the guarantees to users.
  \<^item> \<open>Sched\<close> defines the task lists of \<open>sched/sched\<close> and the switching decisions of
    \<open>arch/arm/src/armv7-m\<close> (\<open>up_block_task\<close>, \<open>up_unblock_task\<close>, \<open>up_reprioritize_rtr\<close>,
    \<open>up_release_pending\<close>); \<open>Sched_Inv\<close>, \<open>Sched_Merge\<close> and \<open>Sched_Ops\<close> relate the pointer operations to
    lists, \<open>Sched_Switch\<close> and \<open>Sched_Prio\<close> show the refinement of an abstract scheduler, \<open>Sched_Task\<close>
    start-up, task creation and reachable states, \<open>Sched_Theorems\<close> the properties.
  \<^item> \<open>Pidhash\<close>: the PID table of \<open>sched/task/task_setup.c\<close> and its lookups.
  \<^item> \<open>Wdog\<close> defines \<open>sched/wdog\<close>; \<open>Wdog_Correct\<close> and \<open>Wdog_Timer\<close> relate its list of differences to a
    list of remaining times, \<open>Wdog_Theorems\<close> has the properties.
  \<^item> \<open>Sem\<close> defines the counting semaphores of \<open>sched/semaphore\<close> and \<open>libs/libc/semaphore\<close> on the state
    of the scheduler and the PID table; \<open>Sem_Correct\<close> has their invariant and the effect of each call,
    \<open>Sem_Theorems\<close> the reachable states and the properties.  \<open>Sem_Timed\<close> puts scheduler, PID table,
    semaphores and watchdogs together under the timer interrupt (\<open>nxsched_process_timer\<close>) for waits
    with a timeout (\<open>nxsem_tickwait\<close>).
  \<^item> \<open>Py_SmallInt\<close>: object words (\<open>py/obj.h\<close>) and the integer operators (\<open>py/smallint.c\<close>,
    \<open>py/runtime.c\<close>), compared with the operators of the Python language; \<open>Py_Qstr\<close>: interned strings
    (\<open>py/qstr.c\<close>); \<open>Py_Theorems\<close>: their properties.

  \<^bold>\<open>What is shown.\<close>  Queues behave as lists.  The heap manager returns the smallest free chunk that
  fits or NULL if there is none, never hands out memory twice, keeps contents across \<open>realloc\<close>, and
  after all blocks are released is back at its initial state.  In every reachable state of the
  scheduler the running task has the highest priority of the ready ones, the preemption lock is
  respected, equal priorities share the processor, and all operations return.  PIDs are unique.
  Watchdogs fire exactly once and at the right tick, whatever their functions start or cancel.
  Semaphores are never granted more often than they were made available, a negative count is the
  number of waiting tasks, a post wakes the waiting task of highest priority, and a timed wait that
  nobody ends lasts exactly its time and leaves no timer behind.  Integer operators agree with the Python language but for two cases, object words are uniquely
  tagged, and interning is a bijection between strings and numbers.

  \<^bold>\<open>Bounds.\<close>  Lists, heaps, pools and sequences of operations are of any length.  Fixed values are
  those of the configuration: 32-bit words, two watchdog parameters, two bytes of hash and one byte
  of length per interned string.

  \<^bold>\<open>Not modelled.\<close>  Registers, exception entry and device drivers act on hardware.  File systems
  rest on drivers and media.  The network stack, graphics, granule allocator and binary loaders are
  disabled in the configuration.  Signals, task groups, pthreads and POSIX timers deliver events by
  running code on task stacks, which the model of a task does not have; formatted output uses
  variable argument lists.  The lexer, compiler, virtual machine and built-in types of MicroPython
  need a heap of objects with tables of C function pointers and string tables that the build
  generates.
\<close>

end
